(* ===== verification/Cfdp_Prelude.thy ===== *)
theory Cfdp_Prelude
  imports Main "HOL-Library.Word"
begin

text \<open>
  Shared types and lemmas of the development: the machine integers of the C++ sources,
  byte strings, C strings held in fixed arrays, the little-endian layout that
  \<open>memcpy\<close> and \<open>write\<close> give an integer on the supported targets, and the loop that
  turns a predicate on indices into maximal index ranges (it occurs twice in the sources).
\<close>

unbundle bit_operations_syntax

section \<open>Machine integers and byte strings\<close>

type_synonym u8 = "8 word"
type_synonym u32 = "32 word"
type_synonym u64 = "64 word"
type_synonym bytes = "u8 list"

abbreviation UINT32_MAX :: u32 where "UINT32_MAX \<equiv> 0xFFFFFFFF"

lemma unat32_less [simp]: "unat (x :: u32) < 4294967296"
proof -
  have "unat x < 2 ^ LENGTH(32)" by (rule unsigned_less)
  then show ?thesis by simp
qed

lemma unat64_less [simp]: "unat (x :: u64) < 18446744073709551616"
proof -
  have "unat x < 2 ^ LENGTH(64)" by (rule unsigned_less)
  then show ?thesis by simp
qed

named_theorems layout \<comment> \<open>lengths and field reads of encoded structures\<close>
named_theorems steps \<comment> \<open>single steps of loops and of the disk\<close>

text \<open>A string literal of the sources as bytes.\<close>

definition ascii :: "string \<Rightarrow> bytes" where
  "ascii s = map of_char s"

lemma ascii_Nil [simp]: "ascii [] = []"
  by (simp add: ascii_def)

lemma ascii_Cons [simp]: "ascii (c # s) = of_char c # ascii s"
  by (simp add: ascii_def)

lemma length_ascii [simp]: "length (ascii s) = length s"
  by (simp add: ascii_def)

section \<open>Little-endian integers\<close>

fun le_bytes :: "nat \<Rightarrow> 'a::len word \<Rightarrow> bytes" where
  "le_bytes 0 w = []"
| "le_bytes (Suc n) w = ucast w # le_bytes n (drop_bit 8 w)"

fun of_le :: "bytes \<Rightarrow> 'a::len word" where
  "of_le [] = 0"
| "of_le (b # bs) = ucast b OR push_bit 8 (of_le bs)"

lemma length_le_bytes [simp, layout]: "length (le_bytes n w) = n"
  by (induction n arbitrary: w) auto

lemma bit_of_le:
  "bit (of_le bs :: 'a::len word) k \<longleftrightarrow>
     k < LENGTH('a) \<and> k div 8 < length bs \<and> bit (bs ! (k div 8)) (k mod 8)"
proof (induction bs arbitrary: k)
  case Nil
  then show ?case by simp
next
  case (Cons b bs)
  show ?case
  proof (cases "k < 8")
    case True
    then show ?thesis by (auto simp: bit_simps)
  next
    case False
    then obtain j where k: "k = j + 8"
      by (metis add.commute le_Suc_ex not_less)
    have "\<not> bit b (j + 8)" and "(j + 8) div 8 = Suc (j div 8)"
      by (auto dest: bit_imp_le_length)
    with k show ?thesis
      using Cons.IH [of j] by (auto simp: bit_simps)
  qed
qed

lemma bit_le_bytes:
  "i < n \<Longrightarrow> bit (le_bytes n w ! i) k \<longleftrightarrow> k < 8 \<and> bit w (8 * i + k)"
proof (induction n arbitrary: w i)
  case 0
  then show ?case by simp
next
  case (Suc n)
  then show ?case
    by (cases i) (auto simp: bit_simps ac_simps dest: bit_imp_le_length)
qed

lemma of_le_le_bytes:
  assumes "LENGTH('a) \<le> 8 * n"
  shows "of_le (le_bytes n w) = (w :: 'a::len word)"
proof (rule bit_word_eqI)
  fix k assume k: "k < LENGTH('a)"
  then have "k div 8 < n" using assms by auto
  moreover have "8 * (k div 8) + k mod 8 = k" by simp
  ultimately show "bit (of_le (le_bytes n w) :: 'a word) k \<longleftrightarrow> bit w k"
    using k by (auto simp: bit_of_le bit_le_bytes)
qed

lemma le_bytes_of_le:
  assumes "length bs = n" and "8 * n \<le> LENGTH('a)"
  shows "le_bytes n (of_le bs :: 'a::len word) = bs"
proof (rule nth_equalityI)
  show "length (le_bytes n (of_le bs :: 'a word)) = length bs"
    using assms by simp
next
  fix i assume "i < length (le_bytes n (of_le bs :: 'a word))"
  then have i: "i < n" by simp
  show "le_bytes n (of_le bs :: 'a word) ! i = bs ! i"
  proof (rule bit_word_eqI)
    fix k assume "k < LENGTH(8)"
    with i assms show "bit (le_bytes n (of_le bs :: 'a word) ! i) k \<longleftrightarrow> bit (bs ! i) k"
      by (auto simp: bit_le_bytes bit_of_le)
  qed
qed

text \<open>The two widths the sources use.\<close>

definition le32 :: "u32 \<Rightarrow> bytes" where
  "le32 w = le_bytes 4 w"

definition le64 :: "u64 \<Rightarrow> bytes" where
  "le64 w = le_bytes 8 w"

definition get32 :: "nat \<Rightarrow> bytes \<Rightarrow> u32" where
  "get32 off bs = of_le (take 4 (drop off bs))"

definition get64 :: "nat \<Rightarrow> bytes \<Rightarrow> u64" where
  "get64 off bs = of_le (take 8 (drop off bs))"

lemma length_le32 [simp, layout]: "length (le32 w) = 4"
  by (simp add: le32_def)

lemma length_le64 [simp, layout]: "length (le64 w) = 8"
  by (simp add: le64_def)

lemma of_le_le32 [simp]: "of_le (le32 w) = w"
  by (simp add: le32_def of_le_le_bytes)

lemma of_le_le64 [simp]: "of_le (le64 w) = w"
  by (simp add: le64_def of_le_le_bytes)

lemma le32_of_le: "length bs = 4 \<Longrightarrow> le32 (of_le bs) = bs"
  by (simp add: le32_def le_bytes_of_le)

lemma le64_of_le: "length bs = 8 \<Longrightarrow> le64 (of_le bs) = bs"
  by (simp add: le64_def le_bytes_of_le)

lemma get32_le32 [layout]: "get32 0 (le32 w @ bs) = w"
  by (simp add: get32_def)

lemma get32_le32_only [layout]: "get32 0 (le32 w) = w"
  using get32_le32 [of w "[]"] by simp

lemma get64_le64 [layout]: "get64 0 (le64 w @ bs) = w"
  by (simp add: get64_def)

lemma le32_get32: "off + 4 \<le> length p \<Longrightarrow> le32 (get32 off p) = take 4 (drop off p)"
  by (simp add: get32_def le32_of_le)

lemma le64_get64: "off + 8 \<le> length p \<Longrightarrow> le64 (get64 off p) = take 8 (drop off p)"
  by (simp add: get64_def le64_of_le)

text \<open>Adjacent fields of a byte string join into one field.\<close>

lemma take_join: "k' = k + m \<Longrightarrow> take m (drop k p) @ take n (drop k' p) = take (m + n) (drop k p)"
  by (simp add: take_add add.commute)

lemma take_join0: "k' = m \<Longrightarrow> take m p @ take n (drop k' p) = take (m + n) p"
  by (simp add: take_add)

lemma get32_skip: "length xs \<le> off \<Longrightarrow> get32 off (xs @ ys) = get32 (off - length xs) ys"
  by (simp add: get32_def)

lemma get64_skip: "length xs \<le> off \<Longrightarrow> get64 off (xs @ ys) = get64 (off - length xs) ys"
  by (simp add: get64_def)

lemma le32_inject [simp]: "le32 a = le32 b \<longleftrightarrow> a = b"
  by (metis of_le_le32)

section \<open>C strings in fixed arrays\<close>

text \<open>The string that starts a \<open>char\<close> array: everything before the first NUL.\<close>

definition cstr :: "bytes \<Rightarrow> bytes" where
  "cstr bs = takeWhile (\<lambda>b. b \<noteq> 0) bs"

definition terminated :: "bytes \<Rightarrow> bool" where
  "terminated bs \<longleftrightarrow> 0 \<in> set bs"

text \<open>
  \<open>strncpy(dst, src, n)\<close>: copies up to \<open>n\<close> characters of the string, fills the rest of
  the first \<open>n\<close> bytes with NUL and leaves the bytes of \<open>dst\<close> after them alone.
\<close>

definition strncpy :: "bytes \<Rightarrow> bytes \<Rightarrow> nat \<Rightarrow> bytes" where
  "strncpy dst src n = take n (cstr src @ replicate n 0) @ drop n dst"

text \<open>
  \<open>snprintf(dst, n, ...)\<close> of a formatted string \<open>s\<close>: at most \<open>n - 1\<close> characters, a
  NUL, and the bytes of \<open>dst\<close> after the NUL unchanged.
\<close>

definition snprintf :: "bytes \<Rightarrow> nat \<Rightarrow> bytes \<Rightarrow> bytes" where
  "snprintf dst n s =
     (let t = take (n - 1) s in t @ [0] @ drop (Suc (length t)) dst)"

lemma cstr_append_zero: "0 \<notin> set s \<Longrightarrow> cstr (s @ 0 # t) = s"
  by (induction s) (auto simp: cstr_def)

lemma zero_notin_cstr [simp]: "0 \<notin> set (cstr bs)"
  by (auto simp: cstr_def dest: set_takeWhileD)

lemma length_cstr: "length (cstr bs) \<le> length bs"
  by (simp add: cstr_def length_takeWhile_le)

lemma terminated_strncpy: "length (cstr src) < n \<Longrightarrow> terminated (strncpy dst src n)"
  by (auto simp: terminated_def strncpy_def take_Cons' split: nat_diff_split)

lemma length_strncpy [layout]: "n \<le> length dst \<Longrightarrow> length (strncpy dst src n) = length dst"
  by (simp add: strncpy_def)

lemma length_snprintf [layout]:
  "0 < n \<Longrightarrow> n \<le> length dst \<Longrightarrow> length (snprintf dst n s) = length dst"
  by (simp add: snprintf_def Let_def)

lemma cstr_snprintf:
  assumes "0 \<notin> set s" and "length s < n"
  shows "cstr (snprintf dst n s) = s"
  using assms by (simp add: snprintf_def Let_def cstr_append_zero)

lemma terminated_snprintf [simp]: "terminated (snprintf dst n s)"
  by (simp add: terminated_def snprintf_def Let_def)

section \<open>Collecting maximal index ranges\<close>

text \<open>
  \<open>PacketList::compute_nak_ranges\<close> and \<open>Journal::compute_missing_chunks\<close> run the same
  loop: \<open>int range_start = -1\<close>, an index counting up, a pair pushed where a run of
  wanted indices ends, a last pair after the loop. The start of the run is kept in an
  \<open>int\<close>, as in the sources: the cast of an index reads it as two's complement, the cast
  back wraps.
\<close>

fun range_loop :: "(nat \<Rightarrow> bool) \<Rightarrow> nat list \<Rightarrow> int \<Rightarrow> (u32 \<times> u32) list \<Rightarrow>
    int \<times> (u32 \<times> u32) list" where
  "range_loop want [] range_start ranges = (range_start, ranges)"
| "range_loop want (i # is) range_start ranges =
     (if want i \<and> range_start = -1 then
        range_loop want is (sint (of_nat i :: u32)) ranges
      else if \<not> want i \<and> range_start \<noteq> -1 then
        range_loop want is (-1) (ranges @ [(word_of_int range_start, of_nat i - 1)])
      else range_loop want is range_start ranges)"

definition range_collect :: "(nat \<Rightarrow> bool) \<Rightarrow> u32 \<Rightarrow> (u32 \<times> u32) list" where
  "range_collect want count =
     (let (range_start, ranges) = range_loop want [0..<unat count] (-1) [] in
      if range_start \<noteq> -1 then ranges @ [(word_of_int range_start, count - 1)]
      else ranges)"

text \<open>What the ranges mean: the indices they cover, and that no two of them touch.\<close>

definition expand :: "u32 \<times> u32 \<Rightarrow> nat list" where
  "expand r = [unat (fst r)..<Suc (unat (snd r))]"

fun separated :: "(u32 \<times> u32) list \<Rightarrow> bool" where
  "separated [] = True"
| "separated [r] = (fst r \<le> snd r)"
| "separated (r # r' # rs) =
     (fst r \<le> snd r \<and> Suc (unat (snd r)) < unat (fst r') \<and> separated (r' # rs))"

lemma separated_snoc:
  "separated (rs @ [r]) \<longleftrightarrow>
     separated rs \<and> fst r \<le> snd r \<and>
     (rs \<noteq> [] \<longrightarrow> Suc (unat (snd (last rs))) < unat (fst r))"
  by (induction rs rule: separated.induct) auto

lemma separated_le: "separated rs \<Longrightarrow> r \<in> set rs \<Longrightarrow> fst r \<le> snd r"
  by (induction rs rule: separated.induct) auto

definition start_code :: "nat option \<Rightarrow> int" where
  "start_code k = (case k of None \<Rightarrow> -1 | Some i \<Rightarrow> sint (of_nat i :: u32))"

lemma start_code_None [simp]: "start_code None = -1"
  by (simp add: start_code_def)

lemma start_code_Some:
  assumes "i < 2 ^ 32 - 1"
  shows "start_code (Some i) \<noteq> -1" and "word_of_int (start_code (Some i)) = (of_nat i :: u32)"
proof -
  have "(of_nat i :: u32) \<noteq> -1"
  proof
    assume "(of_nat i :: u32) = -1"
    then have "unat (of_nat i :: u32) = unat (-1 :: u32)" by simp
    moreover have "unat (-1 :: u32) = 2 ^ 32 - 1"
      by (simp add: unsigned_minus_1_eq_mask mask_eq_exp_minus_1)
    ultimately show False using assms by (simp add: unat_of_nat)
  qed
  then show "start_code (Some i) \<noteq> -1"
    by (auto simp: start_code_def dest: arg_cong [where f = "word_of_int :: int \<Rightarrow> u32"])
  show "word_of_int (start_code (Some i)) = (of_nat i :: u32)"
    by (simp add: start_code_def)
qed

text \<open>
  The invariant of the loop at index \<open>i\<close>, with the start of the current run as an
  option: finished ranges and the current run cover exactly the wanted indices so far.
\<close>

definition scan_inv :: "(nat \<Rightarrow> bool) \<Rightarrow> nat \<Rightarrow> nat option \<Rightarrow> (u32 \<times> u32) list \<Rightarrow> bool" where
  "scan_inv want i so acc \<longleftrightarrow>
     concat (map expand acc) @ (case so of None \<Rightarrow> [] | Some k \<Rightarrow> [k..<i]) = filter want [0..<i] \<and>
     separated acc \<and>
     (\<forall>k. so = Some k \<longrightarrow> k < i) \<and>
     (acc \<noteq> [] \<longrightarrow> Suc (unat (snd (last acc))) < (case so of None \<Rightarrow> i | Some k \<Rightarrow> k))"

lemma scan_inv_init: "scan_inv want 0 None []"
  by (simp add: scan_inv_def)

lemma scan_inv_push:
  assumes inv: "scan_inv want i (Some k) acc" and i: "i < 2 ^ 32"
  shows "concat (map expand (acc @ [(of_nat k, of_nat i - 1)])) = filter want [0..<i]"
    and "separated (acc @ [(of_nat k, of_nat i - 1)])"
    and "unat (of_nat i - 1 :: u32) = i - 1"
proof -
  from inv have k: "k < i" by (simp add: scan_inv_def)
  have ki: "unat (of_nat k :: u32) = k" using k i by (simp add: unat_of_nat)
  have eq: "(of_nat i - 1 :: u32) = of_nat (i - 1)" using k by (simp add: of_nat_diff)
  show i1: "unat (of_nat i - 1 :: u32) = i - 1"
    unfolding eq using i by (simp add: unat_of_nat)
  show "concat (map expand (acc @ [(of_nat k, of_nat i - 1)])) = filter want [0..<i]"
    using inv k by (simp add: scan_inv_def expand_def i1 ki)
  show "separated (acc @ [(of_nat k, of_nat i - 1)])"
    using inv k by (auto simp: separated_snoc scan_inv_def i1 ki word_le_nat_alt)
qed

lemma range_loop_inv:
  assumes "scan_inv want i so acc" and "i \<le> n" and "n < 2 ^ 32"
  shows "\<exists>so' acc'. range_loop want [i..<n] (start_code so) acc = (start_code so', acc') \<and>
           scan_inv want n so' acc'"
  using assms
proof (induction "n - i" arbitrary: i so acc)
  case 0
  then show ?case by auto
next
  case (Suc d)
  then have i: "i < n" and small: "i < 2 ^ 32 - 1" by auto
  have split: "[i..<n] = i # [Suc i..<n]" using i by (rule upt_conv_Cons)
  have ih: "\<exists>so' acc'. range_loop want [Suc i..<n] (start_code so1) acc1 = (start_code so', acc') \<and>
      scan_inv want n so' acc'" if "scan_inv want (Suc i) so1 acc1" for so1 acc1
    using Suc.hyps(2) Suc.prems i that by (intro Suc.hyps(1)) auto
  show ?case
  proof (cases so)
    case None
    with Suc.prems(1) have "scan_inv want (Suc i) (if want i then Some i else None) acc"
      by (auto simp: scan_inv_def)
    from ih [OF this] show ?thesis
      using None by (auto simp: split start_code_def split: if_splits)
  next
    case (Some k)
    with Suc.prems(1) have k: "k < i" by (simp add: scan_inv_def)
    with small have code: "start_code so \<noteq> -1" "word_of_int (start_code so) = (of_nat k :: u32)"
      using start_code_Some [of k] Some by auto
    show ?thesis
    proof (cases "want i")
      case True
      with Suc.prems(1) Some k have "scan_inv want (Suc i) (Some k) acc"
        by (auto simp: scan_inv_def)
      from ih [OF this] show ?thesis using True Some code by (simp add: split)
    next
      case False
      let ?acc = "acc @ [(of_nat k, of_nat i - 1)]"
      note push = scan_inv_push [OF Suc.prems(1) [unfolded Some]]
      have "scan_inv want (Suc i) None ?acc"
        using push small False k by (simp add: scan_inv_def)
      from ih [OF this] show ?thesis using False Some code by (simp add: split)
    qed
  qed
qed

theorem range_collect_spec:
  "concat (map expand (range_collect want count)) = filter want [0..<unat count]"
  "separated (range_collect want count)"
proof -
  obtain so acc where
    loop: "range_loop want [0..<unat count] (start_code None) [] = (start_code so, acc)" and
    inv: "scan_inv want (unat count) so acc"
    using range_loop_inv [OF scan_inv_init, of "unat count" want] unat32_less [of count]
    by auto
  have "concat (map expand (range_collect want count)) = filter want [0..<unat count] \<and>
      separated (range_collect want count)"
  proof (cases so)
    case None
    with loop inv show ?thesis by (simp add: range_collect_def scan_inv_def)
  next
    case (Some k)
    with inv have "k < unat count" by (simp add: scan_inv_def)
    then have "k < 4294967295" using unat32_less [of count] by linarith
    then have "k < 2 ^ 32 - 1" by simp
    from start_code_Some [OF this] Some loop
    have "range_collect want count = acc @ [(of_nat k, of_nat (unat count) - 1)]"
      by (simp add: range_collect_def)
    then show ?thesis
      using scan_inv_push [OF inv [unfolded Some]] unat32_less [of count] by simp
  qed
  then show "concat (map expand (range_collect want count)) = filter want [0..<unat count]"
    and "separated (range_collect want count)" by simp_all
qed

lemma range_collect_Nil_iff:
  "range_collect want count = [] \<longleftrightarrow> (\<forall>i < unat count. \<not> want i)"
proof
  assume "range_collect want count = []"
  then have "filter want [0..<unat count] = []"
    using range_collect_spec(1) [of want count] by simp
  then show "\<forall>i < unat count. \<not> want i" by (simp add: filter_empty_conv)
next
  assume none: "\<forall>i < unat count. \<not> want i"
  then have "filter want [0..<unat count] = []" by (simp add: filter_empty_conv)
  then have "concat (map expand (range_collect want count)) = []"
    by (simp add: range_collect_spec)
  moreover have "expand r \<noteq> []" if "r \<in> set (range_collect want count)" for r
    using separated_le [OF range_collect_spec(2) that] by (simp add: expand_def word_le_nat_alt)
  ultimately show "range_collect want count = []" by (cases "range_collect want count") auto
qed

end
