(* ===== verification/Cfdp_Types.thy ===== *)
theory Cfdp_Types
  imports Cfdp_Prelude
begin

text \<open>
  The protocol data units of \<open>receiver/Types.h\<close> and the headers of
  \<open>receiver/PduCodec.h\<close>: one record per struct, its object representation (the bytes
  \<open>memcpy\<close> and the transport see; the packed structs have no padding, and the structs
  that are not packed hold 32-bit fields only, so they have none either), and the value
  that \<open>memcpy\<close> from such bytes gives. Host and wire are little-endian.
\<close>

section \<open>Constants and PDU types\<close>

definition DEFAULT_CHUNK_SIZE :: u32 where "DEFAULT_CHUNK_SIZE = 1024 * 1024"
definition DEFAULT_PACKET_SIZE :: u32 where "DEFAULT_PACKET_SIZE = 4096"

datatype PduType = Metadata | Data | Eof | Nak | Ack | ResumeQuery | ResumeInfo

fun pdu_code :: "PduType \<Rightarrow> u8" where
  "pdu_code Metadata = 0x01"
| "pdu_code Data = 0x02"
| "pdu_code Eof = 0x03"
| "pdu_code Nak = 0x04"
| "pdu_code Ack = 0x05"
| "pdu_code ResumeQuery = 0x06"
| "pdu_code ResumeInfo = 0x07"

text \<open>\<open>static_cast<PduType>\<close> of a byte that is no enumerator selects no case of a switch.\<close>

definition pdu_type_of :: "u8 \<Rightarrow> PduType option" where
  "pdu_type_of b = find (\<lambda>t. pdu_code t = b)
     [Metadata, Data, Eof, Nak, Ack, ResumeQuery, ResumeInfo]"

lemma pdu_type_of_code [simp]: "pdu_type_of (pdu_code t) = Some t"
  by (cases t) (simp_all add: pdu_type_of_def)

lemma pdu_type_of_Some: "pdu_type_of b = Some t \<longleftrightarrow> b = pdu_code t"
  by (cases t) (auto simp: pdu_type_of_def split: if_splits)

lemma pdu_code_inject [simp]: "pdu_code s = pdu_code t \<longleftrightarrow> s = t"
  by (metis option.inject pdu_type_of_code)

declare pdu_code.simps [simp del]

text \<open>The enumeration is ordered by its underlying values.\<close>

instantiation PduType :: linorder
begin

definition less_eq_PduType :: "PduType \<Rightarrow> PduType \<Rightarrow> bool" where
  "less_eq_PduType s t \<longleftrightarrow> pdu_code s \<le> pdu_code t"

definition less_PduType :: "PduType \<Rightarrow> PduType \<Rightarrow> bool" where
  "less_PduType s t \<longleftrightarrow> pdu_code s < pdu_code t"

instance
  by standard (auto simp: less_eq_PduType_def less_PduType_def order.strict_iff_order)

end

section \<open>Structures\<close>

record MetadataPdu =
  m_transaction_id :: u32
  m_file_size :: u64
  m_chunk_size :: u32
  m_packet_size :: u32
  m_total_chunks :: u32
  m_checksum :: u32
  m_filename :: bytes

text \<open>
  The header of a data PDU is every field before \<open>data\<close>. Only the first
  \<open>data_len\<close> bytes of the array are filled and only these are ever read, so
  \<open>d_data\<close> is exactly these bytes.
\<close>

record DataPdu =
  d_transaction_id :: u32
  d_chunk_index :: u32
  d_packet_index :: u32
  d_total_packets :: u32
  d_data_len :: u32
  d_crc8 :: u8
  d_data :: bytes

record EofPdu =
  e_transaction_id :: u32
  e_checksum :: u32

record PacketNakRange =
  r_chunk_index :: u32
  r_first_packet :: u32
  r_last_packet :: u32

record NakPdu =
  n_transaction_id :: u32
  n_missing_packets :: "PacketNakRange list"

record AckPdu =
  a_transaction_id :: u32
  a_chunk_index :: u32

record ResumeQueryPdu =
  q_transaction_id :: u32

record ResumeInfoPdu =
  i_transaction_id :: u32
  i_first_missing_chunk :: u32

definition sizeof_MetadataPdu :: nat where "sizeof_MetadataPdu = 284"
definition sizeof_DataHeader :: nat where "sizeof_DataHeader = 21"
definition sizeof_EofPdu :: nat where "sizeof_EofPdu = 8"
definition sizeof_PacketNakRange :: nat where "sizeof_PacketNakRange = 12"
definition sizeof_NakHeader :: nat where "sizeof_NakHeader = 8"
definition sizeof_AckPdu :: nat where "sizeof_AckPdu = 8"
definition sizeof_ResumeQueryPdu :: nat where "sizeof_ResumeQueryPdu = 4"
definition sizeof_ResumeInfoPdu :: nat where "sizeof_ResumeInfoPdu = 8"

lemmas sizeof_defs [layout] =
  sizeof_MetadataPdu_def sizeof_DataHeader_def sizeof_EofPdu_def sizeof_PacketNakRange_def
  sizeof_NakHeader_def sizeof_AckPdu_def sizeof_ResumeQueryPdu_def sizeof_ResumeInfoPdu_def

definition metadata_image :: "MetadataPdu \<Rightarrow> bytes" where
  "metadata_image m =
     le32 (m_transaction_id m) @ le64 (m_file_size m) @ le32 (m_chunk_size m) @
     le32 (m_packet_size m) @ le32 (m_total_chunks m) @ le32 (m_checksum m) @ m_filename m"

definition metadata_load :: "bytes \<Rightarrow> MetadataPdu" where
  "metadata_load p =
     \<lparr>m_transaction_id = get32 0 p, m_file_size = get64 4 p, m_chunk_size = get32 12 p,
      m_packet_size = get32 16 p, m_total_chunks = get32 20 p, m_checksum = get32 24 p,
      m_filename = take 256 (drop 28 p)\<rparr>"

definition data_header_image :: "DataPdu \<Rightarrow> bytes" where
  "data_header_image d =
     le32 (d_transaction_id d) @ le32 (d_chunk_index d) @ le32 (d_packet_index d) @
     le32 (d_total_packets d) @ le32 (d_data_len d) @ [d_crc8 d]"

definition data_header_load :: "bytes \<Rightarrow> DataPdu" where
  "data_header_load p =
     \<lparr>d_transaction_id = get32 0 p, d_chunk_index = get32 4 p, d_packet_index = get32 8 p,
      d_total_packets = get32 12 p, d_data_len = get32 16 p, d_crc8 = p ! 20, d_data = []\<rparr>"

definition eof_image :: "EofPdu \<Rightarrow> bytes" where
  "eof_image e = le32 (e_transaction_id e) @ le32 (e_checksum e)"

definition eof_load :: "bytes \<Rightarrow> EofPdu" where
  "eof_load p = \<lparr>e_transaction_id = get32 0 p, e_checksum = get32 4 p\<rparr>"

definition range_image :: "PacketNakRange \<Rightarrow> bytes" where
  "range_image r = le32 (r_chunk_index r) @ le32 (r_first_packet r) @ le32 (r_last_packet r)"

definition range_load :: "bytes \<Rightarrow> PacketNakRange" where
  "range_load p =
     \<lparr>r_chunk_index = get32 0 p, r_first_packet = get32 4 p, r_last_packet = get32 8 p\<rparr>"

definition ack_image :: "AckPdu \<Rightarrow> bytes" where
  "ack_image a = le32 (a_transaction_id a) @ le32 (a_chunk_index a)"

definition ack_load :: "bytes \<Rightarrow> AckPdu" where
  "ack_load p = \<lparr>a_transaction_id = get32 0 p, a_chunk_index = get32 4 p\<rparr>"

definition resume_query_image :: "ResumeQueryPdu \<Rightarrow> bytes" where
  "resume_query_image q = le32 (q_transaction_id q)"

definition resume_query_load :: "bytes \<Rightarrow> ResumeQueryPdu" where
  "resume_query_load p = \<lparr>q_transaction_id = get32 0 p\<rparr>"

definition resume_info_image :: "ResumeInfoPdu \<Rightarrow> bytes" where
  "resume_info_image i = le32 (i_transaction_id i) @ le32 (i_first_missing_chunk i)"

definition resume_info_load :: "bytes \<Rightarrow> ResumeInfoPdu" where
  "resume_info_load p = \<lparr>i_transaction_id = get32 0 p, i_first_missing_chunk = get32 4 p\<rparr>"

lemmas struct_defs =
  metadata_image_def metadata_load_def data_header_image_def data_header_load_def
  eof_image_def eof_load_def range_image_def range_load_def ack_image_def ack_load_def
  resume_query_image_def resume_query_load_def resume_info_image_def resume_info_load_def

section \<open>The contract of an object representation\<close>

text \<open>
  Every structure above has a fixed width, is read back from the front of any byte string
  that starts with its image, and every long enough byte string is the image of what is
  read from it.
\<close>

locale struct_layout =
  fixes image :: "'a \<Rightarrow> bytes" and load :: "bytes \<Rightarrow> 'a"
    and width :: nat and fits :: "'a \<Rightarrow> bool"
  assumes width_image: "fits x \<Longrightarrow> length (image x) = width"
    and load_image: "fits x \<Longrightarrow> load (image x @ rest) = x"
    and image_load: "width \<le> length p \<Longrightarrow> image (load p) = take width p"
    and fits_load: "width \<le> length p \<Longrightarrow> fits (load p)"
begin

lemma image_inject:
  assumes "fits x" and "fits y" and "image x @ r = image y @ s"
  shows "x = y \<and> r = s"
  using assms by (metis load_image same_append_eq)

lemma load_front:
  assumes "width \<le> length p" and "take width p = take width q"
  shows "load p = load q"
proof -
  have "length (take width q) = width" using assms by (metis length_take min.absorb2)
  then have "width \<le> length q" by simp
  have "load p = load (image (load p) @ drop width q)"
    using assms(1) by (simp add: load_image fits_load)
  also have "image (load p) @ drop width q = q"
    using assms by (simp add: image_load)
  finally show ?thesis .
qed

text \<open>An array of structures, read element by element.\<close>

definition load_array :: "nat \<Rightarrow> bytes \<Rightarrow> 'a list" where
  "load_array n p = map (\<lambda>i. load (drop (i * width) p)) [0..<n]"

lemma length_concat_images:
  "\<forall>x \<in> set xs. fits x \<Longrightarrow> length (concat (map image xs)) = width * length xs"
  by (induction xs) (auto simp: width_image)

lemma load_array_images:
  "\<forall>x \<in> set xs. fits x \<Longrightarrow> load_array (length xs) (concat (map image xs) @ rest) = xs"
proof (induction xs)
  case Nil
  then show ?case by (simp add: load_array_def)
next
  case (Cons x xs)
  let ?p = "concat (map image (x # xs)) @ rest"
  have "load_array (length (x # xs)) ?p =
      load ?p # map (\<lambda>i. load (drop (Suc i * width) ?p)) [0..<length xs]"
    by (simp add: load_array_def upt_conv_Cons map_Suc_upt [symmetric] del: upt_Suc)
  also have "load ?p = x" using Cons.prems by (simp add: load_image)
  also have "(\<lambda>i. load (drop (Suc i * width) ?p)) =
      (\<lambda>i. load (drop (i * width) (concat (map image xs) @ rest)))"
    using Cons.prems by (simp add: width_image drop_append fun_eq_iff)
  also have "map \<dots> [0..<length xs] = xs"
    using Cons by (simp add: load_array_def)
  finally show ?case .
qed

lemma images_load_array:
  "n * width \<le> length p \<Longrightarrow> concat (map image (load_array n p)) = take (n * width) p"
proof (induction n)
  case 0
  then show ?case by (simp add: load_array_def)
next
  case (Suc n)
  then have "concat (map image (load_array n p)) = take (n * width) p" by simp
  moreover have "image (load (drop (n * width) p)) = take width (drop (n * width) p)"
    using Suc.prems by (intro image_load) simp
  ultimately show ?case
    by (simp add: load_array_def take_add [symmetric] add.commute)
qed

end

lemmas struct_read = struct_defs layout get32_skip get64_skip le32_get32 le64_get64
  take_join take_join0

definition metadata_fits :: "MetadataPdu \<Rightarrow> bool" where
  "metadata_fits m \<longleftrightarrow> length (m_filename m) = 256"

definition header_only :: "DataPdu \<Rightarrow> bool" where
  "header_only d \<longleftrightarrow> d_data d = []"

lemma take_Suc_0_drop: "k < length p \<Longrightarrow> [p ! k] = take (Suc 0) (drop k p)"
  by (simp add: take_Suc hd_drop_conv_nth)

interpretation metadata: struct_layout metadata_image metadata_load sizeof_MetadataPdu metadata_fits
  by unfold_locales (auto simp: metadata_fits_def struct_read)

interpretation data_header: struct_layout data_header_image data_header_load sizeof_DataHeader header_only
  by unfold_locales
    (auto simp: header_only_def struct_read take_Suc_0_drop nth_append)

interpretation eof: struct_layout eof_image eof_load sizeof_EofPdu "\<lambda>_. True"
  by unfold_locales (auto simp: struct_read)

interpretation nak_range: struct_layout range_image range_load sizeof_PacketNakRange "\<lambda>_. True"
  by unfold_locales (auto simp: struct_read)

interpretation ack: struct_layout ack_image ack_load sizeof_AckPdu "\<lambda>_. True"
  by unfold_locales (auto simp: struct_read)

interpretation resume_query: struct_layout resume_query_image resume_query_load
    sizeof_ResumeQueryPdu "\<lambda>_. True"
  by unfold_locales (auto simp: struct_read)

interpretation resume_info: struct_layout resume_info_image resume_info_load
    sizeof_ResumeInfoPdu "\<lambda>_. True"
  by unfold_locales (auto simp: struct_read)

end
