(* ===== verification/Cfdp_Codec.thy ===== *)
theory Cfdp_Codec
  imports Cfdp_Types
begin

text \<open>
  Wire format of whole PDUs: the serializers of \<open>CfdpReceiver.cpp\<close>, the parsers of
  \<open>PduCodec.h\<close> and the parsing part of \<open>CfdpReceiver::on_pdu_received\<close>. A PDU is its
  type byte followed by the image of a structure. Sizes are natural numbers:
  \<open>size_t\<close> has 64 bits and no expression below can reach 2 ^ 64.
\<close>

section \<open>Receiver to sender\<close>

definition serialize_nak :: "NakPdu \<Rightarrow> bytes" where
  "serialize_nak nak =
     (let count = (of_nat (length (n_missing_packets nak)) :: u32) in
      pdu_code Nak # le32 (n_transaction_id nak) @ le32 count @
      concat (map range_image (n_missing_packets nak)))"

definition ack_pdu :: "AckPdu \<Rightarrow> bytes" where
  "ack_pdu a = pdu_code Ack # ack_image a"

definition resume_info_pdu :: "ResumeInfoPdu \<Rightarrow> bytes" where
  "resume_info_pdu i = pdu_code ResumeInfo # resume_info_image i"

definition parse_nak :: "bytes \<Rightarrow> NakPdu option" where
  "parse_nak pdu =
     (if length pdu < 1 + sizeof_NakHeader then None
      else let count = unat (get32 5 pdu) in
        if length pdu < 1 + sizeof_NakHeader + count * sizeof_PacketNakRange then None
        else Some \<lparr>n_transaction_id = get32 1 pdu,
          n_missing_packets = map (\<lambda>i. range_load (drop (1 + sizeof_NakHeader +
            i * sizeof_PacketNakRange) pdu)) [0..<count]\<rparr>)"

definition parse_ack :: "bytes \<Rightarrow> AckPdu option" where
  "parse_ack pdu =
     (if length pdu < 1 + sizeof_AckPdu then None
      else Some \<lparr>a_transaction_id = get32 1 pdu, a_chunk_index = get32 5 pdu\<rparr>)"

section \<open>Sender to receiver\<close>

definition metadata_pdu :: "MetadataPdu \<Rightarrow> bytes" where
  "metadata_pdu m = pdu_code Metadata # metadata_image m"

definition data_pdu :: "DataPdu \<Rightarrow> bytes \<Rightarrow> bytes" where
  "data_pdu d padding = pdu_code Data # data_header_image d @ d_data d @ padding"

definition eof_pdu :: "EofPdu \<Rightarrow> bytes" where
  "eof_pdu e = pdu_code Eof # eof_image e"

definition resume_query_pdu :: "ResumeQueryPdu \<Rightarrow> bytes" where
  "resume_query_pdu q = pdu_code ResumeQuery # resume_query_image q"

text \<open>
  The dispatcher's parsing: a PDU that is too short, of another type, or a data PDU whose
  announced length is over the limit or beyond the received bytes, is dropped. Each parser
  takes the bytes after the type byte.
\<close>

definition parse_metadata :: "bytes \<Rightarrow> MetadataPdu option" where
  "parse_metadata payload =
     (if Suc (length payload) < 1 + sizeof_MetadataPdu then None
      else Some (metadata_load payload))"

definition parse_data :: "bytes \<Rightarrow> DataPdu option" where
  "parse_data payload =
     (if Suc (length payload) < 1 + sizeof_DataHeader then None
      else let dpdu = data_header_load payload in
        if d_data_len dpdu > DEFAULT_PACKET_SIZE then None
        else if Suc (length payload) < 1 + sizeof_DataHeader + unat (d_data_len dpdu) then None
        else Some (dpdu\<lparr>d_data := take (unat (d_data_len dpdu)) (drop sizeof_DataHeader payload)\<rparr>))"

definition parse_eof :: "bytes \<Rightarrow> EofPdu option" where
  "parse_eof payload =
     (if Suc (length payload) < 1 + sizeof_EofPdu then None else Some (eof_load payload))"

definition parse_resume_query :: "bytes \<Rightarrow> ResumeQueryPdu option" where
  "parse_resume_query payload =
     (if Suc (length payload) < 1 + sizeof_ResumeQueryPdu then None
      else Some (resume_query_load payload))"

section \<open>Lemmas\<close>

lemma Suc_drop_Cons: "drop (Suc n) (x # xs) = drop n xs"
  by simp

lemma get32_Suc [layout]: "get32 (Suc n) (x # xs) = get32 n xs"
  by (simp add: get32_def)

lemma get32_Cons_numeral [layout]:
  "get32 1 (x # xs) = get32 0 xs" "get32 5 (x # xs) = get32 4 xs"
  by (simp_all add: get32_def)

lemma ack_pdu_inject [simp]: "ack_pdu a = ack_pdu b \<longleftrightarrow> a = b"
  using ack.image_inject [where x = a and y = b and r = "[]" and s = "[]"] by (auto simp: ack_pdu_def)

lemma resume_info_pdu_inject [simp]: "resume_info_pdu i = resume_info_pdu j \<longleftrightarrow> i = j"
  using resume_info.image_inject [where x = i and y = j and r = "[]" and s = "[]"]
  by (auto simp: resume_info_pdu_def)

lemma reply_kinds [simp]:
  "ack_pdu a \<noteq> resume_info_pdu i" "resume_info_pdu i \<noteq> ack_pdu a"
  "serialize_nak n \<noteq> ack_pdu a" "ack_pdu a \<noteq> serialize_nak n"
  "serialize_nak n \<noteq> resume_info_pdu i"
  by (simp_all add: ack_pdu_def resume_info_pdu_def serialize_nak_def Let_def pdu_code.simps)

lemma parse_ack_ack_pdu: "parse_ack (ack_pdu a) = Some a"
  by (simp add: parse_ack_def ack_pdu_def struct_read layout)

lemma length_range_images:
  "length (concat (map range_image rs)) = sizeof_PacketNakRange * length rs"
  by (rule nak_range.length_concat_images) simp

lemma parse_nak_serialize:
  assumes "length (n_missing_packets nak) < 2 ^ 32"
  shows "parse_nak (serialize_nak nak @ rest) = Some nak"
proof -
  let ?rs = "n_missing_packets nak"
  let ?body = "concat (map range_image ?rs) @ rest"
  let ?pdu = "serialize_nak nak @ rest"
  have count: "unat (of_nat (length ?rs) :: u32) = length ?rs"
    using assms by (simp add: unat_of_nat)
  let ?head = "pdu_code Nak # le32 (n_transaction_id nak) @ le32 (of_nat (length ?rs))"
  have pdu: "?pdu = ?head @ ?body"
    by (simp add: serialize_nak_def)
  have "length ?head = 9" by (simp add: layout)
  then have "drop (1 + sizeof_NakHeader + i) ?pdu = drop i ?body" for i
    unfolding pdu drop_append by (simp add: layout)
  moreover have "map (\<lambda>i. range_load (drop (i * sizeof_PacketNakRange) ?body)) [0..<length ?rs] = ?rs"
    using nak_range.load_array_images [of ?rs rest] by (simp add: nak_range.load_array_def)
  moreover have "length ?pdu = 9 + 12 * length ?rs + length rest"
    unfolding pdu by (simp add: length_range_images layout)
  moreover have "get32 1 ?pdu = n_transaction_id nak" and "get32 5 ?pdu = of_nat (length ?rs)"
    unfolding pdu by (simp_all add: layout get32_skip)
  ultimately show ?thesis
    by (simp add: parse_nak_def count layout del: One_nat_def)
qed

lemma parse_nak_sound:
  assumes "parse_nak pdu = Some nak"
  shows "\<exists>t rest. pdu = t # tl (serialize_nak nak) @ rest"
    and "length (n_missing_packets nak) < 2 ^ 32"
proof -
  define count where "count = unat (get32 5 pdu)"
  have len: "9 + count * 12 \<le> length pdu"
    and nak: "nak = \<lparr>n_transaction_id = get32 1 pdu,
      n_missing_packets = map (\<lambda>i. range_load (drop (9 + i * 12) pdu)) [0..<count]\<rparr>"
    using assms by (auto simp: parse_nak_def count_def Let_def layout split: if_splits)
  obtain t p where pdu: "pdu = t # p" using len by (cases pdu) auto
  have cnt: "of_nat count = get32 5 pdu" by (simp add: count_def)
  have rs: "n_missing_packets nak = nak_range.load_array count (drop 8 p)"
    unfolding nak_range.load_array_def
    by (simp add: nak pdu layout drop_Cons' add.commute)
  have "concat (map range_image (n_missing_packets nak)) = take (count * 12) (drop 8 p)"
    unfolding rs using nak_range.images_load_array [of count "drop 8 p"] len
    by (simp add: pdu layout)
  moreover have "length (n_missing_packets nak) = count" by (simp add: nak)
  ultimately have "tl (serialize_nak nak) = take (8 + count * 12) p"
    using len by (simp add: serialize_nak_def nak pdu cnt [unfolded pdu] layout le32_get32
      take_join take_join0)
  then show "\<exists>t rest. pdu = t # tl (serialize_nak nak) @ rest"
    using pdu by (metis append_take_drop_id)
  show "length (n_missing_packets nak) < 2 ^ 32"
    by (simp add: nak count_def)
qed

lemma parse_metadata_image:
  "metadata_fits m \<Longrightarrow> parse_metadata (metadata_image m @ rest) = Some m"
  by (simp add: parse_metadata_def metadata.load_image metadata.width_image)

lemma parse_eof_image: "parse_eof (eof_image e @ rest) = Some e"
  by (simp add: parse_eof_def eof.load_image eof.width_image)

lemma parse_resume_query_image: "parse_resume_query (resume_query_image q @ rest) = Some q"
  by (simp add: parse_resume_query_def resume_query.load_image resume_query.width_image)

lemma parse_data_image:
  assumes "length (d_data d) = unat (d_data_len d)" and "d_data_len d \<le> DEFAULT_PACKET_SIZE"
  shows "parse_data (data_header_image d @ d_data d @ rest) = Some d"
proof -
  let ?h = "d\<lparr>d_data := []\<rparr>"
  have img: "data_header_image d = data_header_image ?h"
    by (simp add: data_header_image_def)
  have "header_only ?h" by (simp add: header_only_def)
  from data_header.load_image [OF this] data_header.width_image [OF this] assms show ?thesis
    by (simp add: parse_data_def img Let_def)
qed

lemma parse_data_Some:
  assumes "parse_data payload = Some d"
  shows "length (d_data d) = unat (d_data_len d)" and "d_data_len d \<le> DEFAULT_PACKET_SIZE"
  using assms by (auto simp: parse_data_def Let_def not_less split: if_splits)

section \<open>Properties\<close>

text \<open>C31: The sender parses back the NAK the receiver serialized, whatever follows it, as long
  as the 32-bit count can hold the number of ranges.\<close>

theorem nak_round_trip:
  "length (n_missing_packets nak) < 2 ^ 32 \<Longrightarrow> parse_nak (serialize_nak nak @ rest) = Some nak"
  by (rule parse_nak_serialize)

theorem nak_round_trip_witness:
  "parse_nak (serialize_nak \<lparr>n_transaction_id = 1, n_missing_packets =
      [\<lparr>r_chunk_index = 2, r_first_packet = 3, r_last_packet = 5\<rparr>]\<rparr> @ [255]) =
    Some \<lparr>n_transaction_id = 1, n_missing_packets =
      [\<lparr>r_chunk_index = 2, r_first_packet = 3, r_last_packet = 5\<rparr>]\<rparr>"
  by (rule nak_round_trip) simp

end
