(* ===== verification/Cfdp_Crc.thy ===== *)
theory Cfdp_Crc
  imports Cfdp_Prelude
begin

text \<open>
  \<open>receiver/Crc.cpp\<close>. CRC-8 is the source's own loop. CRC-32 is computed by zlib, which
  is not part of the repository: its \<open>crc32(crc, buf, len)\<close> is the parameter \<open>zcrc\<close>, of
  which only the documented streaming law is used. The file is read in blocks of 4096
  bytes, as the source does.
\<close>

section \<open>CRC-8\<close>

definition crc8_shift :: "u8 \<Rightarrow> u8" where
  "crc8_shift crc =
     (if crc AND 0x80 \<noteq> 0 then push_bit 1 crc XOR 0x07 else push_bit 1 crc)"

definition crc8_byte :: "u8 \<Rightarrow> u8 \<Rightarrow> u8" where
  "crc8_byte crc b = (crc8_shift ^^ 8) (crc XOR b)"

fun crc8_loop :: "u8 \<Rightarrow> bytes \<Rightarrow> u8" where
  "crc8_loop crc [] = crc"
| "crc8_loop crc (b # bs) = crc8_loop (crc8_byte crc b) bs"

definition crc8 :: "bytes \<Rightarrow> u8" where
  "crc8 bs = crc8_loop 0x00 bs"

lemma crc8_loop_append: "crc8_loop crc (xs @ ys) = crc8_loop (crc8_loop crc xs) ys"
  by (induction xs arbitrary: crc) auto

lemma bit_0x80: "bit (0x80 :: u8) k \<longleftrightarrow> k = 7"
proof -
  have "(0x80 :: u8) = 2 ^ 7" by simp
  then show ?thesis by (simp only: bit_exp_iff) auto
qed

lemma and_0x80_iff: "(crc :: u8) AND 0x80 \<noteq> 0 \<longleftrightarrow> bit crc 7"
proof
  assume "crc AND 0x80 \<noteq> 0"
  then obtain k where "bit (crc AND 0x80) k" by (auto simp: bit_eq_iff)
  then show "bit crc 7" unfolding bit_and_iff bit_0x80 by auto
next
  assume "bit crc 7"
  then have "bit (crc AND 0x80) 7" unfolding bit_and_iff bit_0x80 by simp
  then show "crc AND 0x80 \<noteq> 0" by auto
qed

text \<open>The shift register step is linear and, since the polynomial has a constant term, injective.\<close>

lemma crc8_shift_bit:
  assumes "k < 8"
  shows "bit (crc8_shift crc) k \<longleftrightarrow>
     (0 < k \<and> bit crc (k - 1)) \<noteq> (bit crc 7 \<and> bit (0x07 :: u8) k)"
proof -
  have "bit (push_bit 1 crc) k \<longleftrightarrow> 0 < k \<and> bit crc (k - 1)"
    unfolding bit_push_bit_iff using assms by (cases k) auto
  then show ?thesis
    unfolding crc8_shift_def and_0x80_iff by (simp only: bit_xor_iff split: if_split) auto
qed

lemma crc8_shift_xor: "crc8_shift (a XOR b) = crc8_shift a XOR crc8_shift b"
  by (rule bit_word_eqI) (auto simp: crc8_shift_bit bit_xor_iff)

lemma crc8_shift_zero [simp]: "crc8_shift 0 = 0"
  by (simp add: crc8_shift_def)

lemma crc8_shift_eq_zero: "crc8_shift a = 0 \<Longrightarrow> a = 0"
proof (rule bit_word_eqI)
  fix k assume z: "crc8_shift a = 0" and k: "k < LENGTH(8)"
  have "bit (0x07 :: u8) 0" by simp
  with z crc8_shift_bit [of 0 a] have top: "\<not> bit a 7" by simp
  then show "bit a k \<longleftrightarrow> bit 0 k"
  proof (cases "k = 7")
    case False
    with k z top crc8_shift_bit [of "Suc k" a] show ?thesis by simp
  qed simp
qed

lemma inj_crc8_shift: "inj crc8_shift"
proof (rule injI)
  fix a b assume "crc8_shift a = crc8_shift b"
  then have "crc8_shift (a XOR b) = 0" by (simp add: crc8_shift_xor)
  then have "a XOR b = 0" by (rule crc8_shift_eq_zero)
  then show "a = b" by (metis xor.assoc xor.left_neutral xor_self_eq)
qed

lemma crc8_shift_pow_xor: "(crc8_shift ^^ n) (a XOR b) = (crc8_shift ^^ n) a XOR (crc8_shift ^^ n) b"
  by (induction n) (simp_all add: crc8_shift_xor)

lemma crc8_shift_pow_zero [simp]: "(crc8_shift ^^ n) 0 = 0"
  by (induction n) simp_all

lemma crc8_byte_xor: "crc8_byte (a XOR b) (x XOR y) = crc8_byte a x XOR crc8_byte b y"
proof -
  have "a XOR b XOR (x XOR y) = (a XOR x) XOR (b XOR y)" by (simp add: ac_simps)
  then show ?thesis by (simp add: crc8_byte_def crc8_shift_pow_xor ac_simps)
qed

lemma crc8_byte_inject: "crc8_byte a x = crc8_byte b y \<longleftrightarrow> a XOR x = b XOR y"
  using inj_fn [OF inj_crc8_shift, of 8] by (auto simp: crc8_byte_def dest: injD)

lemma crc8_loop_inject: "crc8_loop a bs = crc8_loop b bs \<longleftrightarrow> a = b"
proof (induction bs arbitrary: a b)
  case Nil
  then show ?case by simp
next
  case (Cons x bs)
  have "a XOR x = b XOR x \<longleftrightarrow> a = b" by (metis xor.assoc xor.right_neutral xor_self_eq)
  then show ?case by (simp add: Cons.IH crc8_byte_inject)
qed

lemma crc8_single_byte:
  "crc8 (xs @ x # ys) = crc8 (xs @ y # ys) \<longleftrightarrow> x = y"
proof -
  have "c XOR x = c XOR y \<longleftrightarrow> x = y" for c :: u8
    by (metis xor.assoc xor.left_neutral xor_self_eq)
  then show ?thesis
    by (simp add: crc8_def crc8_loop_append crc8_loop_inject crc8_byte_inject)
qed

lemma crc8_loop_xor:
  "length xs = length ys \<Longrightarrow>
     crc8_loop (a XOR b) (map2 (XOR) xs ys) = crc8_loop a xs XOR crc8_loop b ys"
  by (induction xs ys arbitrary: a b rule: list_induct2) (auto simp: crc8_byte_xor)

lemma crc8_residue: "crc8 (xs @ [crc8 xs]) = 0"
  by (simp add: crc8_def crc8_loop_append crc8_byte_def)

subsection \<open>CRC-8 as polynomial division\<close>

text \<open>
  The specification the comment of \<open>Crc.h\<close> gives: the remainder of the message, followed
  by eight zero bits, under long division by \<open>x ^ 8 + x ^ 2 + x + 1\<close> over GF(2). Bits are
  listed from the most significant one.
\<close>

definition msb_bits :: "u8 \<Rightarrow> bool list" where
  "msb_bits b = map (bit b) [7, 6, 5, 4, 3, 2, 1, 0]"

fun xor_prefix :: "bool list \<Rightarrow> bool list \<Rightarrow> bool list" where
  "xor_prefix (p # ps) (x # xs) = (p \<noteq> x) # xor_prefix ps xs"
| "xor_prefix ps xs = xs"

lemma length_xor_prefix [simp]: "length (xor_prefix ps xs) = length xs"
  by (induction ps xs rule: xor_prefix.induct) auto

definition generator_tail :: "bool list" where
  "generator_tail = [False, False, False, False, False, True, True, True]"

fun poly_rem :: "bool list \<Rightarrow> bool list" where
  "poly_rem [] = []"
| "poly_rem (x # xs) =
     (if length xs < 8 then x # xs
      else poly_rem (if x then xor_prefix generator_tail xs else xs))"

lemma eight: "8 \<le> length zs \<Longrightarrow>
    \<exists>z0 z1 z2 z3 z4 z5 z6 z7 r. zs = z0 # z1 # z2 # z3 # z4 # z5 # z6 # z7 # r"
  by (simp add: numeral_eq_Suc Suc_le_length_iff) blast

lemma bit_0x07: "k < 8 \<Longrightarrow> bit (0x07 :: u8) k \<longleftrightarrow> k < 3"
proof -
  have "(0x07 :: u8) = mask 3" by (simp add: mask_eq_exp_minus_1)
  then show "k < 8 \<Longrightarrow> bit (0x07 :: u8) k \<longleftrightarrow> k < 3" by (simp only: bit_mask_iff) auto
qed

lemma msb_bits_shift:
  "msb_bits (crc8_shift y) =
     map2 (\<noteq>) [bit y 6, bit y 5, bit y 4, bit y 3, bit y 2, bit y 1, bit y 0, False]
       (if bit y 7 then generator_tail else replicate 8 False)"
  by (simp add: msb_bits_def crc8_shift_bit bit_0x07 generator_tail_def numeral_eq_Suc)

lemma poly_rem_shift:
  assumes "8 \<le> length zs"
  shows "poly_rem (xor_prefix (msb_bits y) (False # zs)) =
    poly_rem (xor_prefix (msb_bits (crc8_shift y)) zs)"
proof -
  obtain z0 z1 z2 z3 z4 z5 z6 z7 r where
    zs: "zs = z0 # z1 # z2 # z3 # z4 # z5 # z6 # z7 # r"
    using eight [OF assms] by blast
  have "xor_prefix (msb_bits (crc8_shift y)) zs =
      (if bit y 7 then xor_prefix generator_tail (tl (xor_prefix (msb_bits y) (False # zs)))
       else tl (xor_prefix (msb_bits y) (False # zs)))"
    unfolding msb_bits_shift
    by (auto simp: zs msb_bits_def generator_tail_def numeral_eq_Suc)
  moreover have "xor_prefix (msb_bits y) (False # zs) =
      bit y 7 # tl (xor_prefix (msb_bits y) (False # zs))"
    by (simp add: msb_bits_def)
  moreover have "\<not> length (tl (xor_prefix (msb_bits y) (False # zs))) < 8"
    using assms by simp
  ultimately show ?thesis
    by (metis poly_rem.simps(2))
qed

lemma poly_rem_shifts:
  "8 \<le> length zs \<Longrightarrow>
     poly_rem (xor_prefix (msb_bits y) (replicate n False @ zs)) =
     poly_rem (xor_prefix (msb_bits ((crc8_shift ^^ n) y)) zs)"
proof (induction n arbitrary: y)
  case 0
  then show ?case by simp
next
  case (Suc n)
  then show ?case
    by (simp add: poly_rem_shift funpow_swap1 del: xor_prefix.simps poly_rem.simps)
qed

lemma xor_prefix_byte:
  "xor_prefix (msb_bits c) (msb_bits b @ zs) =
     xor_prefix (msb_bits (c XOR b)) (replicate 8 False @ zs)"
  by (auto simp: msb_bits_def bit_xor_iff numeral_eq_Suc)

lemma crc8_loop_poly_rem:
  "msb_bits (crc8_loop c bs) =
     poly_rem (xor_prefix (msb_bits c) (concat (map msb_bits bs) @ replicate 8 False))"
proof (induction bs arbitrary: c)
  case Nil
  show ?case by (simp add: msb_bits_def numeral_eq_Suc)
next
  case (Cons b bs)
  then show ?case
    by (simp add: xor_prefix_byte poly_rem_shifts crc8_byte_def
        del: xor_prefix.simps poly_rem.simps replicate.simps)
qed

lemma crc8_poly_rem:
  "msb_bits (crc8 bs) = poly_rem (concat (map msb_bits bs) @ replicate 8 False)"
proof -
  have "xor_prefix (msb_bits 0) xs = xs" for xs
  proof -
    have zero: "xor_prefix (replicate n False) ys = ys" for n ys
      by (induction n arbitrary: ys) (auto, case_tac ys, auto)
    have "msb_bits 0 = replicate 8 False" by (simp add: msb_bits_def numeral_eq_Suc)
    then show ?thesis by (simp only: zero)
  qed
  then show ?thesis by (simp add: crc8_def crc8_loop_poly_rem)
qed

section \<open>CRC-32 of a buffer and of a file\<close>

type_synonym zlib_crc32 = "u32 \<Rightarrow> bytes \<Rightarrow> u32"

text \<open>The documented law of zlib's running checksum.\<close>

definition zlib_streaming :: "zlib_crc32 \<Rightarrow> bool" where
  "zlib_streaming zcrc \<longleftrightarrow> (\<forall>crc xs ys. zcrc (zcrc crc xs) ys = zcrc crc (xs @ ys))"

definition crc32 :: "zlib_crc32 \<Rightarrow> bytes \<Rightarrow> u32" where
  "crc32 zcrc data = zcrc 0 (take (unat (of_nat (length data) :: u32)) data)"

function crc32_blocks :: "zlib_crc32 \<Rightarrow> u32 \<Rightarrow> bytes \<Rightarrow> u32" where
  "crc32_blocks zcrc crc bs =
     (if bs = [] then crc else crc32_blocks zcrc (zcrc crc (take 4096 bs)) (drop 4096 bs))"
  by pat_completeness auto
termination
  by (relation "measure (\<lambda>(zcrc, crc, bs). length bs)") auto

declare crc32_blocks.simps [simp del]

text \<open>\<open>None\<close> is a file that cannot be opened.\<close>

definition crc32_file :: "zlib_crc32 \<Rightarrow> bytes option \<Rightarrow> u32" where
  "crc32_file zcrc file =
     (case file of None \<Rightarrow> 0 | Some bs \<Rightarrow> crc32_blocks zcrc (zcrc 0 []) bs)"

lemma crc32_blocks_streaming:
  assumes "zlib_streaming zcrc"
  shows "crc32_blocks zcrc (zcrc c xs) bs = zcrc c (xs @ bs)"
proof (induction "length bs" arbitrary: xs bs rule: less_induct)
  case less
  show ?case
  proof (cases "bs = []")
    case True
    then show ?thesis by (simp add: crc32_blocks.simps)
  next
    case False
    then have "length (drop 4096 bs) < length bs" by simp
    from less [OF this, of "xs @ take 4096 bs"] False assms show ?thesis
      by (subst crc32_blocks.simps) (simp add: zlib_streaming_def)
  qed
qed

lemma crc32_file_whole:
  "zlib_streaming zcrc \<Longrightarrow> crc32_file zcrc (Some bs) = zcrc 0 bs"
  using crc32_blocks_streaming [of zcrc 0 "[]" bs] by (simp add: crc32_file_def)

text \<open>
  An instance of the parameter: the bitwise CRC-32 of IEEE 802.3, whose polynomial
  \<open>Crc.h\<close> names. It is used to show that the hypothesis can hold.
\<close>

definition ieee_shift :: "u32 \<Rightarrow> u32" where
  "ieee_shift crc = (if bit crc 0 then drop_bit 1 crc XOR 0xEDB88320 else drop_bit 1 crc)"

definition ieee_crc32 :: zlib_crc32 where
  "ieee_crc32 crc bs =
     NOT (foldl (\<lambda>c b. (ieee_shift ^^ 8) (c XOR ucast b)) (NOT crc) bs)"

lemma ieee_crc32_streaming: "zlib_streaming ieee_crc32"
  by (simp add: zlib_streaming_def ieee_crc32_def)

section \<open>Properties\<close>

text \<open>C33: CRC-8 detects every change of a single byte, and nothing but a change: two messages
  that differ in one place at most have the same CRC-8 exactly when they are equal.\<close>

theorem crc8_detects_changed_byte:
  "crc8 (before @ x # after) = crc8 (before @ y # after) \<longleftrightarrow> x = y"
  by (rule crc8_single_byte)

text \<open>C32: The shift register computes the specification in \<open>Crc.h\<close>: the remainder of the
  message followed by eight zero bits, divided by the generator polynomial over GF(2).\<close>

theorem crc8_is_polynomial_remainder:
  "msb_bits (crc8 bs) = poly_rem (concat (map msb_bits bs) @ replicate 8 False)"
  by (rule crc8_poly_rem)

text \<open>C34: Reading a file in blocks of 4096 bytes gives the CRC-32 of its whole contents, for
  any zlib that satisfies its documented streaming law; a file that cannot be opened gives 0.\<close>

theorem crc32_file_is_whole_file:
  "zlib_streaming zcrc \<Longrightarrow>
     crc32_file zcrc (Some bs) = zcrc 0 bs \<and> crc32_file zcrc None = 0"
  by (simp add: crc32_file_whole) (simp add: crc32_file_def)

lemma funpow_8: "(f ^^ 8) x = f (f (f (f (f (f (f (f x)))))))"
  by (simp add: numeral_eq_Suc)

lemma ieee_crc32_check: "ieee_crc32 0 (ascii ''123456789'') = 0xCBF43926"
  by (simp add: ieee_crc32_def funpow_8 ieee_shift_def)

theorem crc32_file_is_whole_file_witness:
  "crc32_file ieee_crc32 (Some (ascii ''123456789'')) = 0xCBF43926 \<and> crc32_file ieee_crc32 None = 0"
  using crc32_file_is_whole_file [OF ieee_crc32_streaming, of "ascii ''123456789''"] ieee_crc32_check
  by simp

end
