(* ===== verification/Cfdp_PacketList.thy ===== *)
theory Cfdp_PacketList
  imports Cfdp_Prelude
begin

text \<open>
  \<open>receiver/PacketList.cpp\<close>: the packet slots of the chunk in progress, a doubly linked
  list of heap nodes with an index array. The nodes live in an explicit store from
  addresses to nodes; \<open>new\<close> takes a fresh address, \<open>delete\<close> removes it. An operation
  that would follow a dangling or null pointer returns \<open>None\<close>. The abstraction is the
  list of slots by packet index, and the operations are shown to implement it.
\<close>

section \<open>Nodes and the list object\<close>

record PacketNode =
  pn_packet_index :: u32
  pn_received :: bool
  pn_valid :: bool
  pn_data :: bytes
  pn_prev :: "nat option"
  pn_next :: "nat option"

record PacketList =
  pl_heap :: "nat \<rightharpoonup> PacketNode"
  pl_brk :: nat \<comment> \<open>the next address \<open>new\<close> hands out\<close>
  pl_head :: "nat option"
  pl_tail :: "nat option"
  pl_total_packets :: u32
  pl_valid_count :: u32
  pl_index :: "nat option list"

definition pl_new :: PacketList where
  "pl_new = \<lparr>pl_heap = Map.empty, pl_brk = 0, pl_head = None, pl_tail = None,
     pl_total_packets = 0, pl_valid_count = 0, pl_index = []\<rparr>"

section \<open>Operations\<close>

text \<open>\<open>clear\<close>: walks the \<open>next\<close> pointers and deletes every node it meets.\<close>

partial_function (option) clear_loop ::
    "(nat \<rightharpoonup> PacketNode) \<Rightarrow> nat option \<Rightarrow> (nat \<rightharpoonup> PacketNode) option" where
  "clear_loop h cur =
     (case cur of None \<Rightarrow> Some h
      | Some a \<Rightarrow> (case h a of None \<Rightarrow> None
          | Some node \<Rightarrow> clear_loop (h(a := None)) (pn_next node)))"

definition pl_clear :: "PacketList \<Rightarrow> PacketList option" where
  "pl_clear pl =
     (case clear_loop (pl_heap pl) (pl_head pl) of None \<Rightarrow> None
      | Some h \<Rightarrow> Some (pl\<lparr>pl_heap := h, pl_head := None, pl_tail := None,
          pl_total_packets := 0, pl_valid_count := 0, pl_index := []\<rparr>))"

text \<open>The destructor: what is left on the heap.\<close>

definition pl_delete :: "PacketList \<Rightarrow> (nat \<rightharpoonup> PacketNode) option" where
  "pl_delete pl = map_option pl_heap (pl_clear pl)"

text \<open>One turn of the allocation loop of \<open>init\<close>.\<close>

definition fresh_node :: "nat \<Rightarrow> nat option \<Rightarrow> PacketNode" where
  "fresh_node i p = \<lparr>pn_packet_index = of_nat i, pn_received = False, pn_valid = False,
     pn_data = [], pn_prev = p, pn_next = None\<rparr>"

definition init_step :: "nat \<Rightarrow> PacketList \<Rightarrow> PacketList option" where
  "init_step i pl =
     (let a = pl_brk pl in
      case pl_head pl of
        None \<Rightarrow> Some (pl\<lparr>pl_heap := (pl_heap pl)(a \<mapsto> fresh_node i None), pl_brk := Suc a,
          pl_head := Some a, pl_tail := Some a, pl_index := (pl_index pl)[i := Some a]\<rparr>)
      | Some _ \<Rightarrow>
         (case pl_tail pl of None \<Rightarrow> None
          | Some t \<Rightarrow> (case pl_heap pl t of None \<Rightarrow> None
             | Some tn \<Rightarrow> Some (pl\<lparr>
                 pl_heap := (pl_heap pl)(t \<mapsto> tn\<lparr>pn_next := Some a\<rparr>, a \<mapsto> fresh_node i (Some t)),
                 pl_brk := Suc a, pl_tail := Some a,
                 pl_index := (pl_index pl)[i := Some a]\<rparr>))))"

fun init_loop :: "nat list \<Rightarrow> PacketList \<Rightarrow> PacketList option" where
  "init_loop [] pl = Some pl"
| "init_loop (i # is) pl =
     (case init_step i pl of None \<Rightarrow> None | Some pl' \<Rightarrow> init_loop is pl')"

definition pl_init :: "u32 \<Rightarrow> PacketList \<Rightarrow> PacketList option" where
  "pl_init total_packets pl =
     (case pl_clear pl of None \<Rightarrow> None
      | Some pl \<Rightarrow>
          init_loop [0..<unat total_packets]
            (pl\<lparr>pl_total_packets := total_packets, pl_valid_count := 0,
                pl_index := replicate (unat total_packets) None\<rparr>))"

definition pl_insert :: "u32 \<Rightarrow> bytes \<Rightarrow> bool \<Rightarrow> PacketList \<Rightarrow> (bool \<times> PacketList) option" where
  "pl_insert packet_index data valid pl =
     (if packet_index \<ge> pl_total_packets pl then Some (False, pl)
      else if unat packet_index \<ge> length (pl_index pl) then None
      else case pl_index pl ! unat packet_index of
        None \<Rightarrow> Some (False, pl)
      | Some a \<Rightarrow> (case pl_heap pl a of None \<Rightarrow> None
         | Some node \<Rightarrow>
             let was_valid = pn_received node \<and> pn_valid node;
                 node' = node\<lparr>pn_received := True, pn_valid := valid, pn_data := data\<rparr>;
                 count = pl_valid_count pl;
                 count' = (if valid \<and> \<not> was_valid then count + 1
                           else if \<not> valid \<and> was_valid then count - 1 else count)
             in Some (True, pl\<lparr>pl_heap := (pl_heap pl)(a \<mapsto> node'), pl_valid_count := count'\<rparr>)))"

definition pl_is_complete :: "PacketList \<Rightarrow> bool" where
  "pl_is_complete pl \<longleftrightarrow>
     pl_total_packets pl > 0 \<and> pl_valid_count pl = pl_total_packets pl"

text \<open>The node an index entry points to, where there is one.\<close>

definition node_at :: "PacketList \<Rightarrow> nat \<Rightarrow> PacketNode option" where
  "node_at pl i =
     (if i < length (pl_index pl) then Option.bind (pl_index pl ! i) (pl_heap pl) else None)"

definition needs_retransmit :: "PacketNode \<Rightarrow> bool" where
  "needs_retransmit node \<longleftrightarrow> \<not> pn_received node \<or> \<not> pn_valid node"

definition pl_compute_nak_ranges :: "PacketList \<Rightarrow> (u32 \<times> u32) list option" where
  "pl_compute_nak_ranges pl =
     (if \<exists>i \<in> set [0..<unat (pl_total_packets pl)]. node_at pl i = None then None
      else Some (range_collect (\<lambda>i. needs_retransmit (the (node_at pl i))) (pl_total_packets pl)))"

partial_function (option) assemble_loop ::
    "(nat \<rightharpoonup> PacketNode) \<Rightarrow> nat option \<Rightarrow> bytes \<Rightarrow> bytes option" where
  "assemble_loop h cur result =
     (case cur of None \<Rightarrow> Some result
      | Some a \<Rightarrow> (case h a of None \<Rightarrow> None
          | Some node \<Rightarrow> assemble_loop h (pn_next node) (result @ pn_data node)))"

definition pl_assemble :: "PacketList \<Rightarrow> bytes option" where
  "pl_assemble pl = assemble_loop (pl_heap pl) (pl_head pl) []"

section \<open>Abstraction and representation invariant\<close>

text \<open>
  The three states of a slot that \<open>PacketList.h\<close> lists. A slot that was never filled
  holds no data.
\<close>

datatype slot = Missing | Corrupt bytes | Good bytes

fun is_good :: "slot \<Rightarrow> bool" where
  "is_good (Good d) = True"
| "is_good s = False"

fun slot_data :: "slot \<Rightarrow> bytes" where
  "slot_data Missing = []"
| "slot_data (Corrupt d) = d"
| "slot_data (Good d) = d"

definition slot_of :: "PacketNode \<Rightarrow> slot" where
  "slot_of node =
     (if pn_received node then
        (if pn_valid node then Good (pn_data node) else Corrupt (pn_data node))
      else Missing)"

definition pl_slots :: "PacketList \<Rightarrow> slot list" where
  "pl_slots pl = map (\<lambda>r. slot_of (the (Option.bind r (pl_heap pl)))) (pl_index pl)"

text \<open>
  The nodes at the addresses \<open>as\<close> are chained in both directions, in that order; a node
  that was not received holds no data.
\<close>

definition prev_of :: "nat list \<Rightarrow> nat \<Rightarrow> nat option" where
  "prev_of as k = (if k = 0 then None else Some (as ! (k - 1)))"

definition next_of :: "nat list \<Rightarrow> nat \<Rightarrow> nat option" where
  "next_of as k = (if Suc k < length as then Some (as ! Suc k) else None)"

definition chained :: "(nat \<rightharpoonup> PacketNode) \<Rightarrow> nat list \<Rightarrow> bool" where
  "chained h as \<longleftrightarrow>
     (\<forall>k < length as. \<exists>node. h (as ! k) = Some node \<and> pn_packet_index node = of_nat k \<and>
        pn_prev node = prev_of as k \<and> pn_next node = next_of as k \<and>
        (\<not> pn_received node \<longrightarrow> pn_data node = []))"

definition pl_shape :: "PacketList \<Rightarrow> nat list \<Rightarrow> bool" where
  "pl_shape pl as \<longleftrightarrow>
     distinct as \<and> dom (pl_heap pl) = set as \<and> (\<forall>a \<in> set as. a < pl_brk pl) \<and>
     pl_head pl = (if as = [] then None else Some (hd as)) \<and>
     pl_tail pl = (if as = [] then None else Some (last as)) \<and>
     chained (pl_heap pl) as"

definition pl_inv :: "PacketList \<Rightarrow> bool" where
  "pl_inv pl \<longleftrightarrow>
     (\<exists>as. pl_shape pl as \<and> pl_index pl = map Some as \<and>
        length as = unat (pl_total_packets pl) \<and>
        unat (pl_valid_count pl) = length (filter is_good (pl_slots pl)))"

lemma length_pl_slots [simp]: "length (pl_slots pl) = length (pl_index pl)"
  by (simp add: pl_slots_def)

lemma pl_slots_addrs:
  "pl_index pl = map Some as \<Longrightarrow> pl_slots pl = map (\<lambda>a. slot_of (the (pl_heap pl a))) as"
  by (simp add: pl_slots_def)

lemma chainedD:
  "chained h as \<Longrightarrow> k < length as \<Longrightarrow>
     \<exists>node. h (as ! k) = Some node \<and> pn_packet_index node = of_nat k \<and>
        pn_prev node = prev_of as k \<and> pn_next node = next_of as k \<and>
        (\<not> pn_received node \<longrightarrow> pn_data node = [])"
  by (simp add: chained_def)

section \<open>Walking the list\<close>

fun path :: "(nat \<rightharpoonup> PacketNode) \<Rightarrow> nat option \<Rightarrow> nat list \<Rightarrow> bool" where
  "path h cur [] \<longleftrightarrow> cur = None"
| "path h cur (a # as) \<longleftrightarrow>
     cur = Some a \<and> (case h a of None \<Rightarrow> False | Some node \<Rightarrow> path h (pn_next node) as)"

lemma path_update [simp]: "a \<notin> set as \<Longrightarrow> path (h(a := x)) cur as = path h cur as"
  by (induction as arbitrary: cur) (auto split: option.splits)

lemma chained_path_from:
  assumes "chained h as" and "k \<le> length as"
  shows "path h (if k < length as then Some (as ! k) else None) (drop k as)"
  using assms(2)
proof (induction k rule: inc_induct)
  case base
  show ?case by simp
next
  case (step k)
  then obtain node where "h (as ! k) = Some node" and "pn_next node = next_of as k"
    using chainedD [OF assms(1), of k] by auto
  with step show ?case
    by (simp add: Cons_nth_drop_Suc [symmetric] next_of_def)
qed

lemma chained_path:
  "chained h as \<Longrightarrow> path h (if as = [] then None else Some (hd as)) as"
  using chained_path_from [of h as 0] by (auto simp: hd_conv_nth split: if_splits)

lemma clear_loop_path:
  "path h cur as \<Longrightarrow> distinct as \<Longrightarrow> clear_loop h cur = Some (h |` (- set as))"
proof (induction as arbitrary: h cur)
  case Nil
  then show ?case by (simp add: clear_loop.simps)
next
  case (Cons a as)
  then obtain node where node: "h a = Some node" "path h (pn_next node) as" "cur = Some a"
    by (auto split: option.splits)
  have "a \<notin> set as" and "distinct as" using Cons.prems(2) by simp_all
  then have "clear_loop (h(a := None)) (pn_next node) = Some (h(a := None) |` (- set as))"
    using node(2) by (intro Cons.IH path_update [THEN iffD2])
  moreover have "h(a := None) |` (- set as) = h |` (- set (a # as))"
    by (auto simp: restrict_map_def fun_eq_iff)
  ultimately show ?case using node by (simp add: clear_loop.simps [of h "Some a"])
qed

lemma assemble_loop_path:
  "path h cur as \<Longrightarrow>
     assemble_loop h cur acc = Some (acc @ concat (map (\<lambda>a. pn_data (the (h a))) as))"
proof (induction as arbitrary: cur acc)
  case Nil
  then show ?case by (simp add: assemble_loop.simps)
next
  case (Cons a as)
  then obtain node where "h a = Some node" "path h (pn_next node) as" "cur = Some a"
    by (auto split: option.splits)
  with Cons.IH show ?case by (simp add: assemble_loop.simps [of h "Some a"])
qed

lemma pl_clear_shape:
  assumes "pl_shape pl as"
  shows "pl_clear pl = Some (pl\<lparr>pl_heap := Map.empty, pl_head := None, pl_tail := None,
           pl_total_packets := 0, pl_valid_count := 0, pl_index := []\<rparr>)"
proof -
  have "path (pl_heap pl) (pl_head pl) as"
    using assms chained_path by (auto simp: pl_shape_def split: if_splits)
  then have "clear_loop (pl_heap pl) (pl_head pl) = Some (pl_heap pl |` (- set as))"
    using assms clear_loop_path by (auto simp: pl_shape_def)
  also have "pl_heap pl |` (- set as) = Map.empty"
  proof
    fix a
    show "(pl_heap pl |` (- set as)) a = None"
      using assms by (cases "a \<in> set as") (auto simp: pl_shape_def restrict_map_def dom_def)
  qed
  finally show ?thesis by (simp add: pl_clear_def)
qed

lemma pl_assemble_shape:
  assumes "pl_shape pl as"
  shows "pl_assemble pl = Some (concat (map (\<lambda>a. slot_data (slot_of (the (pl_heap pl a)))) as))"
proof -
  have ch: "chained (pl_heap pl) as" using assms by (simp add: pl_shape_def)
  have "path (pl_heap pl) (pl_head pl) as"
    using assms chained_path by (auto simp: pl_shape_def split: if_splits)
  from assemble_loop_path [OF this, of "[]"]
  have "pl_assemble pl = Some (concat (map (\<lambda>a. pn_data (the (pl_heap pl a))) as))"
    by (simp add: pl_assemble_def)
  also have "map (\<lambda>a. pn_data (the (pl_heap pl a))) as =
      map (\<lambda>a. slot_data (slot_of (the (pl_heap pl a)))) as"
  proof (rule map_cong [OF refl])
    fix a assume "a \<in> set as"
    then obtain k where "k < length as" "as ! k = a" by (auto simp: in_set_conv_nth)
    with chainedD [OF ch] show "pn_data (the (pl_heap pl a)) =
        slot_data (slot_of (the (pl_heap pl a)))"
      by (fastforce simp: slot_of_def)
  qed
  finally show ?thesis .
qed

section \<open>Allocation\<close>

definition all_fresh :: "(nat \<rightharpoonup> PacketNode) \<Rightarrow> nat list \<Rightarrow> bool" where
  "all_fresh h as \<longleftrightarrow> (\<forall>a \<in> set as. slot_of (the (h a)) = Missing)"

lemma slot_of_fresh [simp]: "slot_of (fresh_node i p) = Missing"
  by (simp add: slot_of_def fresh_node_def)

text \<open>Appending a node behind the tail of a non-empty chain.\<close>

lemma chained_append:
  assumes ch: "chained h as" and dist: "distinct as" and new: "a \<notin> set as" and ne: "as \<noteq> []"
    and tail: "h (last as) = Some tn"
  shows "chained (h(last as \<mapsto> tn\<lparr>pn_next := Some a\<rparr>, a \<mapsto> fresh_node (length as) (Some (last as))))
     (as @ [a])"
  unfolding chained_def
proof (intro allI impI)
  fix k assume "k < length (as @ [a])"
  then consider "k = length as" | "k = length as - 1" "k < length as" | "Suc k < length as"
    by fastforce
  then show "\<exists>node. (h(last as \<mapsto> tn\<lparr>pn_next := Some a\<rparr>,
        a \<mapsto> fresh_node (length as) (Some (last as)))) ((as @ [a]) ! k) = Some node \<and>
      pn_packet_index node = of_nat k \<and> pn_prev node = prev_of (as @ [a]) k \<and>
      pn_next node = next_of (as @ [a]) k \<and> (\<not> pn_received node \<longrightarrow> pn_data node = [])"
  proof cases
    case 1
    with ne show ?thesis
      by (auto simp: fresh_node_def prev_of_def next_of_def nth_append last_conv_nth)
  next
    case 2
    with ne have l: "as ! k = last as" by (simp add: last_conv_nth)
    with new ne have "last as \<noteq> a" by auto
    with 2 l ne tail chainedD [OF ch, of k] show ?thesis
      by (auto simp: prev_of_def next_of_def nth_append)
  next
    case 3
    then have "as ! k \<noteq> last as" and "as ! k \<noteq> a"
      using dist new ne by (auto simp: last_conv_nth nth_eq_iff_index_eq)
    with 3 chainedD [OF ch, of k] show ?thesis
      by (auto simp: prev_of_def next_of_def nth_append)
  qed
qed

lemma init_step_shape:
  assumes sh: "pl_shape pl as" and fresh: "all_fresh (pl_heap pl) as"
    and idx: "pl_index pl = map Some as @ replicate (Suc m) None"
  shows "\<exists>pl'. init_step (length as) pl = Some pl' \<and> pl_shape pl' (as @ [pl_brk pl]) \<and>
    all_fresh (pl_heap pl') (as @ [pl_brk pl]) \<and>
    pl_index pl' = map Some (as @ [pl_brk pl]) @ replicate m None \<and>
    pl_total_packets pl' = pl_total_packets pl \<and> pl_valid_count pl' = pl_valid_count pl"
proof (cases "as = []")
  case True
  with sh fresh idx show ?thesis
    by (auto simp: init_step_def Let_def pl_shape_def chained_def fresh_node_def all_fresh_def
        slot_of_def prev_of_def next_of_def)
next
  case False
  let ?a = "pl_brk pl"
  from sh have new: "?a \<notin> set as" by (auto simp: pl_shape_def)
  from sh False have head: "pl_head pl = Some (hd as)" and tail: "pl_tail pl = Some (last as)"
    by (simp_all add: pl_shape_def)
  from sh False have "last as \<in> dom (pl_heap pl)" by (simp add: pl_shape_def)
  then obtain tn where tn: "pl_heap pl (last as) = Some tn" by auto
  let ?h = "(pl_heap pl)(last as \<mapsto> tn\<lparr>pn_next := Some ?a\<rparr>,
     ?a \<mapsto> fresh_node (length as) (Some (last as)))"
  have ch: "chained ?h (as @ [?a])"
    using sh new False tn by (intro chained_append) (auto simp: pl_shape_def)
  have "insert (last as) (dom (pl_heap pl)) = set as"
    using sh False by (auto simp: pl_shape_def)
  moreover have "slot_of (tn\<lparr>pn_next := Some ?a\<rparr>) = Missing"
    using fresh False tn by (auto simp: all_fresh_def slot_of_def split: if_splits)
      (metis last_in_set option.sel slot.distinct)+
  ultimately show ?thesis
    using sh fresh idx ch new head tail tn False
    by (auto simp: init_step_def Let_def pl_shape_def all_fresh_def list_update_append)
qed

lemma init_loop_shape:
  assumes "pl_shape pl as" and "all_fresh (pl_heap pl) as"
    and "pl_index pl = map Some as @ replicate m None"
  shows "\<exists>pl' as'. init_loop [length as..<length as + m] pl = Some pl' \<and> pl_shape pl' as' \<and>
    all_fresh (pl_heap pl') as' \<and> pl_index pl' = map Some as' \<and> length as' = length as + m \<and>
    pl_total_packets pl' = pl_total_packets pl \<and> pl_valid_count pl' = pl_valid_count pl"
  using assms
proof (induction m arbitrary: pl as)
  case 0
  then show ?case by auto
next
  case (Suc m)
  from init_step_shape [OF Suc.prems] obtain pl1 where
    pl1: "init_step (length as) pl = Some pl1" "pl_shape pl1 (as @ [pl_brk pl])"
      "all_fresh (pl_heap pl1) (as @ [pl_brk pl])"
      "pl_index pl1 = map Some (as @ [pl_brk pl]) @ replicate m None"
      "pl_total_packets pl1 = pl_total_packets pl" "pl_valid_count pl1 = pl_valid_count pl"
    by blast
  have "[length as..<length as + Suc m] =
      length as # [length (as @ [pl_brk pl])..<length (as @ [pl_brk pl]) + m]"
    by (simp add: upt_conv_Cons del: upt_Suc)
  with Suc.IH [OF pl1(2-4)] pl1 show ?case by auto
qed

lemma pl_inv_new [simp]: "pl_inv pl_new" "pl_slots pl_new = []"
  by (auto simp: pl_inv_def pl_new_def pl_shape_def chained_def pl_slots_def)

lemma pl_clear_inv:
  assumes "pl_inv pl"
  shows "\<exists>pl'. pl_clear pl = Some pl' \<and> pl_inv pl' \<and> pl_slots pl' = [] \<and> pl_heap pl' = Map.empty"
proof -
  from assms obtain as where "pl_shape pl as" by (auto simp: pl_inv_def)
  from pl_clear_shape [OF this] show ?thesis
    by (auto simp: pl_inv_def pl_shape_def chained_def pl_slots_def)
qed

lemma pl_init_inv:
  assumes "pl_inv pl"
  shows "\<exists>pl'. pl_init n pl = Some pl' \<and> pl_inv pl' \<and>
    pl_slots pl' = replicate (unat n) Missing \<and> pl_total_packets pl' = n"
proof -
  from assms obtain as where "pl_shape pl as" by (auto simp: pl_inv_def)
  from pl_clear_shape [OF this] obtain pl0 where
    pl0: "pl_clear pl = Some pl0" "pl_shape pl0 []"
    by (auto simp: pl_shape_def chained_def)
  let ?pl1 = "pl0\<lparr>pl_total_packets := n, pl_valid_count := 0, pl_index := replicate (unat n) None\<rparr>"
  have "pl_shape ?pl1 []" using pl0(2) by (simp add: pl_shape_def chained_def)
  from init_loop_shape [OF this, of "unat n"] obtain pl' as' where
    pl': "init_loop [0..<unat n] ?pl1 = Some pl'" "pl_shape pl' as'"
      "all_fresh (pl_heap pl') as'" "pl_index pl' = map Some as'" "length as' = unat n"
      "pl_total_packets pl' = n" "pl_valid_count pl' = 0"
    by (auto simp: all_fresh_def)
  have slots: "pl_slots pl' = replicate (unat n) Missing"
    using pl'(3-5) by (simp add: pl_slots_addrs all_fresh_def map_replicate_const
        cong: map_cong)
  have "pl_inv pl'" unfolding pl_inv_def
    using pl' slots by (intro exI [of _ as']) simp
  with pl' slots pl0(1) show ?thesis by (simp add: pl_init_def)
qed

section \<open>Insertion\<close>

lemma length_filter_list_update:
  "i < length xs \<Longrightarrow>
     length (filter P (xs[i := x])) + of_bool (P (xs ! i)) =
     length (filter P xs) + of_bool (P x)"
proof (induction xs arbitrary: i)
  case Nil
  then show ?case by simp
next
  case (Cons y ys)
  then show ?case by (cases i) auto
qed

lemma count_less_length:
  "i < length xs \<Longrightarrow> \<not> P (xs ! i) \<Longrightarrow> length (filter P xs) < length xs"
  by (rule length_filter_less) auto

lemma count_pos: "i < length xs \<Longrightarrow> P (xs ! i) \<Longrightarrow> 0 < length (filter P xs)"
  by (auto simp: length_greater_0_conv filter_empty_conv)

lemma chained_update_payload:
  assumes "chained h as" and "h a = Some node"
  shows "chained (h(a \<mapsto> node\<lparr>pn_received := True, pn_valid := v, pn_data := d\<rparr>)) as"
  unfolding chained_def
proof (intro allI impI)
  fix k assume "k < length as"
  from chainedD [OF assms(1) this] assms(2)
  show "\<exists>n. (h(a \<mapsto> node\<lparr>pn_received := True, pn_valid := v, pn_data := d\<rparr>)) (as ! k) = Some n \<and>
      pn_packet_index n = of_nat k \<and> pn_prev n = prev_of as k \<and> pn_next n = next_of as k \<and>
      (\<not> pn_received n \<longrightarrow> pn_data n = [])"
    by (cases "as ! k = a") auto
qed

lemma unat32_incr:
  assumes "unat (c :: u32) < unat (t :: u32)"
  shows "unat (c + 1) = Suc (unat c)"
proof -
  have "Suc (unat c) < 4294967296" using assms unat32_less [of t] by linarith
  then show ?thesis by (simp add: unat_word_ariths)
qed

lemma unat32_decr: "0 < unat (c :: u32) \<Longrightarrow> unat (c - 1) = unat c - 1"
  by (simp add: unat_sub word_le_nat_alt)

lemma pl_insert_out:
  assumes "pl_inv pl" and "length (pl_slots pl) \<le> unat i"
  shows "pl_insert i d v pl = Some (False, pl)"
  using assms by (auto simp: pl_inv_def pl_insert_def word_le_nat_alt)

lemma pl_insert_in:
  assumes inv: "pl_inv pl" and i: "unat i < length (pl_slots pl)"
  shows "\<exists>pl'. pl_insert i d v pl = Some (True, pl') \<and> pl_inv pl' \<and>
    pl_slots pl' = (pl_slots pl)[unat i := (if v then Good d else Corrupt d)] \<and>
    pl_total_packets pl' = pl_total_packets pl"
proof -
  from inv obtain as where sh: "pl_shape pl as" and idx: "pl_index pl = map Some as"
    and len: "length as = unat (pl_total_packets pl)"
    and cnt: "unat (pl_valid_count pl) = length (filter is_good (pl_slots pl))"
    by (auto simp: pl_inv_def)
  let ?k = "unat i" let ?a = "as ! ?k"
  have k: "?k < length as" using i idx by simp
  have ch: "chained (pl_heap pl) as" using sh by (simp add: pl_shape_def)
  from chainedD [OF ch k] obtain node where node: "pl_heap pl ?a = Some node" by auto
  define x where "x = (if v then Good d else Corrupt d)"
  define node' where "node' = node\<lparr>pn_received := True, pn_valid := v, pn_data := d\<rparr>"
  define c' where "c' = (if v \<and> \<not> (pn_received node \<and> pn_valid node) then pl_valid_count pl + 1
     else if \<not> v \<and> pn_received node \<and> pn_valid node then pl_valid_count pl - 1
     else pl_valid_count pl)"
  define pl' where "pl' = pl\<lparr>pl_heap := (pl_heap pl)(?a \<mapsto> node'), pl_valid_count := c'\<rparr>"
  have run: "pl_insert i d v pl = Some (True, pl')"
    using k len idx node
    by (simp add: pl_insert_def word_le_nat_alt Let_def pl'_def node'_def c'_def)
  have idx': "pl_index pl' = map Some as" and heap': "pl_heap pl' = (pl_heap pl)(?a \<mapsto> node')"
    by (simp_all add: pl'_def idx)
  have old: "pl_slots pl ! ?k = slot_of node"
    using k node by (simp add: pl_slots_addrs [OF idx])
  have slots: "pl_slots pl' = (pl_slots pl)[?k := x]"
  proof (rule nth_equalityI)
    show "length (pl_slots pl') = length ((pl_slots pl)[?k := x])"
      by (simp add: idx idx')
    fix j assume "j < length (pl_slots pl')"
    then have j: "j < length as" by (simp add: idx')
    then have "as ! j = ?a \<longleftrightarrow> j = ?k"
      using k sh by (simp add: pl_shape_def nth_eq_iff_index_eq)
    moreover have "slot_of node' = x" by (simp add: node'_def x_def slot_of_def)
    ultimately show "pl_slots pl' ! j = (pl_slots pl)[?k := x] ! j"
      using j k by (simp add: pl_slots_addrs [OF idx'] pl_slots_addrs [OF idx] heap'
        nth_list_update)
  qed
  have good: "is_good (pl_slots pl ! ?k) \<longleftrightarrow> pn_received node \<and> pn_valid node"
    by (simp add: old slot_of_def)
  have cnt': "unat c' = length (filter is_good (pl_slots pl'))"
  proof -
    have eq: "length (filter is_good ((pl_slots pl)[?k := x])) + of_bool (is_good (pl_slots pl ! ?k)) =
        unat (pl_valid_count pl) + of_bool v"
      unfolding cnt using length_filter_list_update [OF i, of is_good x] by (simp add: x_def)
    consider (up) "v" "\<not> is_good (pl_slots pl ! ?k)" | (down) "\<not> v" "is_good (pl_slots pl ! ?k)"
      | (same) "v = is_good (pl_slots pl ! ?k)" by blast
    then show ?thesis
    proof cases
      case up
      then have "unat (pl_valid_count pl) < unat (pl_total_packets pl)"
        using count_less_length [OF i, of is_good] cnt len idx by simp
      from unat32_incr [OF this] up eq good show ?thesis by (auto simp: slots c'_def)
    next
      case down
      then have "0 < unat (pl_valid_count pl)"
        using count_pos [OF i, of is_good] cnt by simp
      from unat32_decr [OF this] down eq good show ?thesis by (auto simp: slots c'_def)
    next
      case same
      with eq good show ?thesis by (auto simp: slots c'_def)
    qed
  qed
  have "pl_shape pl' as"
    using sh node chained_update_payload [OF ch node] by (auto simp: pl_shape_def pl'_def node'_def)
  with cnt' len idx have "pl_inv pl'"
    unfolding pl_inv_def by (intro exI [of _ as]) (simp add: pl'_def)
  with run slots show ?thesis by (simp add: x_def pl'_def)
qed

section \<open>Queries\<close>

lemma pl_is_complete_iff:
  assumes "pl_inv pl"
  shows "pl_is_complete pl \<longleftrightarrow> pl_slots pl \<noteq> [] \<and> (\<forall>s \<in> set (pl_slots pl). is_good s)"
proof -
  from assms obtain as where len: "length (pl_slots pl) = unat (pl_total_packets pl)"
    and cnt: "unat (pl_valid_count pl) = length (filter is_good (pl_slots pl))"
    by (auto simp: pl_inv_def)
  have "pl_valid_count pl = pl_total_packets pl \<longleftrightarrow>
      length (filter is_good (pl_slots pl)) = length (pl_slots pl)"
    using len cnt by (simp add: word_unat_eq_iff)
  also have "\<dots> \<longleftrightarrow> (\<forall>s \<in> set (pl_slots pl). is_good s)"
    by (metis filter_id_conv length_filter_less less_irrefl)
  finally have "pl_valid_count pl = pl_total_packets pl \<longleftrightarrow> (\<forall>s \<in> set (pl_slots pl). is_good s)" .
  moreover have "0 < pl_total_packets pl \<longleftrightarrow> pl_slots pl \<noteq> []"
    using len by (simp only: word_less_nat_alt length_greater_0_conv [symmetric]) simp
  ultimately show ?thesis by (auto simp: pl_is_complete_def)
qed

lemma node_at_inv:
  assumes "pl_inv pl" and "i < length (pl_slots pl)"
  shows "\<exists>node. node_at pl i = Some node \<and> slot_of node = pl_slots pl ! i"
proof -
  from assms obtain as where sh: "pl_shape pl as" and idx: "pl_index pl = map Some as"
    by (auto simp: pl_inv_def)
  then have ch: "chained (pl_heap pl) as" by (simp add: pl_shape_def)
  have i: "i < length as" using assms(2) idx by simp
  from chainedD [OF ch this] idx i show ?thesis
    by (auto simp: node_at_def pl_slots_addrs [OF idx])
qed

lemma needs_retransmit_slot: "needs_retransmit node \<longleftrightarrow> \<not> is_good (slot_of node)"
  by (simp add: needs_retransmit_def slot_of_def)

lemma pl_nak_ranges_inv:
  assumes "pl_inv pl"
  shows "\<exists>rs. pl_compute_nak_ranges pl = Some rs \<and>
    concat (map expand rs) = filter (\<lambda>i. \<not> is_good (pl_slots pl ! i)) [0..<length (pl_slots pl)] \<and>
    separated rs"
proof -
  from assms have len: "length (pl_slots pl) = unat (pl_total_packets pl)"
    by (auto simp: pl_inv_def)
  define want where "want = (\<lambda>i. needs_retransmit (the (node_at pl i)))"
  have at: "\<exists>node. node_at pl i = Some node \<and> slot_of node = pl_slots pl ! i"
    if "i < unat (pl_total_packets pl)" for i
    using node_at_inv [OF assms, of i] that len by simp
  then have "pl_compute_nak_ranges pl = Some (range_collect want (pl_total_packets pl))"
    by (fastforce simp: pl_compute_nak_ranges_def want_def)
  moreover have "filter want [0..<unat (pl_total_packets pl)] =
      filter (\<lambda>i. \<not> is_good (pl_slots pl ! i)) [0..<length (pl_slots pl)]"
    unfolding len by (rule filter_cong [OF refl])
      (use at in \<open>fastforce simp: want_def needs_retransmit_slot\<close>)
  ultimately show ?thesis
    using range_collect_spec [of want "pl_total_packets pl"] by simp
qed

lemma pl_assemble_inv:
  "pl_inv pl \<Longrightarrow> pl_assemble pl = Some (concat (map slot_data (pl_slots pl)))"
  by (auto simp: pl_inv_def pl_assemble_shape pl_slots_addrs comp_def)

section \<open>The interface the receiver relies on\<close>

text \<open>A list of packets (index, payload, CRC passed) inserted one after the other.\<close>

fun insert_list :: "(u32 \<Rightarrow> bytes \<Rightarrow> bool \<Rightarrow> 'p \<Rightarrow> (bool \<times> 'p) option) \<Rightarrow>
    (u32 \<times> bytes \<times> bool) list \<Rightarrow> 'p \<Rightarrow> 'p option" where
  "insert_list put [] p = Some p"
| "insert_list put ((i, d, v) # xs) p =
     (case put i d v p of None \<Rightarrow> None | Some (_, q) \<Rightarrow> insert_list put xs q)"

locale packet_store =
  fixes inv :: "'p \<Rightarrow> bool" and slots :: "'p \<Rightarrow> slot list"
    and clear :: "'p \<Rightarrow> 'p option" and init :: "u32 \<Rightarrow> 'p \<Rightarrow> 'p option"
    and put :: "u32 \<Rightarrow> bytes \<Rightarrow> bool \<Rightarrow> 'p \<Rightarrow> (bool \<times> 'p) option"
    and is_complete :: "'p \<Rightarrow> bool" and nak_ranges :: "'p \<Rightarrow> (u32 \<times> u32) list option"
    and assemble :: "'p \<Rightarrow> bytes option"
  assumes clear_ok: "inv p \<Longrightarrow> \<exists>q. clear p = Some q \<and> inv q \<and> slots q = []"
    and init_ok: "inv p \<Longrightarrow> \<exists>q. init n p = Some q \<and> inv q \<and> slots q = replicate (unat n) Missing"
    and put_in: "inv p \<Longrightarrow> unat i < length (slots p) \<Longrightarrow>
      \<exists>q. put i d v p = Some (True, q) \<and> inv q \<and>
        slots q = (slots p)[unat i := (if v then Good d else Corrupt d)]"
    and put_out: "inv p \<Longrightarrow> length (slots p) \<le> unat i \<Longrightarrow> put i d v p = Some (False, p)"
    and complete_iff: "inv p \<Longrightarrow>
      is_complete p \<longleftrightarrow> slots p \<noteq> [] \<and> (\<forall>s \<in> set (slots p). is_good s)"
    and nak_ok: "inv p \<Longrightarrow> \<exists>rs. nak_ranges p = Some rs \<and>
      concat (map expand rs) = filter (\<lambda>i. \<not> is_good (slots p ! i)) [0..<length (slots p)] \<and>
      separated rs"
    and assemble_ok: "inv p \<Longrightarrow> assemble p = Some (concat (map slot_data (slots p)))"
begin

lemma put_total:
  assumes "inv p"
  shows "\<exists>b q. put i d v p = Some (b, q) \<and> inv q \<and>
    slots q = (slots p)[unat i := (if v then Good d else Corrupt d)]"
proof (cases "unat i < length (slots p)")
  case True
  from put_in [OF assms True] show ?thesis by blast
next
  case False
  with put_out [OF assms, of i] assms show ?thesis by (auto simp: list_update_beyond)
qed

lemma nak_nonempty:
  assumes "inv p" and "slots p \<noteq> []" and "\<not> is_complete p"
  shows "\<exists>rs. nak_ranges p = Some rs \<and> rs \<noteq> []"
proof -
  from nak_ok [OF assms(1)] obtain rs where
    rs: "nak_ranges p = Some rs"
      "concat (map expand rs) = filter (\<lambda>i. \<not> is_good (slots p ! i)) [0..<length (slots p)]"
    by blast
  from assms complete_iff obtain s where "s \<in> set (slots p)" "\<not> is_good s" by auto
  then have "filter (\<lambda>i. \<not> is_good (slots p ! i)) [0..<length (slots p)] \<noteq> []"
    by (auto simp: filter_empty_conv in_set_conv_nth)
  with rs have "rs \<noteq> []" by auto
  with rs show ?thesis by blast
qed

text \<open>
  Inserting packets that all carry the payload the source has at their index fills exactly
  these slots, in whatever order and however often they arrive.
\<close>

lemma insert_list_genuine:
  assumes "inv p" and "\<forall>(i, d, v) \<in> set xs. unat i < length (slots p) \<and> v \<and> d = src (unat i)"
  shows "\<exists>q. insert_list put xs p = Some q \<and> inv q \<and>
    slots q = map (\<lambda>k. if k \<in> unat ` fst ` set xs then Good (src k) else slots p ! k)
      [0..<length (slots p)]"
  using assms
proof (induction xs arbitrary: p)
  case Nil
  then show ?case by (simp add: map_nth)
next
  case (Cons x xs)
  obtain i d v where x: "x = (i, d, v)" by (cases x)
  from Cons.prems x have i: "unat i < length (slots p)" and v: "v" and d: "d = src (unat i)" by auto
  from put_in [OF Cons.prems(1) i, of d v] obtain q where
    q: "put i d v p = Some (True, q)" "inv q" "slots q = (slots p)[unat i := Good d]"
    using v by auto
  from Cons.prems(2) q have "\<forall>(i, d, v) \<in> set xs. unat i < length (slots q) \<and> v \<and> d = src (unat i)"
    by auto
  from Cons.IH [OF q(2) this] obtain q' where
    q': "insert_list put xs q = Some q'" "inv q'"
      "slots q' = map (\<lambda>k. if k \<in> unat ` fst ` set xs then Good (src k) else slots q ! k)
        [0..<length (slots q)]"
    by blast
  have "slots q' = map (\<lambda>k. if k \<in> unat ` fst ` set (x # xs) then Good (src k) else slots p ! k)
      [0..<length (slots p)]"
    unfolding q' q(3) using i d x by (auto simp: nth_list_update)
  with q q' x show ?case by auto
qed

text \<open>Retransmitting at least what the NAK ranges name completes the chunk.\<close>

lemma retransmission_completes:
  assumes inv: "inv p" and ne: "slots p \<noteq> []" and rs: "nak_ranges p = Some rs"
    and have_src: "\<forall>k < length (slots p). is_good (slots p ! k) \<longrightarrow> slots p ! k = Good (src k)"
    and gen: "\<forall>(i, d, v) \<in> set xs. unat i < length (slots p) \<and> v \<and> d = src (unat i)"
    and cover: "set (concat (map expand rs)) \<subseteq> unat ` fst ` set xs"
  shows "\<exists>q. insert_list put xs p = Some q \<and> is_complete q \<and>
    assemble q = Some (concat (map src [0..<length (slots p)]))"
proof -
  from insert_list_genuine [OF inv gen] obtain q where
    q: "insert_list put xs p = Some q" "inv q"
      "slots q = map (\<lambda>k. if k \<in> unat ` fst ` set xs then Good (src k) else slots p ! k)
        [0..<length (slots p)]"
    by blast
  from nak_ok [OF inv] rs
  have "set (concat (map expand rs)) = {k. k < length (slots p) \<and> \<not> is_good (slots p ! k)}"
    by auto
  with cover have "k \<in> unat ` fst ` set xs" if "k < length (slots p)" "\<not> is_good (slots p ! k)" for k
    using that by blast
  with have_src have all: "slots q = map (\<lambda>k. Good (src k)) [0..<length (slots p)]"
    unfolding q(3) by auto
  then have "is_complete q" using complete_iff [OF q(2)] ne by auto
  moreover have "assemble q = Some (concat (map src [0..<length (slots p)]))"
    using assemble_ok [OF q(2)] by (simp add: all comp_def)
  ultimately show ?thesis using q(1) by blast
qed

end

interpretation pls: packet_store pl_inv pl_slots pl_clear pl_init pl_insert pl_is_complete
    pl_compute_nak_ranges pl_assemble
proof
  fix p assume inv: "pl_inv p"
  show "\<exists>q. pl_clear p = Some q \<and> pl_inv q \<and> pl_slots q = []"
    using pl_clear_inv [OF inv] by blast
  show "\<exists>q. pl_init n p = Some q \<and> pl_inv q \<and> pl_slots q = replicate (unat n) Missing" for n
    using pl_init_inv [OF inv] by blast
  show "pl_is_complete p \<longleftrightarrow> pl_slots p \<noteq> [] \<and> (\<forall>s \<in> set (pl_slots p). is_good s)"
    by (rule pl_is_complete_iff [OF inv])
  show "\<exists>rs. pl_compute_nak_ranges p = Some rs \<and>
      concat (map expand rs) = filter (\<lambda>i. \<not> is_good (pl_slots p ! i)) [0..<length (pl_slots p)] \<and>
      separated rs"
    by (rule pl_nak_ranges_inv [OF inv])
  show "pl_assemble p = Some (concat (map slot_data (pl_slots p)))"
    by (rule pl_assemble_inv [OF inv])
  show "pl_insert i d v p = Some (False, p)" if "length (pl_slots p) \<le> unat i" for i d v
    by (rule pl_insert_out [OF inv that])
  show "\<exists>q. pl_insert i d v p = Some (True, q) \<and> pl_inv q \<and>
      pl_slots q = (pl_slots p)[unat i := (if v then Good d else Corrupt d)]"
    if "unat i < length (pl_slots p)" for i d v
    using pl_insert_in [OF inv that] by blast
qed

section \<open>Properties\<close>

lemma replicate_unat_3: "replicate (unat (3 :: u32)) x = [x, x, x]"
proof -
  have "unat (3 :: u32) = Suc (Suc (Suc 0))" by simp
  then show ?thesis by (simp only: replicate.simps)
qed

lemma pl_demo:
  "\<exists>pl. pl_init 3 pl_new = Some pl \<and> pl_inv pl \<and> pl_slots pl = [Missing, Missing, Missing]"
  using pl_init_inv [OF pl_inv_new(1), of 3] unfolding replicate_unat_3 by blast

text \<open>C21: \<open>insert\<close> never touches memory it does not own, reports whether the index exists, and
  changes that one slot: the latest payload wins, also over a good one.\<close>

theorem insert_updates_one_slot:
  assumes "pl_inv pl"
  shows "\<exists>pl'. pl_insert i d v pl = Some (unat i < length (pl_slots pl), pl') \<and> pl_inv pl' \<and>
    pl_slots pl' = (pl_slots pl)[unat i := (if v then Good d else Corrupt d)]"
proof (cases "unat i < length (pl_slots pl)")
  case True
  with pl_insert_in [OF assms True, of d v] show ?thesis by auto
next
  case False
  with pl_insert_out [OF assms, of i d v] assms show ?thesis by (simp add: list_update_beyond)
qed

theorem insert_updates_one_slot_witness:
  "\<exists>pl pl'. pl_init 3 pl_new = Some pl \<and> pl_insert 1 [9] True pl = Some (True, pl') \<and>
     pl_slots pl' = [Missing, Good [9], Missing]"
proof -
  obtain pl where pl: "pl_init 3 pl_new = Some pl" "pl_inv pl" "pl_slots pl = [Missing, Missing, Missing]"
    using pl_demo by blast
  have "1 < length (pl_slots pl)" unfolding pl(3) by simp
  with insert_updates_one_slot [OF pl(2), of 1 "[9]" True] pl show ?thesis by auto
qed

text \<open>C22: The NAK ranges are exactly the slots that are missing or corrupt, ascending, and as few
  ranges as possible (no two of them touch).\<close>

theorem nak_ranges_are_what_is_missing:
  assumes "pl_inv pl"
  shows "\<exists>rs. pl_compute_nak_ranges pl = Some rs \<and> separated rs \<and>
    concat (map expand rs) = filter (\<lambda>i. \<not> is_good (pl_slots pl ! i)) [0..<length (pl_slots pl)]"
  using pl_nak_ranges_inv [OF assms] by blast

theorem nak_ranges_are_what_is_missing_witness:
  "\<exists>pl pl' rs. pl_init 3 pl_new = Some pl \<and> pl_insert 1 [9] True pl = Some (True, pl') \<and>
     pl_compute_nak_ranges pl' = Some rs \<and> concat (map expand rs) = [0, 2]"
proof -
  obtain pl where pl: "pl_init 3 pl_new = Some pl" "pl_inv pl" "pl_slots pl = [Missing, Missing, Missing]"
    using pl_demo by blast
  have one: "unat (1 :: u32) < length (pl_slots pl)" unfolding pl(3) by simp
  from pl_insert_in [OF pl(2) one, of "[9]" True] obtain pl' where
    pl': "pl_insert 1 [9] True pl = Some (True, pl')" "pl_inv pl'"
      "pl_slots pl' = [Missing, Good [9], Missing]"
    unfolding pl(3) by auto
  obtain rs where rs: "pl_compute_nak_ranges pl' = Some rs"
    "concat (map expand rs) = filter (\<lambda>i. \<not> is_good (pl_slots pl' ! i)) [0..<length (pl_slots pl')]"
    using nak_ranges_are_what_is_missing [OF pl'(2)] by blast
  have "filter (\<lambda>i. \<not> is_good (pl_slots pl' ! i)) [0..<length (pl_slots pl')] = [0, 2]"
    unfolding pl'(3) by (simp add: upt_rec)
  with rs pl(1) pl'(1) show ?thesis by auto
qed

text \<open>C23: \<open>clear\<close> terminates and frees every node: nothing is left on the heap, and no pointer
  to a freed node survives.\<close>

theorem clear_frees_every_node:
  assumes "pl_inv pl"
  shows "\<exists>pl'. pl_clear pl = Some pl' \<and> pl_heap pl' = Map.empty \<and> pl_inv pl' \<and> pl_slots pl' = [] \<and>
    pl_delete pl = Some Map.empty"
  using pl_clear_inv [OF assms] by (auto simp: pl_delete_def)

theorem clear_frees_every_node_witness:
  "\<exists>pl pl'. pl_init 3 pl_new = Some pl \<and> pl_clear pl = Some pl' \<and> pl_heap pl' = Map.empty"
proof -
  obtain pl where pl: "pl_init 3 pl_new = Some pl" "pl_inv pl" using pl_demo by blast
  from clear_frees_every_node [OF pl(2)] pl show ?thesis by blast
qed

text \<open>C24: Retransmitting at least the packets that the NAK ranges name completes the chunk, and
  what is assembled is the chunk of the source, in whatever order and however often the
  packets come.\<close>

theorem retransmission_completes_chunk:
  assumes "pl_inv pl" and "pl_slots pl \<noteq> []" and "pl_compute_nak_ranges pl = Some rs"
    and "\<forall>k < length (pl_slots pl). is_good (pl_slots pl ! k) \<longrightarrow> pl_slots pl ! k = Good (src k)"
    and "\<forall>(i, d, v) \<in> set xs. unat i < length (pl_slots pl) \<and> v \<and> d = src (unat i)"
    and "set (concat (map expand rs)) \<subseteq> unat ` fst ` set xs"
  shows "\<exists>pl'. insert_list pl_insert xs pl = Some pl' \<and> pl_is_complete pl' \<and>
    pl_assemble pl' = Some (concat (map src [0..<length (pl_slots pl)]))"
  by (rule pls.retransmission_completes [OF assms])

theorem retransmission_completes_chunk_witness:
  "\<exists>pl pl'. pl_init 3 pl_new = Some pl \<and>
     insert_list pl_insert [(2, [2], True), (0, [0], True), (1, [1], True), (0, [0], True)] pl = Some pl' \<and>
     pl_is_complete pl' \<and> pl_assemble pl' = Some [0, 1, 2]"
proof -
  obtain pl where pl: "pl_init 3 pl_new = Some pl" "pl_inv pl" "pl_slots pl = [Missing, Missing, Missing]"
    using pl_demo by blast
  obtain rs where rs: "pl_compute_nak_ranges pl = Some rs"
    "concat (map expand rs) = filter (\<lambda>i. \<not> is_good (pl_slots pl ! i)) [0..<length (pl_slots pl)]"
    using pl_nak_ranges_inv [OF pl(2)] by blast
  let ?xs = "[(2, [2], True), (0, [0], True), (1, [1], True), (0, [0], True)] :: (u32 \<times> bytes \<times> bool) list"
  have len: "length (pl_slots pl) = 3" unfolding pl(3) by simp
  have good: "\<not> is_good (pl_slots pl ! k)" if "k < 3" for k
    using that unfolding pl(3) by (auto simp: numeral_3_eq_3 less_Suc_eq)
  have cover: "set (concat (map expand rs)) \<subseteq> unat ` fst ` set ?xs"
    unfolding rs(2) len by (auto simp: numeral_3_eq_3 less_Suc_eq)
  have "\<exists>pl'. insert_list pl_insert ?xs pl = Some pl' \<and> pl_is_complete pl' \<and>
      pl_assemble pl' = Some (concat (map (\<lambda>k. [of_nat k]) [0..<length (pl_slots pl)]))"
    by (rule retransmission_completes_chunk [OF pl(2) _ rs(1) _ _ cover])
      (use len good pl(3) in \<open>simp_all\<close>)
  moreover have "concat (map (\<lambda>k. [of_nat k :: u8]) [0..<length (pl_slots pl)]) = [0, 1, 2]"
    unfolding len by (simp add: upt_rec numeral_eq_Suc)
  ultimately show ?thesis using pl(1) by auto
qed

end
