(* ===== verification/Cfdp_Disk.thy ===== *)
theory Cfdp_Disk
  imports Cfdp_Prelude
begin

text \<open>
  The operating system and standard library calls the receiver makes, as far as its source
  uses them: files by path with their contents, and the transport's \<open>send\<close>. Every effect
  is also appended to a log, so that the order of effects can be stated and a crash can be
  placed between (or inside) any two of them. A call may be refused; which ones are is part
  of the world and not known to the program.
\<close>

section \<open>Files\<close>

type_synonym path = bytes
type_synonym files = "path \<rightharpoonup> bytes"

text \<open>Writing at an offset: a gap before it is filled with zero bytes.\<close>

definition write_at :: "nat \<Rightarrow> bytes \<Rightarrow> bytes \<Rightarrow> bytes" where
  "write_at off bs content =
     (if bs = [] then content
      else take off (content @ replicate (off - length content) 0) @ bs @
        drop (off + length bs) content)"

datatype fs_op =
    Creat path               \<comment> \<open>open for writing with truncation\<close>
  | Pwrite path nat bytes    \<comment> \<open>seek and write\<close>
  | Ren path path            \<comment> \<open>\<open>rename(old, new)\<close>\<close>
  | Unlink path
  | Datasync path

fun apply_op :: "fs_op \<Rightarrow> files \<Rightarrow> files" where
  "apply_op (Creat p) d = d(p \<mapsto> [])"
| "apply_op (Pwrite p off bs) d =
     (case d p of None \<Rightarrow> d | Some c \<Rightarrow> d(p \<mapsto> write_at off bs c))"
| "apply_op (Ren p q) d =
     (case d p of None \<Rightarrow> d | Some c \<Rightarrow> if p = q then d else (d(q \<mapsto> c))(p := None))"
| "apply_op (Unlink p) d = d(p := None)"
| "apply_op (Datasync p) d = d"

section \<open>The world\<close>

record Faults =
  f_open :: "path \<Rightarrow> bool"         \<comment> \<open>opening (or creating) the file is refused\<close>
  f_write :: "path \<Rightarrow> nat option"  \<comment> \<open>writes fail after that many bytes\<close>
  f_dir :: "path \<Rightarrow> bool"          \<comment> \<open>removing or replacing the entry is refused\<close>

definition no_faults :: Faults where
  "no_faults = \<lparr>f_open = (\<lambda>_. False), f_write = (\<lambda>_. None), f_dir = (\<lambda>_. False)\<rparr>"

datatype event = Fs fs_op | Sent bytes

record World =
  w_files :: files
  w_faults :: Faults
  w_log :: "event list"

definition do_op :: "fs_op \<Rightarrow> World \<Rightarrow> World" where
  "do_op op w = w\<lparr>w_files := apply_op op (w_files w), w_log := w_log w @ [Fs op]\<rparr>"

definition transmit :: "bytes \<Rightarrow> World \<Rightarrow> World" where
  "transmit pdu w = w\<lparr>w_log := w_log w @ [Sent pdu]\<rparr>"

text \<open>A write that may be cut short by a full disk; the flag says whether it succeeded.\<close>

definition fs_write :: "path \<Rightarrow> nat \<Rightarrow> bytes \<Rightarrow> World \<Rightarrow> bool \<times> World" where
  "fs_write p off bs w =
     (case f_write (w_faults w) p of
        None \<Rightarrow> (True, do_op (Pwrite p off bs) w)
      | Some k \<Rightarrow> if length bs \<le> k then (True, do_op (Pwrite p off bs) w)
          else (False, do_op (Pwrite p off (take k bs)) w))"

lemma do_op_simps [simp]:
  "w_files (do_op op w) = apply_op op (w_files w)"
  "w_faults (do_op op w) = w_faults w"
  "w_log (do_op op w) = w_log w @ [Fs op]"
  by (simp_all add: do_op_def)

lemma transmit_simps [simp]:
  "w_files (transmit pdu w) = w_files w"
  "w_faults (transmit pdu w) = w_faults w"
  "w_log (transmit pdu w) = w_log w @ [Sent pdu]"
  by (simp_all add: transmit_def)

lemma fs_write_no_faults [simp]:
  "w_faults w = no_faults \<Longrightarrow> fs_write p off bs w = (True, do_op (Pwrite p off bs) w)"
  by (simp add: fs_write_def no_faults_def)

lemma no_faults_simps [simp]:
  "\<not> f_open no_faults p" "f_write no_faults p = None" "\<not> f_dir no_faults p"
  by (simp_all add: no_faults_def)

section \<open>Contents after a write\<close>

lemma length_write_at:
  "bs \<noteq> [] \<Longrightarrow> length (write_at off bs c) = max (length c) (off + length bs)"
  by (simp add: write_at_def)

lemma write_at_nth_inside:
  "off \<le> k \<Longrightarrow> k < off + length bs \<Longrightarrow> write_at off bs c ! k = bs ! (k - off)"
  by (auto simp: write_at_def nth_append min_def)

lemma write_at_nth_outside:
  "k < length c \<Longrightarrow> k < off \<or> off + length bs \<le> k \<Longrightarrow> write_at off bs c ! k = c ! k"
  by (auto simp: write_at_def nth_append)

text \<open>The bytes a file holds in a range, when the range lies within the file.\<close>

definition slice :: "nat \<Rightarrow> nat \<Rightarrow> bytes \<Rightarrow> bytes" where
  "slice off len c = take len (drop off c)"

lemma length_slice: "off + len \<le> length c \<Longrightarrow> length (slice off len c) = len"
  by (simp add: slice_def)

lemma slice_eq_iff:
  assumes "off + length bs \<le> length c"
  shows "slice off (length bs) c = bs \<longleftrightarrow> (\<forall>k < length bs. c ! (off + k) = bs ! k)"
  using assms by (auto simp: slice_def list_eq_iff_nth_eq)

lemma slice_write_at_same:
  "slice off (length bs) (write_at off bs c) = bs"
proof (cases "bs = []")
  case False
  then have "off + length bs \<le> length (write_at off bs c)" by (simp add: length_write_at)
  then show ?thesis by (simp add: slice_eq_iff write_at_nth_inside)
qed (simp add: slice_def)

lemma slice_write_at_other:
  assumes "off + len \<le> length c" and "off + len \<le> off' \<or> off' + length bs \<le> off"
  shows "slice off len (write_at off' bs c) = slice off len c"
proof (cases "bs = []")
  case False
  then have "off + len \<le> length (write_at off' bs c)"
    using assms by (simp add: length_write_at)
  then show ?thesis
    using assms by (auto simp: slice_def list_eq_iff_nth_eq write_at_nth_outside)
qed (simp add: write_at_def)

section \<open>Replaying a log, and crashes\<close>

fun apply_event :: "event \<Rightarrow> files \<Rightarrow> files" where
  "apply_event (Fs op) d = apply_op op d"
| "apply_event (Sent pdu) d = d"

definition replay :: "event list \<Rightarrow> files \<Rightarrow> files" where
  "replay es d = fold apply_event es d"

lemma replay_Nil [simp]: "replay [] d = d"
  by (simp add: replay_def)

lemma replay_append [simp]: "replay (xs @ ys) d = replay ys (replay xs d)"
  by (simp add: replay_def)

lemma replay_Cons [simp]: "replay (e # es) d = replay es (apply_event e d)"
  by (simp add: replay_def)

text \<open>
  The effects that have reached the disk when the process dies: a prefix of the log, where
  the last write may have been carried out in part.
\<close>

inductive crash_prefix :: "event list \<Rightarrow> event list \<Rightarrow> bool" where
  here: "crash_prefix es []"
| torn: "crash_prefix (Fs (Pwrite p off bs) # es) [Fs (Pwrite p off (take m bs))]"
| later: "crash_prefix es es' \<Longrightarrow> crash_prefix (e # es) (e # es')"

inductive_cases crash_prefix_NilE: "crash_prefix [] es'"
inductive_cases crash_prefix_ConsE: "crash_prefix (e # es) es'"

lemma crash_prefix_refl: "crash_prefix es es"
  by (induction es) (auto intro: crash_prefix.intros)

lemma crash_prefix_append:
  "crash_prefix (xs @ ys) zs \<Longrightarrow>
     crash_prefix xs zs \<or> (\<exists>zs'. zs = xs @ zs' \<and> crash_prefix ys zs')"
proof (induction xs arbitrary: zs)
  case Nil
  then show ?case by simp
next
  case (Cons x xs)
  from Cons.prems have "crash_prefix (x # (xs @ ys)) zs" by simp
  then show ?case
    by (rule crash_prefix_ConsE)
      (use Cons.IH in \<open>auto intro: crash_prefix.intros\<close>)
qed

text \<open>
  A predicate on the disk survives a log when it holds after every crash during it.
\<close>

definition survives :: "(files \<Rightarrow> bool) \<Rightarrow> files \<Rightarrow> event list \<Rightarrow> bool" where
  "survives P d es \<longleftrightarrow> (\<forall>es'. crash_prefix es es' \<longrightarrow> P (replay es' d))"

lemma survivesD: "survives P d es \<Longrightarrow> P (replay es d)"
  by (simp add: survives_def crash_prefix_refl)

lemma survives_start: "survives P d es \<Longrightarrow> P d"
  unfolding survives_def by (metis crash_prefix.here replay_Nil)

lemma survives_Nil [simp]: "survives P d [] \<longleftrightarrow> P d"
  by (auto simp: survives_def elim: crash_prefix_NilE intro: crash_prefix.here)

lemma survives_append:
  "survives P d xs \<Longrightarrow> survives P (replay xs d) ys \<Longrightarrow> survives P d (xs @ ys)"
  unfolding survives_def using crash_prefix_append by (metis replay_append)

lemma survives_Sent [simp]: "survives P d [Sent pdu] \<longleftrightarrow> P d"
  by (auto simp: survives_def elim!: crash_prefix_ConsE crash_prefix_NilE
      intro: crash_prefix.here)

lemma survives_Pwrite:
  "survives P d [Fs (Pwrite p off bs)] \<longleftrightarrow>
     P d \<and> P (apply_op (Pwrite p off bs) d) \<and> (\<forall>m. P (apply_op (Pwrite p off (take m bs)) d))"
  (is "?L \<longleftrightarrow> ?R")
proof
  assume l: ?L
  then have "P (replay [Fs (Pwrite p off (take m bs))] d)" for m
    unfolding survives_def using crash_prefix.torn by blast
  with survivesD [OF l] survives_start [OF l] show ?R by simp
next
  assume ?R
  then show ?L
    by (auto simp: survives_def simp del: apply_op.simps
        elim!: crash_prefix_ConsE crash_prefix_NilE)
qed

lemma survives_op:
  "\<forall>p off bs. op \<noteq> Pwrite p off bs \<Longrightarrow> survives P d [Fs op] \<longleftrightarrow> P d \<and> P (apply_op op d)"
proof
  assume l: "survives P d [Fs op]"
  with survivesD [OF l] survives_start [OF l] show "P d \<and> P (apply_op op d)" by simp
next
  assume "\<forall>p off bs. op \<noteq> Pwrite p off bs" and "P d \<and> P (apply_op op d)"
  then show "survives P d [Fs op]"
    by (auto simp: survives_def simp del: apply_op.simps
        elim!: crash_prefix_ConsE crash_prefix_NilE)
qed

text \<open>
  \<open>ran w es w'\<close>: the program took the world from \<open>w\<close> to \<open>w'\<close> with the effects \<open>es\<close>.
\<close>

definition ran :: "World \<Rightarrow> event list \<Rightarrow> World \<Rightarrow> bool" where
  "ran w es w' \<longleftrightarrow>
     w_log w' = w_log w @ es \<and> w_files w' = replay es (w_files w) \<and> w_faults w' = w_faults w"

lemma ran_refl [simp]: "ran w [] w"
  by (simp add: ran_def)

lemma ran_trans: "ran w es w' \<Longrightarrow> ran w' es' w'' \<Longrightarrow> ran w (es @ es') w''"
  by (simp add: ran_def)

lemma ran_do_op [simp]: "ran w [Fs op] (do_op op w)"
  by (simp add: ran_def)

lemma ran_transmit [simp]: "ran w [Sent pdu] (transmit pdu w)"
  by (simp add: ran_def)

lemma ran_unique: "ran w es w' \<Longrightarrow> ran w es' w' \<Longrightarrow> es = es'"
  by (simp add: ran_def)

lemma ran_files: "ran w es w' \<Longrightarrow> w_files w' = replay es (w_files w)"
  by (simp add: ran_def)

lemma ran_faults: "ran w es w' \<Longrightarrow> w_faults w' = w_faults w"
  by (simp add: ran_def)

text \<open>The PDUs of a log, in order.\<close>

fun sent_pdus :: "event list \<Rightarrow> bytes list" where
  "sent_pdus [] = []"
| "sent_pdus (Sent pdu # es) = pdu # sent_pdus es"
| "sent_pdus (Fs op # es) = sent_pdus es"

lemma sent_pdus_append [simp]: "sent_pdus (xs @ ys) = sent_pdus xs @ sent_pdus ys"
  by (induction xs rule: sent_pdus.induct) auto

text \<open>A log that touches none of a set of paths.\<close>

fun touches :: "fs_op \<Rightarrow> path set" where
  "touches (Creat p) = {p}"
| "touches (Pwrite p off bs) = {p}"
| "touches (Ren p q) = {p, q}"
| "touches (Unlink p) = {p}"
| "touches (Datasync p) = {p}"

lemma apply_op_untouched: "p \<notin> touches op \<Longrightarrow> apply_op op d p = d p"
  by (cases op) (auto split: option.splits)

fun ev_touches :: "event \<Rightarrow> path set" where
  "ev_touches (Fs op) = touches op"
| "ev_touches (Sent pdu) = {}"

lemma replay_untouched:
  "\<forall>e \<in> set es. p \<notin> ev_touches e \<Longrightarrow> replay es d p = d p"
proof (induction es arbitrary: d)
  case Nil
  then show ?case by simp
next
  case (Cons e es)
  then show ?case by (cases e) (simp_all add: apply_op_untouched)
qed

lemma crash_prefix_touches:
  "crash_prefix es es' \<Longrightarrow> (\<Union>e \<in> set es'. ev_touches e) \<subseteq> (\<Union>e \<in> set es. ev_touches e)"
  by (induction rule: crash_prefix.induct) auto

end
