(* ===== verification/Cfdp_Journal.thy ===== *)
theory Cfdp_Journal
  imports Cfdp_Disk "HOL-Library.State_Monad"
begin

text \<open>
  \<open>receiver/Journal.cpp\<close>: the transfer state persisted per chunk. The binary layout is
  written to a temporary file that is renamed over the journal; reading goes field by field
  through an input stream that stops delivering once a read falls short, and leaves the
  variables of later reads as they were.
\<close>

section \<open>State and layout\<close>

record JournalState =
  js_transaction_id :: u32
  js_file_size :: u64
  js_chunk_size :: u32
  js_packet_size :: u32
  js_total_chunks :: u32
  js_checksum_expected :: u32
  js_eof_received :: bool
  js_filename :: bytes
  js_dest_path :: bytes
  js_chunk_done :: "bool list"

text \<open>The type invariant of the C arrays, and of a vector whose size fits the count field.\<close>

definition js_fits :: "JournalState \<Rightarrow> bool" where
  "js_fits s \<longleftrightarrow> length (js_filename s) = 256 \<and> length (js_dest_path s) = 512 \<and>
     length (js_chunk_done s) < 2 ^ 32"

record Journal =
  j_state_path :: path
  j_tmp_path :: path

definition journal_new :: "path \<Rightarrow> Journal" where
  "journal_new state_dir =
     \<lparr>j_state_path = state_dir @ ascii ''/state.bin'', j_tmp_path = state_dir @ ascii ''/state.bin.tmp''\<rparr>"

definition bool_byte :: "bool \<Rightarrow> u8" where
  "bool_byte b = (if b then 1 else 0)"

text \<open>The bytes \<open>atomic_write\<close> writes, in the order of its writes.\<close>

definition journal_image :: "JournalState \<Rightarrow> bytes" where
  "journal_image s =
     le32 (js_transaction_id s) @ le64 (js_file_size s) @ le32 (js_chunk_size s) @
     le32 (js_packet_size s) @ le32 (js_total_chunks s) @ le32 (js_checksum_expected s) @
     [bool_byte (js_eof_received s)] @ js_filename s @ js_dest_path s @
     le32 (of_nat (length (js_chunk_done s))) @ map bool_byte (js_chunk_done s)"

section \<open>Reading\<close>

record istream =
  in_rest :: bytes
  in_good :: bool

definition open_stream :: "bytes \<Rightarrow> istream" where
  "open_stream bs = \<lparr>in_rest = bs, in_good = True\<rparr>"

text \<open>\<open>f.read(ptr, sz)\<close> over a buffer of \<open>sz\<close> bytes, whose old contents stay where nothing arrives.\<close>

definition read_buf :: "bytes \<Rightarrow> istream \<Rightarrow> bytes \<times> istream" where
  "read_buf buf f =
     (if \<not> in_good f then (buf, f)
      else let got = take (length buf) (in_rest f) in
        (got @ drop (length got) buf,
         \<lparr>in_rest = drop (length buf) (in_rest f), in_good = (length got = length buf)\<rparr>))"

definition read_bytes :: "bytes \<Rightarrow> (istream, bytes) state" where
  "read_bytes buf = State (read_buf buf)"

definition read_u32 :: "u32 \<Rightarrow> (istream, u32) state" where
  "read_u32 x = do { b \<leftarrow> read_bytes (le32 x); State_Monad.return (of_le b) }"

definition read_u64 :: "u64 \<Rightarrow> (istream, u64) state" where
  "read_u64 x = do { b \<leftarrow> read_bytes (le64 x); State_Monad.return (of_le b) }"

definition read_bool :: "bool \<Rightarrow> (istream, bool) state" where
  "read_bool x = do { b \<leftarrow> read_bytes [bool_byte x]; State_Monad.return (hd b \<noteq> 0) }"

fun read_flags :: "nat \<Rightarrow> (istream, bool list) state" where
  "read_flags 0 = State_Monad.return []"
| "read_flags (Suc n) = do {
     v \<leftarrow> read_bool False;
     vs \<leftarrow> read_flags n;
     State_Monad.return (v # vs) }"

definition read_state :: "JournalState \<Rightarrow> (istream, JournalState) state" where
  "read_state s = do {
     transaction_id \<leftarrow> read_u32 (js_transaction_id s);
     file_size \<leftarrow> read_u64 (js_file_size s);
     chunk_size \<leftarrow> read_u32 (js_chunk_size s);
     packet_size \<leftarrow> read_u32 (js_packet_size s);
     total_chunks \<leftarrow> read_u32 (js_total_chunks s);
     checksum_expected \<leftarrow> read_u32 (js_checksum_expected s);
     eof_received \<leftarrow> read_bool (js_eof_received s);
     filename \<leftarrow> read_bytes (js_filename s);
     dest_path \<leftarrow> read_bytes (js_dest_path s);
     n \<leftarrow> read_u32 0;
     chunk_done \<leftarrow> read_flags (unat n);
     State_Monad.return \<lparr>js_transaction_id = transaction_id, js_file_size = file_size,
       js_chunk_size = chunk_size, js_packet_size = packet_size, js_total_chunks = total_chunks,
       js_checksum_expected = checksum_expected, js_eof_received = eof_received,
       js_filename = filename, js_dest_path = dest_path, js_chunk_done = chunk_done\<rparr> }"

text \<open>
  \<open>read_from_disk\<close>: the flag, and the state passed in as it is left behind. Reading a
  \<open>bool\<close> from a byte other than 0 and 1 is read as true; the program never writes one.
\<close>

definition read_from_disk :: "Journal \<Rightarrow> World \<Rightarrow> JournalState \<Rightarrow> bool \<times> JournalState" where
  "read_from_disk j w s =
     (case w_files w (j_state_path j) of
        None \<Rightarrow> (False, s)
      | Some bs \<Rightarrow>
          if f_open (w_faults w) (j_state_path j) then (False, s)
          else case run_state (read_state s) (open_stream bs) of (s', f) \<Rightarrow> (in_good f, s'))"

section \<open>Operations\<close>

definition journal_exists :: "Journal \<Rightarrow> World \<Rightarrow> bool" where
  "journal_exists j w \<longleftrightarrow> w_files w (j_state_path j) \<noteq> None"

definition atomic_write :: "Journal \<Rightarrow> JournalState \<Rightarrow> World \<Rightarrow> bool \<times> World" where
  "atomic_write j s w =
     (if f_open (w_faults w) (j_tmp_path j) then (False, w)
      else case fs_write (j_tmp_path j) 0 (journal_image s) (do_op (Creat (j_tmp_path j)) w) of
        (ok, w') \<Rightarrow>
          if \<not> ok then (False, w')
          else if f_dir (w_faults w') (j_state_path j) then (False, w')
          else (True, do_op (Ren (j_tmp_path j) (j_state_path j)) w'))"

definition journal_create :: "Journal \<Rightarrow> JournalState \<Rightarrow> World \<Rightarrow> bool \<times> World" where
  "journal_create j s w = atomic_write j s w"

text \<open>The local \<open>JournalState\<close> of the two updates starts out without defined contents.\<close>

definition unset_state :: JournalState where
  "unset_state = \<lparr>js_transaction_id = 0, js_file_size = 0, js_chunk_size = 0, js_packet_size = 0,
     js_total_chunks = 0, js_checksum_expected = 0, js_eof_received = False,
     js_filename = replicate 256 0, js_dest_path = replicate 512 0, js_chunk_done = []\<rparr>"

definition mark_chunk_done :: "Journal \<Rightarrow> u32 \<Rightarrow> World \<Rightarrow> bool \<times> World" where
  "mark_chunk_done j chunk_index w =
     (case read_from_disk j w unset_state of (ok, s) \<Rightarrow>
        if \<not> ok then (False, w)
        else if unat chunk_index \<ge> length (js_chunk_done s) then (False, w)
        else atomic_write j (s\<lparr>js_chunk_done := (js_chunk_done s)[unat chunk_index := True]\<rparr>) w)"

definition mark_eof_received :: "Journal \<Rightarrow> World \<Rightarrow> bool \<times> World" where
  "mark_eof_received j w =
     (case read_from_disk j w unset_state of (ok, s) \<Rightarrow>
        if \<not> ok then (False, w)
        else atomic_write j (s\<lparr>js_eof_received := True\<rparr>) w)"

definition journal_load :: "Journal \<Rightarrow> World \<Rightarrow> JournalState \<Rightarrow> bool \<times> JournalState" where
  "journal_load j w s = read_from_disk j w s"

definition journal_remove :: "Journal \<Rightarrow> World \<Rightarrow> bool \<times> World" where
  "journal_remove j w =
     (if \<not> journal_exists j w \<or> f_dir (w_faults w) (j_state_path j) then (False, w)
      else (True, do_op (Unlink (j_state_path j)) w))"

definition chunk_missing :: "JournalState \<Rightarrow> nat \<Rightarrow> bool" where
  "chunk_missing s i \<longleftrightarrow> i \<ge> length (js_chunk_done s) \<or> \<not> js_chunk_done s ! i"

definition compute_missing_chunks :: "JournalState \<Rightarrow> (u32 \<times> u32) list" where
  "compute_missing_chunks s = range_collect (chunk_missing s) (js_total_chunks s)"

section \<open>Reading back what was written\<close>

lemma run_read_bytes:
  "length buf = length bs \<Longrightarrow>
     run_state (read_bytes buf) \<lparr>in_rest = bs @ r, in_good = True\<rparr> = (bs, \<lparr>in_rest = r, in_good = True\<rparr>)"
  by (simp add: read_bytes_def read_buf_def)

lemma run_read_u32:
  "run_state (read_u32 x) \<lparr>in_rest = le32 y @ r, in_good = True\<rparr> = (y, \<lparr>in_rest = r, in_good = True\<rparr>)"
  by (simp add: read_u32_def run_read_bytes)

lemma run_read_u64:
  "run_state (read_u64 x) \<lparr>in_rest = le64 y @ r, in_good = True\<rparr> = (y, \<lparr>in_rest = r, in_good = True\<rparr>)"
  by (simp add: read_u64_def run_read_bytes)

lemma run_read_bool:
  "run_state (read_bool x) \<lparr>in_rest = bool_byte b # r, in_good = True\<rparr> =
     (b, \<lparr>in_rest = r, in_good = True\<rparr>)"
  using run_read_bytes [of "[bool_byte x]" "[bool_byte b]" r]
  by (simp add: read_bool_def) (simp add: bool_byte_def)

lemma run_read_flags:
  "run_state (read_flags (length bs)) \<lparr>in_rest = map bool_byte bs @ r, in_good = True\<rparr> =
     (bs, \<lparr>in_rest = r, in_good = True\<rparr>)"
  by (induction bs) (simp_all add: run_read_bool)

lemma run_read_state:
  assumes "js_fits s" and "length (js_filename s0) = 256" and "length (js_dest_path s0) = 512"
  shows "run_state (read_state s0) (open_stream (journal_image s @ r)) =
    (s, \<lparr>in_rest = r, in_good = True\<rparr>)"
proof -
  have n: "unat (of_nat (length (js_chunk_done s)) :: u32) = length (js_chunk_done s)"
    using assms by (simp add: js_fits_def unat_of_nat)
  show ?thesis
    using assms
    by (simp add: read_state_def open_stream_def journal_image_def js_fits_def
        run_read_bytes run_read_u32 run_read_u64 run_read_bool run_read_flags n)
qed

section \<open>Short and arbitrary contents\<close>

text \<open>
  Two readers stay in step on related streams as long as the first one's stream is good:
  they return the same value and leave related streams.
\<close>

definition in_step :: "(istream \<Rightarrow> istream \<Rightarrow> bool) \<Rightarrow> (istream, 'a) state \<Rightarrow> (istream, 'a) state \<Rightarrow> bool"
  where
  "in_step Q m1 m2 \<longleftrightarrow>
     (\<forall>f g. Q f g \<longrightarrow> in_good (snd (run_state m1 f)) \<longrightarrow>
        Q (snd (run_state m1 f)) (snd (run_state m2 g)) \<and>
        fst (run_state m1 f) = fst (run_state m2 g)) \<and>
     (\<forall>f. \<not> in_good f \<longrightarrow> \<not> in_good (snd (run_state m1 f)))"

lemma in_step_return [intro]: "in_step Q (State_Monad.return x) (State_Monad.return x)"
  by (simp add: in_step_def)

lemma in_step_bind [intro]:
  assumes "in_step Q m1 m2" and "\<And>x. in_step Q (k1 x) (k2 x)"
  shows "in_step Q (State_Monad.bind m1 k1) (State_Monad.bind m2 k2)"
  using assms unfolding in_step_def by (auto split: prod.splits) (metis fst_conv snd_conv)+

definition same_stream :: "istream \<Rightarrow> istream \<Rightarrow> bool" where
  "same_stream f g \<longleftrightarrow> f = g"

definition short_stream :: "istream \<Rightarrow> istream \<Rightarrow> bool" where
  "short_stream f g \<longleftrightarrow>
     in_good g \<and> (\<exists>k < length (in_rest g). in_rest f = take k (in_rest g))"

lemma in_step_read_bytes:
  assumes "length b1 = length b2"
  shows "in_step same_stream (read_bytes b1) (read_bytes b2)"
    and "in_step short_stream (read_bytes b1) (read_bytes b2)"
proof -
  show "in_step same_stream (read_bytes b1) (read_bytes b2)"
    using assms by (auto simp: in_step_def same_stream_def read_bytes_def read_buf_def Let_def)
  show "in_step short_stream (read_bytes b1) (read_bytes b2)"
    unfolding in_step_def
  proof (intro conjI allI impI)
    fix f :: istream assume "\<not> in_good f"
    then show "\<not> in_good (snd (run_state (read_bytes b1) f))"
      by (simp add: read_bytes_def read_buf_def)
  next
    fix f g
    assume Q: "short_stream f g" and good: "in_good (snd (run_state (read_bytes b1) f))"
    from Q obtain k where k: "in_good g" "k < length (in_rest g)" "in_rest f = take k (in_rest g)"
      by (auto simp: short_stream_def)
    from good have gf: "in_good f" and len: "length b1 \<le> k"
      using k by (auto simp: read_bytes_def read_buf_def Let_def split: if_splits)
    then have "drop (length b1) (take k (in_rest g)) =
        take (k - length b2) (drop (length b2) (in_rest g))"
      using assms by (simp add: drop_take)
    with gf len k assms
    show "short_stream (snd (run_state (read_bytes b1) f)) (snd (run_state (read_bytes b2) g))"
      by (auto simp: short_stream_def read_bytes_def read_buf_def Let_def
          intro!: exI [of _ "k - length b2"])
    show "fst (run_state (read_bytes b1) f) = fst (run_state (read_bytes b2) g)"
      using gf len k assms by (simp add: read_bytes_def read_buf_def Let_def min_def)
  qed
qed

definition read_step :: "(istream \<Rightarrow> istream \<Rightarrow> bool) \<Rightarrow> bool" where
  "read_step Q \<longleftrightarrow> (\<forall>b1 b2. length b1 = length b2 \<longrightarrow> in_step Q (read_bytes b1) (read_bytes b2))"

lemma read_steps: "read_step same_stream" "read_step short_stream"
  by (simp_all add: read_step_def in_step_read_bytes)

lemma in_step_read_u32: "read_step Q \<Longrightarrow> in_step Q (read_u32 x) (read_u32 y)"
  unfolding read_u32_def by (intro in_step_bind in_step_return) (simp add: read_step_def)

lemma in_step_read_u64: "read_step Q \<Longrightarrow> in_step Q (read_u64 x) (read_u64 y)"
  unfolding read_u64_def by (intro in_step_bind in_step_return) (simp add: read_step_def)

lemma in_step_read_bool: "read_step Q \<Longrightarrow> in_step Q (read_bool x) (read_bool y)"
  unfolding read_bool_def by (intro in_step_bind in_step_return) (simp add: read_step_def)

lemma in_step_read_flags: "read_step Q \<Longrightarrow> in_step Q (read_flags n) (read_flags n)"
  by (induction n) (auto intro!: in_step_bind in_step_return in_step_read_bool)

lemma in_step_read_state:
  assumes "read_step Q" and "length (js_filename s1) = length (js_filename s2)"
    and "length (js_dest_path s1) = length (js_dest_path s2)"
  shows "in_step Q (read_state s1) (read_state s2)"
proof -
  have "in_step Q (read_bytes (js_filename s1)) (read_bytes (js_filename s2))"
    and "in_step Q (read_bytes (js_dest_path s1)) (read_bytes (js_dest_path s2))"
    using assms by (simp_all add: read_step_def)
  then show ?thesis
    unfolding read_state_def using assms(1)
    by (intro in_step_bind in_step_return in_step_read_u32 in_step_read_u64 in_step_read_bool
        in_step_read_flags)
qed

text \<open>What a journal file holds, when it can be read in full.\<close>

definition decode_journal :: "bytes \<Rightarrow> JournalState option" where
  "decode_journal bs =
     (case run_state (read_state unset_state) (open_stream bs) of
        (s, f) \<Rightarrow> if in_good f then Some s else None)"

definition arrays_ok :: "JournalState \<Rightarrow> bool" where
  "arrays_ok s \<longleftrightarrow> length (js_filename s) = 256 \<and> length (js_dest_path s) = 512"

lemma arrays_ok_unset [simp]: "arrays_ok unset_state"
  by (simp add: arrays_ok_def unset_state_def)

lemma js_fits_arrays: "js_fits s \<Longrightarrow> arrays_ok s"
  by (simp add: js_fits_def arrays_ok_def)

lemma decode_journal_image: "js_fits s \<Longrightarrow> decode_journal (journal_image s @ r) = Some s"
  using run_read_state [of s unset_state r] by (simp add: decode_journal_def unset_state_def)


lemma read_from_disk_decode:
  assumes "arrays_ok s0"
  shows "read_from_disk j w s0 = (True, s) \<longleftrightarrow>
    \<not> f_open (w_faults w) (j_state_path j) \<and>
    Option.bind (w_files w (j_state_path j)) decode_journal = Some s"
proof (cases "w_files w (j_state_path j)")
  case None
  then show ?thesis by (simp add: read_from_disk_def)
next
  case (Some bs)
  let ?f = "open_stream bs"
  have step: "in_step same_stream (read_state s1) (read_state s2)"
    if "arrays_ok s1" "arrays_ok s2" for s1 s2
    using that by (intro in_step_read_state [OF read_steps(1)]) (simp_all add: arrays_ok_def)
  have same: "in_good (snd (run_state (read_state s1) ?f)) \<Longrightarrow>
      run_state (read_state s1) ?f = run_state (read_state s2) ?f"
    if "arrays_ok s1" "arrays_ok s2" for s1 s2
    using step [OF that] by (auto simp: in_step_def same_stream_def prod_eq_iff)
  from same [OF assms arrays_ok_unset] same [OF arrays_ok_unset assms] Some show ?thesis
    by (auto simp: read_from_disk_def decode_journal_def split: prod.splits if_splits)
qed

lemma read_from_disk_fst:
  assumes "arrays_ok s0"
  shows "fst (read_from_disk j w s0) \<longleftrightarrow>
    \<not> f_open (w_faults w) (j_state_path j) \<and>
    Option.bind (w_files w (j_state_path j)) decode_journal \<noteq> None"
  using read_from_disk_decode [OF assms, of j w] by (cases "read_from_disk j w s0") auto

section \<open>Writing atomically\<close>

definition paths_ok :: "Journal \<Rightarrow> bool" where
  "paths_ok j \<longleftrightarrow> j_state_path j \<noteq> j_tmp_path j"

lemma paths_ok_new [simp]: "paths_ok (journal_new dir)"
  by (simp add: paths_ok_def journal_new_def)

text \<open>
  A write of the journal, with any faults: its effects touch the two journal paths only;
  whatever the point of a crash, the journal file is the old one or the new one; on success
  it is the new one, on failure the old one.
\<close>

lemma fs_write_ran:
  "\<exists>bs'. snd (fs_write p off bs w) = do_op (Pwrite p off bs') w \<and>
     (fst (fs_write p off bs w) \<longrightarrow> bs' = bs) \<and> (\<exists>k. bs' = take k bs)"
  by (auto simp: fs_write_def split: option.splits intro: exI [of _ "length bs"])

lemma atomic_write_effects:
  assumes "paths_ok j" and run: "atomic_write j s w = (ok, w')"
  shows "\<exists>es. ran w es w' \<and>
    (\<forall>e \<in> set es. ev_touches e \<subseteq> {j_state_path j, j_tmp_path j}) \<and> sent_pdus es = [] \<and>
    survives (\<lambda>d. d (j_state_path j) = w_files w (j_state_path j) \<or>
      ok \<and> d (j_state_path j) = Some (journal_image s)) (w_files w) es \<and>
    w_files w' (j_state_path j) =
      (if ok then Some (journal_image s) else w_files w (j_state_path j))"
proof -
  let ?S = "j_state_path j" and ?T = "j_tmp_path j"
  let ?P = "\<lambda>d. d ?S = w_files w ?S \<or> ok \<and> d ?S = Some (journal_image s)"
  have neq: "?S \<noteq> ?T" using assms(1) by (simp add: paths_ok_def)
  show ?thesis
  proof (cases "f_open (w_faults w) ?T")
    case True
    with run show ?thesis by (intro exI [of _ "[]"]) (simp add: atomic_write_def)
  next
    case False
    let ?w1 = "do_op (Creat ?T) w"
    obtain bs' where bs': "snd (fs_write ?T 0 (journal_image s) ?w1) = do_op (Pwrite ?T 0 bs') ?w1"
      "fst (fs_write ?T 0 (journal_image s) ?w1) \<longrightarrow> bs' = journal_image s"
      using fs_write_ran [of ?T 0 "journal_image s" ?w1] by blast
    define es0 where "es0 = [Fs (Creat ?T)] @ [Fs (Pwrite ?T 0 bs')]"
    let ?w2 = "do_op (Pwrite ?T 0 bs') ?w1"
    have ran0: "ran w es0 ?w2" unfolding es0_def
      by (rule ran_trans [OF ran_do_op ran_do_op])
    have sv0: "survives ?P (w_files w) es0" unfolding es0_def
      by (rule survives_append) (use neq in \<open>auto simp: survives_op survives_Pwrite\<close>)
    consider (fail) "ok = False" "w' = ?w2"
      | (rename) "ok" "w' = do_op (Ren ?T ?S) ?w2" "bs' = journal_image s"
      using run False bs' by (auto simp: atomic_write_def split: prod.splits if_splits)
    then show ?thesis
    proof cases
      case fail
      with ran0 sv0 neq show ?thesis
        by (intro exI [of _ es0]) (auto simp: es0_def)
    next
      case rename
      have "ran w (es0 @ [Fs (Ren ?T ?S)]) w'"
        unfolding rename(2) by (rule ran_trans [OF ran0]) simp
      moreover have "survives ?P (w_files w) (es0 @ [Fs (Ren ?T ?S)])"
        by (rule survives_append [OF sv0])
          (use neq rename in \<open>auto simp: survives_op es0_def write_at_def\<close>)
      ultimately show ?thesis using neq rename
        by (intro exI [of _ "es0 @ [Fs (Ren ?T ?S)]"]) (auto simp: es0_def write_at_def)
    qed
  qed
qed

section \<open>The stored state and the operations on it\<close>

definition stored_in :: "Journal \<Rightarrow> files \<Rightarrow> JournalState option" where
  "stored_in j d = Option.bind (d (j_state_path j)) decode_journal"

definition stored :: "Journal \<Rightarrow> World \<Rightarrow> JournalState option" where
  "stored j w = stored_in j (w_files w)"

definition set_done :: "u32 \<Rightarrow> JournalState \<Rightarrow> JournalState" where
  "set_done ci s = s\<lparr>js_chunk_done := (js_chunk_done s)[unat ci := True]\<rparr>"

definition set_eof :: "JournalState \<Rightarrow> JournalState" where
  "set_eof s = s\<lparr>js_eof_received := True\<rparr>"

lemma set_done_simps [simp]:
  "js_transaction_id (set_done ci s) = js_transaction_id s"
  "js_file_size (set_done ci s) = js_file_size s"
  "js_chunk_size (set_done ci s) = js_chunk_size s"
  "js_packet_size (set_done ci s) = js_packet_size s"
  "js_total_chunks (set_done ci s) = js_total_chunks s"
  "js_checksum_expected (set_done ci s) = js_checksum_expected s"
  "js_eof_received (set_done ci s) = js_eof_received s"
  "js_filename (set_done ci s) = js_filename s"
  "js_dest_path (set_done ci s) = js_dest_path s"
  "js_chunk_done (set_done ci s) = (js_chunk_done s)[unat ci := True]"
  by (simp_all add: set_done_def)

lemma set_eof_simps [simp]:
  "js_transaction_id (set_eof s) = js_transaction_id s"
  "js_file_size (set_eof s) = js_file_size s"
  "js_chunk_size (set_eof s) = js_chunk_size s"
  "js_packet_size (set_eof s) = js_packet_size s"
  "js_total_chunks (set_eof s) = js_total_chunks s"
  "js_checksum_expected (set_eof s) = js_checksum_expected s"
  "js_eof_received (set_eof s)"
  "js_filename (set_eof s) = js_filename s"
  "js_dest_path (set_eof s) = js_dest_path s"
  "js_chunk_done (set_eof s) = js_chunk_done s"
  by (simp_all add: set_eof_def)

lemma js_fits_set [simp]: "js_fits (set_done ci s) = js_fits s" "js_fits (set_eof s) = js_fits s"
  by (simp_all add: js_fits_def)

lemma length_read_bytes: "run_state (read_bytes buf) f = (b, f') \<Longrightarrow> length b = length buf"
  by (auto simp: read_bytes_def read_buf_def Let_def split: if_splits)

lemma length_read_flags: "run_state (read_flags n) f = (vs, f') \<Longrightarrow> length vs = n"
  by (induction n arbitrary: f vs f') (auto split: prod.splits)

lemma read_state_fits:
  "arrays_ok s0 \<Longrightarrow> run_state (read_state s0) f = (s, f') \<Longrightarrow> js_fits s"
  by (auto simp: read_state_def js_fits_def arrays_ok_def split: prod.splits
      dest!: length_read_bytes length_read_flags)

lemma decode_journal_fits: "decode_journal bs = Some s \<Longrightarrow> js_fits s"
  using read_state_fits [OF arrays_ok_unset]
  by (auto simp: decode_journal_def split: prod.splits if_splits)

lemma stored_fits: "stored j w = Some s \<Longrightarrow> js_fits s"
  by (auto simp: stored_def stored_in_def bind_eq_Some_conv dest: decode_journal_fits)

definition calm :: "World \<Rightarrow> bool" where
  "calm w \<longleftrightarrow> w_faults w = no_faults"

lemma read_stored:
  "calm w \<Longrightarrow> stored j w = Some s \<Longrightarrow> arrays_ok s0 \<Longrightarrow> read_from_disk j w s0 = (True, s)"
  by (simp add: read_from_disk_decode stored_def stored_in_def calm_def)

lemma atomic_write_calm:
  assumes "calm w"
  shows "atomic_write j s w = (True,
    do_op (Ren (j_tmp_path j) (j_state_path j))
      (do_op (Pwrite (j_tmp_path j) 0 (journal_image s)) (do_op (Creat (j_tmp_path j)) w)))"
  using assms by (simp add: atomic_write_def calm_def)

lemma journal_image_nonempty [simp]: "journal_image s \<noteq> []"
  by (simp add: journal_image_def)

lemma atomic_write_stored:
  assumes "paths_ok j" and "calm w" and "js_fits s"
  shows "\<exists>w'. atomic_write j s w = (True, w') \<and> calm w' \<and> stored j w' = Some s"
proof -
  from assms(1) have "j_state_path j \<noteq> j_tmp_path j" by (simp add: paths_ok_def)
  with assms decode_journal_image [OF assms(3), of "[]"] show ?thesis
    unfolding atomic_write_calm [OF assms(2)]
    by (auto simp: calm_def stored_def stored_in_def write_at_def)
qed

section \<open>The interface the receiver relies on\<close>

datatype journal_update = MarkDone u32 | MarkEof

fun updated :: "journal_update \<Rightarrow> JournalState \<Rightarrow> JournalState" where
  "updated (MarkDone ci) s = set_done ci s"
| "updated MarkEof s = set_eof s"

fun update_fits :: "JournalState \<Rightarrow> journal_update \<Rightarrow> bool" where
  "update_fits s (MarkDone ci) = (unat ci < length (js_chunk_done s))"
| "update_fits s MarkEof = True"

lemma update_fits_updated [simp]: "update_fits (updated v s) u = update_fits s u"
  by (cases u; cases v) simp_all

locale transfer_journal =
  fixes calm :: "'w \<Rightarrow> bool" and stored :: "'w \<Rightarrow> JournalState option"
    and exists :: "'w \<Rightarrow> bool"
    and create :: "JournalState \<Rightarrow> 'w \<Rightarrow> bool \<times> 'w"
    and mark :: "u32 \<Rightarrow> 'w \<Rightarrow> bool \<times> 'w"
    and mark_eof :: "'w \<Rightarrow> bool \<times> 'w"
    and remove :: "'w \<Rightarrow> bool \<times> 'w"
    and load :: "'w \<Rightarrow> JournalState \<Rightarrow> bool \<times> JournalState"
  assumes create_stores: "calm w \<Longrightarrow> js_fits s \<Longrightarrow>
      \<exists>w'. create s w = (True, w') \<and> calm w' \<and> stored w' = Some s"
    and mark_stores: "calm w \<Longrightarrow> stored w = Some s \<Longrightarrow> unat ci < length (js_chunk_done s) \<Longrightarrow>
      \<exists>w'. mark ci w = (True, w') \<and> calm w' \<and> stored w' = Some (set_done ci s)"
    and mark_eof_stores: "calm w \<Longrightarrow> stored w = Some s \<Longrightarrow>
      \<exists>w'. mark_eof w = (True, w') \<and> calm w' \<and> stored w' = Some (set_eof s)"
    and remove_clears: "calm w \<Longrightarrow> exists w \<Longrightarrow>
      \<exists>w'. remove w = (True, w') \<and> calm w' \<and> stored w' = None \<and> \<not> exists w'"
    and load_stored: "calm w \<Longrightarrow> stored w = Some s \<Longrightarrow> arrays_ok s0 \<Longrightarrow> load w s0 = (True, s)"
    and stored_exists: "stored w = Some s \<Longrightarrow> exists w"
begin

definition update :: "journal_update \<Rightarrow> 'w \<Rightarrow> 'w" where
  "update u w = (case u of MarkDone ci \<Rightarrow> snd (mark ci w) | MarkEof \<Rightarrow> snd (mark_eof w))"

lemma update_stores:
  assumes "calm w" and "stored w = Some s" and "update_fits s u"
  shows "calm (update u w) \<and> stored (update u w) = Some (updated u s)"
proof (cases u)
  case (MarkDone ci)
  with mark_stores [OF assms(1,2), of ci] assms(3) show ?thesis by (auto simp: update_def)
next
  case MarkEof
  with mark_eof_stores [OF assms(1,2)] show ?thesis by (auto simp: update_def)
qed

lemma updates_store:
  assumes "calm w" and "stored w = Some s" and "\<forall>u \<in> set us. update_fits s u"
  shows "calm (fold update us w) \<and> stored (fold update us w) = Some (fold updated us s)"
  using assms
proof (induction us arbitrary: w s)
  case Nil
  then show ?case by simp
next
  case (Cons u us)
  with update_stores [of w s u] show ?case by simp
qed

text \<open>Loading after a reboot gives the created state with every update since applied.\<close>

lemma recovery:
  assumes "calm w" and "js_fits s" and "\<forall>u \<in> set us. update_fits s u" and "arrays_ok s0"
  shows "load (fold update us (snd (create s w))) s0 = (True, fold updated us s)"
proof -
  from create_stores [OF assms(1,2)] have "calm (snd (create s w))" "stored (snd (create s w)) = Some s"
    by auto
  from updates_store [OF this assms(3)] assms(4) show ?thesis by (simp add: load_stored)
qed

end

lemma mark_chunk_done_stored:
  assumes "paths_ok j" and "calm w" and "stored j w = Some s"
    and "unat ci < length (js_chunk_done s)"
  shows "\<exists>w'. mark_chunk_done j ci w = (True, w') \<and> calm w' \<and> stored j w' = Some (set_done ci s)"
proof -
  have "js_fits (set_done ci s)" using stored_fits [OF assms(3)] by simp
  from atomic_write_stored [OF assms(1,2) this] read_stored [OF assms(2,3) arrays_ok_unset] assms(4)
  show ?thesis by (simp add: mark_chunk_done_def set_done_def)
qed

lemma mark_eof_received_stored:
  assumes "paths_ok j" and "calm w" and "stored j w = Some s"
  shows "\<exists>w'. mark_eof_received j w = (True, w') \<and> calm w' \<and> stored j w' = Some (set_eof s)"
proof -
  have "js_fits (set_eof s)" using stored_fits [OF assms(3)] by simp
  from atomic_write_stored [OF assms(1,2) this] read_stored [OF assms(2,3) arrays_ok_unset]
  show ?thesis by (simp add: mark_eof_received_def set_eof_def)
qed

lemma journal_remove_stored:
  assumes "calm w" and "journal_exists j w"
  shows "\<exists>w'. journal_remove j w = (True, w') \<and> calm w' \<and> stored j w' = None \<and> \<not> journal_exists j w'"
  using assms by (auto simp: journal_remove_def calm_def stored_def stored_in_def journal_exists_def)

interpretation jnl: transfer_journal calm "stored (journal_new dir)" "journal_exists (journal_new dir)"
    "journal_create (journal_new dir)" "mark_chunk_done (journal_new dir)"
    "mark_eof_received (journal_new dir)" "journal_remove (journal_new dir)"
    "journal_load (journal_new dir)"
  for dir
proof
  fix w :: World and s ci s0
  let ?j = "journal_new dir"
  show "calm w \<Longrightarrow> js_fits s \<Longrightarrow>
      \<exists>w'. journal_create ?j s w = (True, w') \<and> calm w' \<and> stored ?j w' = Some s"
    by (simp add: journal_create_def atomic_write_stored)
  show "calm w \<Longrightarrow> stored ?j w = Some s \<Longrightarrow> unat ci < length (js_chunk_done s) \<Longrightarrow>
      \<exists>w'. mark_chunk_done ?j ci w = (True, w') \<and> calm w' \<and> stored ?j w' = Some (set_done ci s)"
    by (simp add: mark_chunk_done_stored)
  show "calm w \<Longrightarrow> stored ?j w = Some s \<Longrightarrow>
      \<exists>w'. mark_eof_received ?j w = (True, w') \<and> calm w' \<and> stored ?j w' = Some (set_eof s)"
    by (simp add: mark_eof_received_stored)
  show "calm w \<Longrightarrow> journal_exists ?j w \<Longrightarrow>
      \<exists>w'. journal_remove ?j w = (True, w') \<and> calm w' \<and> stored ?j w' = None \<and>
        \<not> journal_exists ?j w'"
    by (simp add: journal_remove_stored)
  show "calm w \<Longrightarrow> stored ?j w = Some s \<Longrightarrow> arrays_ok s0 \<Longrightarrow> journal_load ?j w s0 = (True, s)"
    by (simp add: journal_load_def read_stored)
  show "stored ?j w = Some s \<Longrightarrow> journal_exists ?j w"
    by (auto simp: stored_def stored_in_def journal_exists_def bind_eq_Some_conv)
qed

section \<open>Missing chunks\<close>

lemma compute_missing_spec:
  "concat (map expand (compute_missing_chunks s)) =
     filter (chunk_missing s) [0..<unat (js_total_chunks s)]"
  "separated (compute_missing_chunks s)"
  by (simp_all add: compute_missing_chunks_def range_collect_spec)

lemma compute_missing_Nil_iff:
  "compute_missing_chunks s = [] \<longleftrightarrow> (\<forall>i < unat (js_total_chunks s). \<not> chunk_missing s i)"
  by (simp add: compute_missing_chunks_def range_collect_Nil_iff)

lemma compute_missing_head:
  assumes "compute_missing_chunks s = r # rs"
  shows "\<exists>is. filter (chunk_missing s) [0..<unat (js_total_chunks s)] = unat (fst r) # is"
proof -
  have "fst r \<le> snd r" using separated_le [OF compute_missing_spec(2), of r s] assms by simp
  then have "expand r = unat (fst r) # tl (expand r)"
    by (simp add: expand_def word_le_nat_alt upt_conv_Cons del: upt_Suc)
  with compute_missing_spec(1) [of s] assms show ?thesis
    by (metis append_Cons concat.simps(2) list.simps(9))
qed

lemma compute_missing_least:
  assumes "compute_missing_chunks s = r # rs" and "i < unat (fst r)" and "i < unat (js_total_chunks s)"
  shows "\<not> chunk_missing s i"
proof
  assume miss: "chunk_missing s i"
  obtain "is" where head: "filter (chunk_missing s) [0..<unat (js_total_chunks s)] = unat (fst r) # is"
    using compute_missing_head [OF assms(1)] by blast
  have "i \<in> set (unat (fst r) # is)" unfolding head [symmetric] using miss assms(3) by simp
  moreover have "sorted (unat (fst r) # is)" unfolding head [symmetric] by (rule sorted_wrt_filter) simp
  ultimately show False using assms(2) by auto
qed

lemma compute_missing_first:
  assumes "compute_missing_chunks s = r # rs"
  shows "chunk_missing s (unat (fst r))" and "unat (fst r) < unat (js_total_chunks s)"
    and "\<forall>i < unat (fst r). \<not> chunk_missing s i"
proof -
  have le: "fst r \<le> snd r" using separated_le compute_missing_spec(2) [of s] assms by fastforce
  then have "expand r = unat (fst r) # [Suc (unat (fst r))..<Suc (unat (snd r))]"
    by (simp add: expand_def word_le_nat_alt upt_conv_Cons del: upt_Suc)
  then have f: "filter (chunk_missing s) [0..<unat (js_total_chunks s)] =
      unat (fst r) # [Suc (unat (fst r))..<Suc (unat (snd r))] @ concat (map expand rs)" (is "_ = ?x # ?ys")
    using compute_missing_spec(1) [of s] assms by simp
  then have "?x \<in> set (filter (chunk_missing s) [0..<unat (js_total_chunks s)])" by simp
  then show "chunk_missing s (unat (fst r))" and lt: "unat (fst r) < unat (js_total_chunks s)"
    by simp_all
  have "sorted (?x # ?ys)" unfolding f [symmetric]
    by (rule sorted_wrt_filter) simp
  then have least: "\<forall>y \<in> set (?x # ?ys). ?x \<le> y" by auto
  show "\<forall>i < unat (fst r). \<not> chunk_missing s i"
  proof (intro allI impI notI)
    fix i assume i: "i < unat (fst r)" and m: "chunk_missing s i"
    then have "i \<in> set (filter (chunk_missing s) [0..<unat (js_total_chunks s)])"
      using lt by simp
    then have "i \<in> set (?x # ?ys)" unfolding f .
    with least have "?x \<le> i" by (rule bspec)
    with i show False by simp
  qed
qed

section \<open>Properties\<close>

lemma calm_disk: "calm \<lparr>w_files = Map.empty, w_faults = no_faults, w_log = []\<rparr>"
  by (simp add: calm_def)

text \<open>C17: What \<open>create\<close> wrote is what \<open>load\<close> reads back after a reboot with every update
  made since (finished chunks, \<open>Eof\<close>), whatever memory it is loaded into.\<close>

theorem journal_recovers_every_update:
  assumes "calm w" and "js_fits s" and "\<forall>u \<in> set us. update_fits s u" and "arrays_ok memory"
  shows "journal_load (journal_new dir)
      (fold (\<lambda>u w. case u of MarkDone ci \<Rightarrow> snd (mark_chunk_done (journal_new dir) ci w)
         | MarkEof \<Rightarrow> snd (mark_eof_received (journal_new dir) w)) us
        (snd (journal_create (journal_new dir) s w))) memory = (True, fold updated us s)"
proof -
  have "jnl.update dir = (\<lambda>u w. case u of MarkDone ci \<Rightarrow> snd (mark_chunk_done (journal_new dir) ci w)
      | MarkEof \<Rightarrow> snd (mark_eof_received (journal_new dir) w))"
    by (intro ext) (simp add: jnl.update_def)
  with jnl.recovery [OF assms, of dir] show ?thesis by simp
qed

theorem journal_recovers_every_update_witness:
  "journal_load (journal_new [115])
      (snd (mark_chunk_done (journal_new [115]) 1 (snd (mark_eof_received (journal_new [115])
        (snd (journal_create (journal_new [115]) (unset_state\<lparr>js_chunk_done := [False, False]\<rparr>)
          \<lparr>w_files = Map.empty, w_faults = no_faults, w_log = []\<rparr>)))))) unset_state =
    (True, unset_state\<lparr>js_chunk_done := [False, True], js_eof_received := True,
      js_total_chunks := 0\<rparr>)"
proof -
  let ?s = "unset_state\<lparr>js_chunk_done := [False, False]\<rparr>"
  have fits: "js_fits ?s" by (simp add: js_fits_def unset_state_def)
  have "\<forall>u \<in> set [MarkEof, MarkDone 1]. update_fits ?s u" by simp
  from journal_recovers_every_update [OF calm_disk fits this arrays_ok_unset, of "[115]"]
  show ?thesis by (simp add: set_done_def set_eof_def) (simp add: unset_state_def)
qed



text \<open>C18: Rewriting the journal is atomic: whichever system call is refused, and wherever a crash
  falls, even inside a write, the journal file is the old one or the complete new one; the new
  one only if the operation reports success; nothing but the two journal files is touched.\<close>

theorem journal_write_is_atomic:
  "\<exists>es. ran w es (snd (atomic_write (journal_new dir) s w)) \<and>
    (\<Union>e \<in> set es. ev_touches e) \<subseteq> {dir @ ascii ''/state.bin'', dir @ ascii ''/state.bin.tmp''} \<and>
    survives (\<lambda>d. d (dir @ ascii ''/state.bin'') = w_files w (dir @ ascii ''/state.bin'') \<or>
      fst (atomic_write (journal_new dir) s w) \<and>
        d (dir @ ascii ''/state.bin'') = Some (journal_image s)) (w_files w) es"
proof -
  obtain ok w' where run: "atomic_write (journal_new dir) s w = (ok, w')" by fastforce
  from atomic_write_effects [OF paths_ok_new run] run show ?thesis
    by (auto simp: journal_new_def)
qed

text \<open>C20: The missing chunks are exactly those not marked done (a chunk the vector does not
  reach counts as missing), ascending, in maximal ranges.\<close>

theorem missing_chunks_are_exact:
  "separated (compute_missing_chunks s) \<and>
   concat (map expand (compute_missing_chunks s)) =
     filter (\<lambda>i. \<not> (i < length (js_chunk_done s) \<and> js_chunk_done s ! i)) [0..<unat (js_total_chunks s)]"
  using compute_missing_spec [of s] by (simp add: chunk_missing_def [abs_def] not_less)

end
