(* ===== verification/Cfdp_Receiver.thy ===== *)
theory Cfdp_Receiver
  imports Cfdp_Codec Cfdp_Crc Cfdp_PacketList Cfdp_Journal
begin

text \<open>
  \<open>receiver/CfdpReceiver.cpp\<close>: the protocol state machine, one definition per member
  function. A handler takes the receiver and returns the receiver after it, or the fault
  that ended it together with the world it leaves behind: an exception of the source, or a
  step the C++ standard leaves undefined. The parameter \<open>zcrc\<close> is zlib's \<open>crc32\<close>.
\<close>

section \<open>State\<close>

datatype ub = Dangling_pointer | Division_by_zero | Vector_out_of_range | Unterminated_string

datatype fault =
    Cannot_create path
  | Cannot_open path
  | Write_failed path
  | Undefined ub

record CfdpReceiver =
  r_journal :: Journal
  r_recv_dir :: path
  r_state :: JournalState
  r_transfer_active :: bool
  r_last_acked_id :: u32
  r_current_chunk_index :: u32
  r_max_chunk_seen :: u32
  r_packet_list :: PacketList
  r_world :: World \<comment> \<open>the transport and the file system, as reached by the receiver\<close>

type_synonym outcome = "(fault \<times> World) + CfdpReceiver"

text \<open>
  The constructor: \<open>state_\<close> has no initializer, so its contents are whatever the memory
  held.
\<close>

definition receiver_new :: "path \<Rightarrow> path \<Rightarrow> JournalState \<Rightarrow> World \<Rightarrow> CfdpReceiver" where
  "receiver_new state_dir recv_dir memory w =
     \<lparr>r_journal = journal_new state_dir, r_recv_dir = recv_dir, r_state = memory,
      r_transfer_active = False, r_last_acked_id = 0, r_current_chunk_index = UINT32_MAX,
      r_max_chunk_seen = 0, r_packet_list = pl_new, r_world = w\<rparr>"

definition throw :: "fault \<Rightarrow> CfdpReceiver \<Rightarrow> outcome" where
  "throw f rx = Inl (f, r_world rx)"

definition in_world :: "(World \<Rightarrow> World) \<Rightarrow> CfdpReceiver \<Rightarrow> CfdpReceiver" where
  "in_world f rx = rx\<lparr>r_world := f (r_world rx)\<rparr>"

definition transport_send :: "bytes \<Rightarrow> CfdpReceiver \<Rightarrow> CfdpReceiver" where
  "transport_send pdu = in_world (transmit pdu)"

section \<open>Helpers\<close>

definition recv_file_path :: "CfdpReceiver \<Rightarrow> path" where
  "recv_file_path rx = cstr (js_dest_path (r_state rx))"

definition chunk_file_offset :: "JournalState \<Rightarrow> u32 \<Rightarrow> u64" where
  "chunk_file_offset s ci = ucast ci * ucast (js_chunk_size s)"

text \<open>
  The size of a chunk and its number of packets, as both \<open>handle_data\<close> and
  \<open>check_completion\<close> compute them: the subtraction wraps in 64 bits, the sum in 32 bits,
  and the division traps on a zero packet size.
\<close>

definition chunk_bytes :: "JournalState \<Rightarrow> u32 \<Rightarrow> u32" where
  "chunk_bytes s ci =
     ucast (min (js_file_size s - chunk_file_offset s ci) (ucast (js_chunk_size s)))"

definition expected_packets :: "JournalState \<Rightarrow> u32 \<Rightarrow> u32 option" where
  "expected_packets s ci =
     (if js_packet_size s = 0 then None
      else Some ((chunk_bytes s ci + js_packet_size s - 1) div js_packet_size s))"

definition readable :: "path \<Rightarrow> World \<Rightarrow> bytes option" where
  "readable p w = (if f_open (w_faults w) p then None else w_files w p)"

definition verify_file_checksum :: "zlib_crc32 \<Rightarrow> CfdpReceiver \<Rightarrow> bool" where
  "verify_file_checksum zcrc rx \<longleftrightarrow>
     crc32_file zcrc (readable (recv_file_path rx) (r_world rx)) =
       js_checksum_expected (r_state rx)"

section \<open>Outgoing PDUs\<close>

definition send_ack :: "u32 \<Rightarrow> CfdpReceiver \<Rightarrow> CfdpReceiver" where
  "send_ack chunk_index rx =
     transport_send (ack_pdu \<lparr>a_transaction_id = js_transaction_id (r_state rx),
       a_chunk_index = chunk_index\<rparr>) rx"

definition nak_of_ranges :: "u32 \<Rightarrow> u32 \<Rightarrow> (u32 \<times> u32) list \<Rightarrow> NakPdu" where
  "nak_of_ranges tid chunk_index ranges =
     \<lparr>n_transaction_id = tid,
      n_missing_packets = map (\<lambda>(first, last). \<lparr>r_chunk_index = chunk_index,
        r_first_packet = first, r_last_packet = last\<rparr>) ranges\<rparr>"

definition send_nak_packets :: "u32 \<Rightarrow> CfdpReceiver \<Rightarrow> outcome" where
  "send_nak_packets chunk_index rx =
     (case pl_compute_nak_ranges (r_packet_list rx) of
        None \<Rightarrow> throw (Undefined Dangling_pointer) rx
      | Some ranges \<Rightarrow>
          if ranges = [] then Inr rx
          else Inr (transport_send (serialize_nak (nak_of_ranges
            (js_transaction_id (r_state rx)) chunk_index ranges)) rx))"

definition handle_resume_query :: "ResumeQueryPdu \<Rightarrow> CfdpReceiver \<Rightarrow> outcome" where
  "handle_resume_query query rx =
     (let first =
        (if \<not> r_transfer_active rx \<or>
            js_transaction_id (r_state rx) \<noteq> q_transaction_id query then 0
         else case compute_missing_chunks (r_state rx) of
           [] \<Rightarrow> UINT32_MAX
         | r # rs \<Rightarrow> fst r)
      in Inr (transport_send (resume_info_pdu
        \<lparr>i_transaction_id = q_transaction_id query, i_first_missing_chunk = first\<rparr>) rx))"

section \<open>Chunk logic\<close>

definition check_completion :: "zlib_crc32 \<Rightarrow> CfdpReceiver \<Rightarrow> outcome" where
  "check_completion zcrc rx =
     (if \<not> js_eof_received (r_state rx) then Inr rx
      else if r_current_chunk_index rx \<noteq> UINT32_MAX \<and> \<not> pl_is_complete (r_packet_list rx) then
        send_nak_packets (r_current_chunk_index rx) rx
      else
        let all_missing = compute_missing_chunks (r_state rx) in
        case find (\<lambda>cr. \<not> fst cr > r_max_chunk_seen rx) all_missing of
          Some cr \<Rightarrow>
            (case expected_packets (r_state rx) (fst cr) of
               None \<Rightarrow> throw (Undefined Division_by_zero) rx
             | Some total_pkts \<Rightarrow>
                 Inr (transport_send (serialize_nak (nak_of_ranges
                   (js_transaction_id (r_state rx)) (fst cr) [(0, total_pkts - 1)])) rx))
        | None \<Rightarrow>
            if all_missing \<noteq> [] then Inr rx
            else if \<not> verify_file_checksum zcrc rx then
              Inr (in_world (\<lambda>w. snd (journal_remove (r_journal rx) w))
                (rx\<lparr>r_transfer_active := False\<rparr>))
            else
              let rx = send_ack UINT32_MAX (rx\<lparr>r_last_acked_id := js_transaction_id (r_state rx)\<rparr>) in
              Inr (in_world (\<lambda>w. snd (journal_remove (r_journal rx) w))
                (rx\<lparr>r_transfer_active := False\<rparr>)))"

text \<open>
  Opening the output file: read-write if it is there, otherwise created, extended to the
  file size by writing its last byte (a failure of this write is not checked), and reopened.
  \<open>seekp\<close> takes a signed 64-bit offset and fails on a negative one.
\<close>

definition seekable :: "u64 \<Rightarrow> bool" where
  "seekable off \<longleftrightarrow> 0 \<le> sint off"

definition open_output :: "path \<Rightarrow> u64 \<Rightarrow> World \<Rightarrow> (fault \<times> World) + World" where
  "open_output p file_size w =
     (if w_files w p \<noteq> None \<and> \<not> f_open (w_faults w) p then Inr w
      else if file_size > 0 then
        if f_open (w_faults w) p then Inl (Cannot_create p, w)
        else let w = do_op (Creat p) w in
          Inr (if seekable (file_size - 1) then snd (fs_write p (unat (file_size - 1)) [0] w) else w)
      else Inl (Cannot_open p, w))"

definition write_chunk :: "path \<Rightarrow> u64 \<Rightarrow> bytes \<Rightarrow> World \<Rightarrow> (fault \<times> World) + World" where
  "write_chunk p offset data w =
     (if \<not> seekable offset then Inl (Write_failed p, w)
      else case fs_write p (unat offset) data w of (ok, w') \<Rightarrow>
        if \<not> ok then Inl (Write_failed p, w')
        else Inr (if f_open (w_faults w') p then w' else do_op (Datasync p) w'))"

definition flush_chunk :: "zlib_crc32 \<Rightarrow> u32 \<Rightarrow> CfdpReceiver \<Rightarrow> outcome" where
  "flush_chunk zcrc chunk_index rx =
     (case pl_assemble (r_packet_list rx) of
        None \<Rightarrow> throw (Undefined Dangling_pointer) rx
      | Some data \<Rightarrow>
     (case open_output (recv_file_path rx) (js_file_size (r_state rx)) (r_world rx) of
        Inl e \<Rightarrow> Inl e
      | Inr w1 \<Rightarrow>
     (case write_chunk (recv_file_path rx) (chunk_file_offset (r_state rx) chunk_index) data w1 of
        Inl e \<Rightarrow> Inl e
      | Inr w2 \<Rightarrow>
        let rx = rx\<lparr>r_world := w2\<rparr> in
        if unat chunk_index \<ge> length (js_chunk_done (r_state rx)) then
          throw (Undefined Vector_out_of_range) rx
        else
          let rx = rx\<lparr>r_state := set_done chunk_index (r_state rx)\<rparr>;
              rx = in_world (\<lambda>w. snd (mark_chunk_done (r_journal rx) chunk_index w)) rx;
              rx = send_ack chunk_index rx
          in case pl_clear (r_packet_list rx) of
               None \<Rightarrow> throw (Undefined Dangling_pointer) rx
             | Some pl \<Rightarrow>
                 let rx = rx\<lparr>r_packet_list := pl, r_current_chunk_index := UINT32_MAX\<rparr>
                 in if js_eof_received (r_state rx) then check_completion zcrc rx else Inr rx)))"

section \<open>PDU handlers\<close>

fun contains :: "bytes \<Rightarrow> bytes \<Rightarrow> bool" where
  "contains [] pat \<longleftrightarrow> pat = []"
| "contains (x # xs) pat \<longleftrightarrow> take (length pat) (x # xs) = pat \<or> contains xs pat"

definition safe_filename :: "bytes \<Rightarrow> bool" where
  "safe_filename fname \<longleftrightarrow>
     \<not> (fname = [] \<or> contains fname (ascii ''/'') \<or> contains fname (ascii ''..''))"

definition metadata_state :: "path \<Rightarrow> MetadataPdu \<Rightarrow> JournalState \<Rightarrow> JournalState" where
  "metadata_state recv_dir meta s =
     \<lparr>js_transaction_id = m_transaction_id meta, js_file_size = m_file_size meta,
      js_chunk_size = m_chunk_size meta, js_packet_size = m_packet_size meta,
      js_total_chunks = m_total_chunks meta, js_checksum_expected = m_checksum meta,
      js_eof_received = False,
      js_filename = strncpy (js_filename s) (m_filename meta) (256 - 1),
      js_dest_path = snprintf (js_dest_path s) 512
        (recv_dir @ ascii ''/'' @ cstr (m_filename meta)),
      js_chunk_done = replicate (unat (m_total_chunks meta)) False\<rparr>"

definition handle_metadata :: "MetadataPdu \<Rightarrow> CfdpReceiver \<Rightarrow> outcome" where
  "handle_metadata meta rx =
     (if r_transfer_active rx \<and> js_transaction_id (r_state rx) = m_transaction_id meta then Inr rx
      else if \<not> r_transfer_active rx \<and> r_last_acked_id rx = m_transaction_id meta then
        Inr (send_ack UINT32_MAX rx)
      else if m_total_chunks meta = 0 \<or> m_total_chunks meta > push_bit 20 1 then Inr rx
      else if m_packet_size meta = 0 \<or> m_packet_size meta > DEFAULT_PACKET_SIZE then Inr rx
      else if m_chunk_size meta = 0 then Inr rx
      else if \<not> safe_filename (cstr (m_filename meta)) then Inr rx
      else
        let rx = (if journal_exists (r_journal rx) (r_world rx)
                  then in_world (\<lambda>w. snd (journal_remove (r_journal rx) w)) rx else rx)
        in if \<not> terminated (m_filename meta) then throw (Undefined Unterminated_string) rx
        else
          let rx = rx\<lparr>r_state := metadata_state (r_recv_dir rx) meta (r_state rx)\<rparr>;
              rx = in_world (\<lambda>w. snd (journal_create (r_journal rx) (r_state rx) w)) rx
          in case pl_clear (r_packet_list rx) of
               None \<Rightarrow> throw (Undefined Dangling_pointer) rx
             | Some pl \<Rightarrow> Inr (rx\<lparr>r_transfer_active := True, r_current_chunk_index := UINT32_MAX,
                 r_max_chunk_seen := 0, r_packet_list := pl\<rparr>))"

text \<open>The start of a new chunk in \<open>handle_data\<close>: a NAK for the one in progress, then a new list.\<close>

definition switch_chunk :: "u32 \<Rightarrow> u32 \<Rightarrow> CfdpReceiver \<Rightarrow> outcome" where
  "switch_chunk ci total_packets rx =
     (case (if r_current_chunk_index rx \<noteq> UINT32_MAX \<and> \<not> pl_is_complete (r_packet_list rx)
            then send_nak_packets (r_current_chunk_index rx) rx else Inr rx) of
        Inl e \<Rightarrow> Inl e
      | Inr rx \<Rightarrow>
          (case Option.bind (pl_clear (r_packet_list rx)) (pl_init total_packets) of
             None \<Rightarrow> throw (Undefined Dangling_pointer) rx
           | Some pl \<Rightarrow> Inr (rx\<lparr>r_packet_list := pl, r_current_chunk_index := ci\<rparr>)))"

definition store_packet :: "zlib_crc32 \<Rightarrow> DataPdu \<Rightarrow> CfdpReceiver \<Rightarrow> outcome" where
  "store_packet zcrc dpdu rx =
     (let valid = (crc8 (d_data dpdu) = d_crc8 dpdu) in
      case pl_insert (d_packet_index dpdu) (d_data dpdu) valid (r_packet_list rx) of
        None \<Rightarrow> throw (Undefined Dangling_pointer) rx
      | Some (_, pl) \<Rightarrow>
          let rx = rx\<lparr>r_packet_list := pl\<rparr> in
          if pl_is_complete (r_packet_list rx) then flush_chunk zcrc (d_chunk_index dpdu) rx
          else Inr rx)"

definition note_seen :: "u32 \<Rightarrow> CfdpReceiver \<Rightarrow> CfdpReceiver" where
  "note_seen ci rx = (if ci > r_max_chunk_seen rx then rx\<lparr>r_max_chunk_seen := ci\<rparr> else rx)"

definition handle_data :: "zlib_crc32 \<Rightarrow> DataPdu \<Rightarrow> CfdpReceiver \<Rightarrow> outcome" where
  "handle_data zcrc dpdu rx =
     (if \<not> r_transfer_active rx then Inr rx
      else if d_transaction_id dpdu \<noteq> js_transaction_id (r_state rx) then Inr rx
      else if d_data_len dpdu = 0 \<or> d_data_len dpdu > DEFAULT_PACKET_SIZE then Inr rx
      else if d_chunk_index dpdu \<ge> js_total_chunks (r_state rx) then Inr rx
      else case expected_packets (r_state rx) (d_chunk_index dpdu) of
        None \<Rightarrow> throw (Undefined Division_by_zero) rx
      | Some expected_pkts \<Rightarrow>
          if d_total_packets dpdu \<noteq> expected_pkts then Inr rx
          else
            let ci = d_chunk_index dpdu;
                rx = note_seen ci rx
            in if unat ci < length (js_chunk_done (r_state rx)) \<and>
                  js_chunk_done (r_state rx) ! unat ci then
                 if d_packet_index dpdu = 0 then Inr (send_ack ci rx) else Inr rx
               else case (if ci \<noteq> r_current_chunk_index rx
                          then switch_chunk ci (d_total_packets dpdu) rx else Inr rx) of
                 Inl e \<Rightarrow> Inl e
               | Inr rx \<Rightarrow> store_packet zcrc dpdu rx)"

definition handle_eof :: "zlib_crc32 \<Rightarrow> EofPdu \<Rightarrow> CfdpReceiver \<Rightarrow> outcome" where
  "handle_eof zcrc eof rx =
     (if \<not> r_transfer_active rx then Inr rx
      else if e_transaction_id eof \<noteq> js_transaction_id (r_state rx) then Inr rx
      else
        let rx = (if \<not> js_eof_received (r_state rx) then
             in_world (\<lambda>w. snd (mark_eof_received (r_journal rx) w))
               (rx\<lparr>r_state := set_eof (r_state rx)\<rparr>)
           else rx)
        in check_completion zcrc rx)"

section \<open>Entry points\<close>

definition on_pdu_received :: "zlib_crc32 \<Rightarrow> bytes \<Rightarrow> CfdpReceiver \<Rightarrow> outcome" where
  "on_pdu_received zcrc raw_pdu rx =
     (case raw_pdu of
        [] \<Rightarrow> Inr rx
      | t # payload \<Rightarrow>
         (case pdu_type_of t of
            Some Metadata \<Rightarrow>
              (case parse_metadata payload of None \<Rightarrow> Inr rx | Some meta \<Rightarrow> handle_metadata meta rx)
          | Some Data \<Rightarrow>
              (case parse_data payload of None \<Rightarrow> Inr rx | Some dpdu \<Rightarrow> handle_data zcrc dpdu rx)
          | Some Eof \<Rightarrow>
              (case parse_eof payload of None \<Rightarrow> Inr rx | Some eof \<Rightarrow> handle_eof zcrc eof rx)
          | Some ResumeQuery \<Rightarrow>
              (case parse_resume_query payload of None \<Rightarrow> Inr rx
               | Some query \<Rightarrow> handle_resume_query query rx)
          | _ \<Rightarrow> Inr rx))"

text \<open>
  \<open>on_boot\<close> prints the file name of the loaded state as a C string: a name without
  terminator is read past its end.
\<close>

definition on_boot :: "zlib_crc32 \<Rightarrow> CfdpReceiver \<Rightarrow> outcome" where
  "on_boot zcrc rx =
     (if \<not> journal_exists (r_journal rx) (r_world rx) then Inr rx
      else case journal_load (r_journal rx) (r_world rx) (r_state rx) of (ok, s) \<Rightarrow>
        let rx = rx\<lparr>r_state := s\<rparr> in
        if \<not> ok then Inr (in_world (\<lambda>w. snd (journal_remove (r_journal rx) w)) rx)
        else if \<not> terminated (js_filename (r_state rx)) then throw (Undefined Unterminated_string) rx
        else case pl_clear (r_packet_list rx) of
          None \<Rightarrow> throw (Undefined Dangling_pointer) rx
        | Some pl \<Rightarrow>
            let rx = rx\<lparr>r_transfer_active := True, r_current_chunk_index := UINT32_MAX,
                  r_max_chunk_seen := 0, r_packet_list := pl\<rparr>
            in if compute_missing_chunks (r_state rx) = [] \<and> js_eof_received (r_state rx)
               then check_completion zcrc rx else Inr rx)"

section \<open>Case analysis of data PDUs\<close>

lemma note_seen_simps [simp]:
  "r_journal (note_seen ci rx) = r_journal rx" "r_recv_dir (note_seen ci rx) = r_recv_dir rx"
  "r_state (note_seen ci rx) = r_state rx"
  "r_transfer_active (note_seen ci rx) = r_transfer_active rx"
  "r_last_acked_id (note_seen ci rx) = r_last_acked_id rx"
  "r_current_chunk_index (note_seen ci rx) = r_current_chunk_index rx"
  "r_packet_list (note_seen ci rx) = r_packet_list rx"
  "r_world (note_seen ci rx) = r_world rx"
  "r_max_chunk_seen (note_seen ci rx) = max (r_max_chunk_seen rx) ci"
  by (auto simp: note_seen_def max_def not_less)

text \<open>A data PDU that passes every check.\<close>

definition data_for :: "DataPdu \<Rightarrow> CfdpReceiver \<Rightarrow> bool" where
  "data_for dpdu rx \<longleftrightarrow>
     r_transfer_active rx \<and> d_transaction_id dpdu = js_transaction_id (r_state rx) \<and>
     d_data_len dpdu \<noteq> 0 \<and> d_data_len dpdu \<le> DEFAULT_PACKET_SIZE \<and>
     d_chunk_index dpdu < js_total_chunks (r_state rx) \<and>
     expected_packets (r_state rx) (d_chunk_index dpdu) = Some (d_total_packets dpdu)"

definition chunk_finished :: "JournalState \<Rightarrow> u32 \<Rightarrow> bool" where
  "chunk_finished s ci \<longleftrightarrow> unat ci < length (js_chunk_done s) \<and> js_chunk_done s ! unat ci"

lemma handle_data_elim:
  obtains (dropped) "\<not> data_for dpdu rx" "handle_data zcrc dpdu rx = Inr rx"
  | (divide) "r_transfer_active rx" "expected_packets (r_state rx) (d_chunk_index dpdu) = None"
      "handle_data zcrc dpdu rx = throw (Undefined Division_by_zero) rx"
  | (known) "data_for dpdu rx" "chunk_finished (r_state rx) (d_chunk_index dpdu)"
      "handle_data zcrc dpdu rx = Inr (if d_packet_index dpdu = 0
         then send_ack (d_chunk_index dpdu) (note_seen (d_chunk_index dpdu) rx)
         else note_seen (d_chunk_index dpdu) rx)"
  | (same) "data_for dpdu rx" "\<not> chunk_finished (r_state rx) (d_chunk_index dpdu)"
      "d_chunk_index dpdu = r_current_chunk_index rx"
      "handle_data zcrc dpdu rx = store_packet zcrc dpdu (note_seen (d_chunk_index dpdu) rx)"
  | (switched) "data_for dpdu rx" "\<not> chunk_finished (r_state rx) (d_chunk_index dpdu)"
      "d_chunk_index dpdu \<noteq> r_current_chunk_index rx"
      "handle_data zcrc dpdu rx =
         (case switch_chunk (d_chunk_index dpdu) (d_total_packets dpdu)
             (note_seen (d_chunk_index dpdu) rx) of
            Inl e \<Rightarrow> Inl e | Inr rx \<Rightarrow> store_packet zcrc dpdu rx)"
proof -
  note defs = handle_data_def Let_def chunk_finished_def data_for_def not_less not_le
  show thesis
  proof (cases "data_for dpdu rx")
    case False
    then have "handle_data zcrc dpdu rx = Inr rx \<or>
        r_transfer_active rx \<and> expected_packets (r_state rx) (d_chunk_index dpdu) = None \<and>
        handle_data zcrc dpdu rx = throw (Undefined Division_by_zero) rx"
      by (auto simp: defs split: option.split)
    with False show thesis using dropped divide by blast
  next
    case True
    show thesis
    proof (cases "chunk_finished (r_state rx) (d_chunk_index dpdu)")
      case fin: True
      with True show thesis by (intro known) (auto simp: defs)
    next
      case nf: False
      show thesis
      proof (cases "d_chunk_index dpdu = r_current_chunk_index rx")
        case cur: True
        with True nf show thesis by (intro same) (auto simp: defs)
      next
        case False
        with True nf show thesis by (intro switched) (auto simp: defs)
      qed
    qed
  qed
qed

end
