(* ===== verification/Cfdp_Receiver_Inv.thy ===== *)
theory Cfdp_Receiver_Inv
  imports Cfdp_Receiver
begin

text \<open>
  What the receiver keeps true between any two PDUs, whatever arrives and whatever calls
  the operating system refuses: the packet list is well formed, the transfer parameters
  passed the checks of \<open>handle_metadata\<close>, the vector of finished chunks has the announced
  length, a chunk in progress is an unfinished chunk with the expected number of slots, and
  a readable journal satisfies the same conditions. Handlers are also shown to touch only
  the two journal files and files directly in the receive directory.
\<close>

section \<open>The invariant\<close>

definition dest_ok :: "path \<Rightarrow> bytes \<Rightarrow> bool" where
  "dest_ok recv_dir dest \<longleftrightarrow>
     terminated dest \<and> (\<exists>fname. cstr dest = recv_dir @ ascii ''/'' @ fname \<and> safe_filename fname)"

definition state_ok :: "path \<Rightarrow> JournalState \<Rightarrow> bool" where
  "state_ok recv_dir s \<longleftrightarrow>
     js_fits s \<and> length (js_chunk_done s) = unat (js_total_chunks s) \<and>
     0 < js_total_chunks s \<and> js_total_chunks s \<le> 2 ^ 20 \<and>
     0 < js_packet_size s \<and> js_packet_size s \<le> DEFAULT_PACKET_SIZE \<and>
     0 < js_chunk_size s \<and> dest_ok recv_dir (js_dest_path s)"

definition journal_ok :: "path \<Rightarrow> path \<Rightarrow> World \<Rightarrow> bool" where
  "journal_ok dir recv_dir w \<longleftrightarrow>
     (\<forall>s. stored (journal_new dir) w = Some s \<longrightarrow> state_ok recv_dir s)"

text \<open>
  The directories: distinct, the receive directory a C string of at most 255 bytes, so that
  the destination path is never cut.
\<close>

definition dirs_ok :: "path \<Rightarrow> path \<Rightarrow> bool" where
  "dirs_ok dir recv_dir \<longleftrightarrow> dir \<noteq> recv_dir \<and> 0 \<notin> set recv_dir \<and> length recv_dir \<le> 255"

definition rx_base :: "path \<Rightarrow> path \<Rightarrow> CfdpReceiver \<Rightarrow> bool" where
  "rx_base dir recv_dir rx \<longleftrightarrow>
     dirs_ok dir recv_dir \<and> r_journal rx = journal_new dir \<and> r_recv_dir rx = recv_dir \<and>
     pl_inv (r_packet_list rx) \<and> arrays_ok (r_state rx) \<and>
     (r_transfer_active rx \<longrightarrow> state_ok recv_dir (r_state rx)) \<and>
     journal_ok dir recv_dir (r_world rx)"

definition chunk_open :: "CfdpReceiver \<Rightarrow> bool" where
  "chunk_open rx \<longleftrightarrow>
     r_transfer_active rx \<and>
     unat (r_current_chunk_index rx) < length (js_chunk_done (r_state rx)) \<and>
     \<not> js_chunk_done (r_state rx) ! unat (r_current_chunk_index rx) \<and>
     (\<exists>n. expected_packets (r_state rx) (r_current_chunk_index rx) = Some n \<and>
        length (pl_slots (r_packet_list rx)) = unat n)"

definition rx_inv :: "path \<Rightarrow> path \<Rightarrow> CfdpReceiver \<Rightarrow> bool" where
  "rx_inv dir recv_dir rx \<longleftrightarrow>
     rx_base dir recv_dir rx \<and>
     (if r_current_chunk_index rx = UINT32_MAX then pl_slots (r_packet_list rx) = []
      else chunk_open rx \<and> \<not> pl_is_complete (r_packet_list rx))"

definition outcome_ok :: "path \<Rightarrow> path \<Rightarrow> fault set \<Rightarrow> outcome \<Rightarrow> bool" where
  "outcome_ok dir recv_dir F out \<longleftrightarrow>
     (case out of Inl (f, w) \<Rightarrow> f \<in> F \<and> journal_ok dir recv_dir w
      | Inr rx \<Rightarrow> rx_inv dir recv_dir rx)"

definition io_faults :: "fault set" where
  "io_faults = range Cannot_create \<union> range Cannot_open \<union> range Write_failed"

lemma outcome_ok_Inr [simp]: "outcome_ok dir recv_dir F (Inr rx) = rx_inv dir recv_dir rx"
  by (simp add: outcome_ok_def)

lemma outcome_ok_Inl [simp]:
  "outcome_ok dir recv_dir F (Inl (f, w)) \<longleftrightarrow> f \<in> F \<and> journal_ok dir recv_dir w"
  by (simp add: outcome_ok_def)

lemma outcome_ok_mono: "outcome_ok dir recv_dir F out \<Longrightarrow> F \<subseteq> G \<Longrightarrow> outcome_ok dir recv_dir G out"
  by (auto simp: outcome_ok_def split: sum.splits)

section \<open>Paths\<close>

lemma contains_slash: "contains xs [47] \<longleftrightarrow> 47 \<in> set xs"
  by (induction xs) auto

lemma split_last_slash:
  assumes "47 \<notin> set f" and "47 \<notin> set g" and "a @ (47 :: u8) # f = b @ 47 # g"
  shows "a = b \<and> f = g"
proof -
  have "takeWhile (\<lambda>x. x \<noteq> 47) (rev (c @ 47 # h)) = rev h" if "47 \<notin> set h" for c h :: bytes
    using that by (simp add: takeWhile_append takeWhile_eq_all_conv takeWhile_tail)
  from this [OF assms(1), of a] this [OF assms(2), of b] assms(3) have "f = g" by simp
  with assms(3) show ?thesis by simp
qed

lemma safe_no_slash: "safe_filename fname \<Longrightarrow> 47 \<notin> set fname"
  by (auto simp: safe_filename_def contains_slash)

definition journal_paths :: "path \<Rightarrow> path set" where
  "journal_paths dir = {dir @ ascii ''/state.bin'', dir @ ascii ''/state.bin.tmp''}"

definition output_paths :: "path \<Rightarrow> path set" where
  "output_paths recv_dir = {recv_dir @ ascii ''/'' @ fname | fname. safe_filename fname}"

lemma journal_paths_new:
  "journal_paths dir = {j_state_path (journal_new dir), j_tmp_path (journal_new dir)}"
  by (simp add: journal_paths_def journal_new_def)

lemma paths_disjoint:
  assumes "dirs_ok dir recv_dir"
  shows "journal_paths dir \<inter> output_paths recv_dir = {}"
proof -
  have "p \<notin> output_paths recv_dir" if "p = dir @ 47 # g" "47 \<notin> set g" for p g
  proof
    assume "p \<in> output_paths recv_dir"
    then obtain f where "p = recv_dir @ 47 # f" "safe_filename f" by (auto simp: output_paths_def)
    with that have "recv_dir = dir"
      using split_last_slash [OF safe_no_slash, of f g recv_dir dir] by auto
    with assms show False by (simp add: dirs_ok_def)
  qed
  then show ?thesis by (auto simp: journal_paths_def)
qed

lemma output_path:
  "state_ok recv_dir (r_state rx) \<Longrightarrow> recv_file_path rx \<in> output_paths recv_dir"
  by (auto simp: state_ok_def dest_ok_def output_paths_def recv_file_path_def)

section \<open>Journal operations keep the journal in order\<close>

lemma journal_ok_same:
  "journal_ok dir recv_dir w \<Longrightarrow>
     w_files w' (j_state_path (journal_new dir)) = w_files w (j_state_path (journal_new dir)) \<Longrightarrow>
     journal_ok dir recv_dir w'"
  by (simp add: journal_ok_def stored_def stored_in_def)

lemma journal_ok_transmit [simp]:
  "journal_ok dir recv_dir (transmit pdu w) = journal_ok dir recv_dir w"
  by (simp add: journal_ok_def stored_def)

lemma journal_ok_do_op:
  "journal_ok dir recv_dir w \<Longrightarrow> j_state_path (journal_new dir) \<notin> touches op \<Longrightarrow>
     journal_ok dir recv_dir (do_op op w)"
  by (erule journal_ok_same) (simp add: apply_op_untouched)

lemma journal_ok_atomic_write:
  assumes "journal_ok dir recv_dir w" and "state_ok recv_dir s"
  shows "journal_ok dir recv_dir (snd (atomic_write (journal_new dir) s w))"
proof -
  let ?j = "journal_new dir"
  obtain ok w' where run: "atomic_write ?j s w = (ok, w')" by fastforce
  from atomic_write_effects [OF paths_ok_new run]
  have "w_files w' (j_state_path ?j) =
      (if ok then Some (journal_image s) else w_files w (j_state_path ?j))"
    by blast
  moreover have "decode_journal (journal_image s) = Some s"
    using decode_journal_image [of s "[]"] assms(2) by (simp add: state_ok_def)
  ultimately show ?thesis
    using assms run by (auto simp: journal_ok_def stored_def stored_in_def split: if_splits)
qed

lemma journal_ok_remove:
  "journal_ok dir recv_dir w \<Longrightarrow> journal_ok dir recv_dir (snd (journal_remove (journal_new dir) w))"
  by (auto simp: journal_remove_def journal_ok_def stored_def stored_in_def)

lemma state_ok_set [simp]:
  "state_ok recv_dir (set_done ci s) = state_ok recv_dir s"
  "state_ok recv_dir (set_eof s) = state_ok recv_dir s"
  by (simp_all add: state_ok_def)

lemma read_from_disk_stored:
  "read_from_disk j w unset_state = (True, s) \<Longrightarrow> stored j w = Some s"
  by (simp add: read_from_disk_decode stored_def stored_in_def)

lemma journal_ok_mark_chunk_done:
  assumes "journal_ok dir recv_dir w"
  shows "journal_ok dir recv_dir (snd (mark_chunk_done (journal_new dir) ci w))"
proof -
  obtain ok s where run: "read_from_disk (journal_new dir) w unset_state = (ok, s)" by fastforce
  show ?thesis
  proof (cases "ok \<and> unat ci < length (js_chunk_done s)")
    case True
    with run have "stored (journal_new dir) w = Some s" by (simp add: read_from_disk_stored)
    with assms have "state_ok recv_dir (set_done ci s)" by (simp add: journal_ok_def)
    from journal_ok_atomic_write [OF assms this] True run show ?thesis
      by (simp add: mark_chunk_done_def set_done_def)
  next
    case False
    with run assms show ?thesis by (auto simp: mark_chunk_done_def)
  qed
qed

lemma journal_ok_mark_eof_received:
  assumes "journal_ok dir recv_dir w"
  shows "journal_ok dir recv_dir (snd (mark_eof_received (journal_new dir) w))"
proof -
  obtain ok s where run: "read_from_disk (journal_new dir) w unset_state = (ok, s)" by fastforce
  show ?thesis
  proof (cases ok)
    case True
    with run have "stored (journal_new dir) w = Some s" by (simp add: read_from_disk_stored)
    with assms have "state_ok recv_dir (set_eof s)" by (simp add: journal_ok_def)
    from journal_ok_atomic_write [OF assms this] True run show ?thesis
      by (simp add: mark_eof_received_def set_eof_def)
  next
    case False
    with run assms show ?thesis by (simp add: mark_eof_received_def)
  qed
qed

lemma journal_ok_fs_write:
  "journal_ok dir recv_dir w \<Longrightarrow> p \<noteq> j_state_path (journal_new dir) \<Longrightarrow>
     journal_ok dir recv_dir (snd (fs_write p off bs w))"
  using fs_write_ran [of p off bs w] by (auto intro!: journal_ok_do_op)

section \<open>Preservation\<close>

lemma in_world_simps [simp]:
  "r_journal (in_world f rx) = r_journal rx" "r_recv_dir (in_world f rx) = r_recv_dir rx"
  "r_state (in_world f rx) = r_state rx" "r_transfer_active (in_world f rx) = r_transfer_active rx"
  "r_last_acked_id (in_world f rx) = r_last_acked_id rx"
  "r_current_chunk_index (in_world f rx) = r_current_chunk_index rx"
  "r_max_chunk_seen (in_world f rx) = r_max_chunk_seen rx"
  "r_packet_list (in_world f rx) = r_packet_list rx"
  "r_world (in_world f rx) = f (r_world rx)"
  by (simp_all add: in_world_def)

lemma rx_base_in_world:
  "rx_base dir recv_dir rx \<Longrightarrow> journal_ok dir recv_dir (f (r_world rx)) \<Longrightarrow>
     rx_base dir recv_dir (in_world f rx)"
  by (simp add: rx_base_def)

lemma chunk_open_in_world [simp]: "chunk_open (in_world f rx) = chunk_open rx"
  by (simp add: chunk_open_def)

lemma rx_inv_in_world:
  "rx_inv dir recv_dir rx \<Longrightarrow> journal_ok dir recv_dir (f (r_world rx)) \<Longrightarrow>
     rx_inv dir recv_dir (in_world f rx)"
  by (simp add: rx_inv_def rx_base_in_world)

lemma rx_inv_send [simp]:
  "rx_inv dir recv_dir (transport_send pdu rx) = rx_inv dir recv_dir rx"
  by (simp add: transport_send_def rx_inv_def rx_base_def)

lemma rx_base_send [simp]:
  "rx_base dir recv_dir (transport_send pdu rx) = rx_base dir recv_dir rx"
  by (simp add: transport_send_def rx_base_def)

lemma transport_send_simps [simp]:
  "r_journal (transport_send pdu rx) = r_journal rx"
  "r_recv_dir (transport_send pdu rx) = r_recv_dir rx"
  "r_state (transport_send pdu rx) = r_state rx"
  "r_transfer_active (transport_send pdu rx) = r_transfer_active rx"
  "r_last_acked_id (transport_send pdu rx) = r_last_acked_id rx"
  "r_current_chunk_index (transport_send pdu rx) = r_current_chunk_index rx"
  "r_max_chunk_seen (transport_send pdu rx) = r_max_chunk_seen rx"
  "r_packet_list (transport_send pdu rx) = r_packet_list rx"
  "r_world (transport_send pdu rx) = transmit pdu (r_world rx)"
  by (simp_all add: transport_send_def)

lemma rx_baseD:
  assumes "rx_base dir recv_dir rx"
  shows "pl_inv (r_packet_list rx)" and "r_journal rx = journal_new dir"
    and "journal_ok dir recv_dir (r_world rx)"
    and "r_transfer_active rx \<Longrightarrow> state_ok recv_dir (r_state rx)"
  using assms by (simp_all add: rx_base_def)

lemma send_nak_packets_run:
  assumes "pl_inv (r_packet_list rx)"
  shows "\<exists>rx'. send_nak_packets ci rx = Inr rx' \<and> (rx' = rx \<or> (\<exists>pdu. rx' = transport_send pdu rx))"
  using pls.nak_ok [OF assms] by (auto simp: send_nak_packets_def split: option.splits)

lemma send_nak_packets_ok:
  assumes "rx_inv dir recv_dir rx"
  shows "outcome_ok dir recv_dir {} (send_nak_packets ci rx)"
proof -
  from assms have "pl_inv (r_packet_list rx)" by (simp add: rx_inv_def rx_base_def)
  from send_nak_packets_run [OF this, of ci] assms show ?thesis by auto
qed

lemma expected_packets_some:
  "state_ok recv_dir s \<Longrightarrow> \<exists>n. expected_packets s ci = Some n"
  by (auto simp: expected_packets_def state_ok_def)

text \<open>Ending a transfer removes the journal; nothing of the chunk in progress is left.\<close>

lemma rx_inv_finish:
  assumes "rx_inv dir recv_dir rx" and "r_current_chunk_index rx = UINT32_MAX"
  shows "rx_inv dir recv_dir (in_world (\<lambda>w. snd (journal_remove (r_journal rx) w))
    (rx\<lparr>r_transfer_active := False, r_last_acked_id := t\<rparr>))"
  using assms by (auto simp: rx_inv_def rx_base_def intro: journal_ok_remove)

lemma check_completion_ok:
  assumes inv: "rx_inv dir recv_dir rx" and act: "r_transfer_active rx"
  shows "outcome_ok dir recv_dir {} (check_completion zcrc rx)"
proof -
  have st: "state_ok recv_dir (r_state rx)"
    using inv act by (simp add: rx_inv_def rx_base_def)
  show ?thesis
  proof (cases "\<not> js_eof_received (r_state rx) \<or> r_current_chunk_index rx \<noteq> UINT32_MAX")
    case True
    with inv send_nak_packets_ok [OF inv] show ?thesis
      by (auto simp: check_completion_def rx_inv_def)
  next
    case False
    then have cur: "r_current_chunk_index rx = UINT32_MAX" and eof: "js_eof_received (r_state rx)"
      by auto
    let ?miss = "compute_missing_chunks (r_state rx)"
    let ?rx1 = "send_ack UINT32_MAX (rx\<lparr>r_last_acked_id := js_transaction_id (r_state rx)\<rparr>)"
    have "rx_inv dir recv_dir (rx\<lparr>r_last_acked_id := t\<rparr>)" for t
      using inv by (auto simp: rx_inv_def rx_base_def chunk_open_def split: if_splits)
    then have inv1: "rx_inv dir recv_dir ?rx1" by (simp add: send_ack_def)
    have cur1: "r_current_chunk_index ?rx1 = UINT32_MAX" using cur by (simp add: send_ack_def)
    show ?thesis
    proof (cases "find (\<lambda>cr. \<not> fst cr > r_max_chunk_seen rx) ?miss")
      case (Some cr)
      with expected_packets_some [OF st, of "fst cr"] inv cur eof show ?thesis
        by (auto simp: check_completion_def)
    next
      case None
      with inv cur eof rx_inv_finish [OF inv cur, of "r_last_acked_id rx"]
        rx_inv_finish [OF inv1 cur1, of "r_last_acked_id ?rx1"]
      show ?thesis by (simp add: check_completion_def Let_def)
    qed
  qed
qed

lemma open_output_ok:
  assumes "journal_ok dir recv_dir w" and "p \<noteq> j_state_path (journal_new dir)"
  shows "case open_output p n w of Inl (f, w') \<Rightarrow> f \<in> io_faults \<and> journal_ok dir recv_dir w'
    | Inr w' \<Rightarrow> journal_ok dir recv_dir w'"
  using assms
  by (auto simp: open_output_def Let_def io_faults_def
      intro!: journal_ok_fs_write journal_ok_do_op)

lemma write_chunk_ok:
  assumes "journal_ok dir recv_dir w" and "p \<noteq> j_state_path (journal_new dir)"
  shows "case write_chunk p off data w of Inl (f, w') \<Rightarrow> f \<in> io_faults \<and> journal_ok dir recv_dir w'
    | Inr w' \<Rightarrow> journal_ok dir recv_dir w'"
  using assms journal_ok_fs_write [OF assms, of "unat off" data]
  by (auto simp: write_chunk_def io_faults_def intro!: journal_ok_do_op split: prod.splits)

lemma output_path_neq:
  assumes "dirs_ok dir recv_dir" and "state_ok recv_dir (r_state rx)"
  shows "recv_file_path rx \<noteq> j_state_path (journal_new dir)"
  using paths_disjoint [OF assms(1)] output_path [OF assms(2)]
  by (auto simp: journal_paths_new)

lemma flush_chunk_ok:
  assumes base: "rx_base dir recv_dir rx" and act: "r_transfer_active rx"
    and ci: "unat ci < length (js_chunk_done (r_state rx))"
  shows "outcome_ok dir recv_dir io_faults (flush_chunk zcrc ci rx)"
proof -
  let ?p = "recv_file_path rx" and ?s = "r_state rx"
  have st: "state_ok recv_dir ?s" and j: "r_journal rx = journal_new dir"
    and wok: "journal_ok dir recv_dir (r_world rx)" and pl: "pl_inv (r_packet_list rx)"
    using rx_baseD [OF base] act by simp_all
  have neq: "?p \<noteq> j_state_path (journal_new dir)"
    using output_path_neq [OF _ st] base by (simp add: rx_base_def)
  obtain data where data: "pl_assemble (r_packet_list rx) = Some data"
    using pls.assemble_ok [OF pl] by blast
  obtain pl' where pl': "pl_clear (r_packet_list rx) = Some pl'" "pl_inv pl'" "pl_slots pl' = []"
    using pls.clear_ok [OF pl] by blast
  show ?thesis
  proof (cases "open_output ?p (js_file_size ?s) (r_world rx)")
    case (Inl e)
    with open_output_ok [OF wok neq, of "js_file_size ?s"] data show ?thesis
      by (cases e) (simp add: flush_chunk_def)
  next
    case w1: (Inr w1)
    with open_output_ok [OF wok neq, of "js_file_size ?s"] have w1ok: "journal_ok dir recv_dir w1"
      by simp
    note wr = write_chunk_ok [OF w1ok neq, of "chunk_file_offset ?s ci" data]
    show ?thesis
    proof (cases "write_chunk ?p (chunk_file_offset ?s ci) data w1")
      case (Inl e)
      with wr data w1 show ?thesis by (cases e) (simp add: flush_chunk_def)
    next
      case w2: (Inr w2)
      define rx2 where "rx2 = (send_ack ci (in_world (\<lambda>w. snd (mark_chunk_done (r_journal rx) ci w))
        (rx\<lparr>r_world := w2, r_state := set_done ci ?s\<rparr>)))
        \<lparr>r_packet_list := pl', r_current_chunk_index := UINT32_MAX\<rparr>"
      have "flush_chunk zcrc ci rx =
          (if js_eof_received (r_state rx2) then check_completion zcrc rx2 else Inr rx2)"
        using data w1 w2 ci pl'(1)
        by (simp add: flush_chunk_def Let_def rx2_def send_ack_def)
      moreover have "journal_ok dir recv_dir (snd (mark_chunk_done (journal_new dir) ci w2))"
        using wr w2 by (intro journal_ok_mark_chunk_done) simp
      then have inv2: "rx_inv dir recv_dir rx2"
        using base st pl' j
        by (simp add: rx_inv_def rx_base_def rx2_def send_ack_def arrays_ok_def)
      moreover have "r_transfer_active rx2" using act by (simp add: rx2_def send_ack_def)
      ultimately show ?thesis
        using outcome_ok_mono [OF check_completion_ok [OF inv2]] by simp
    qed
  qed
qed

lemma store_packet_ok:
  assumes base: "rx_base dir recv_dir rx" and opn: "chunk_open rx"
    and cur: "r_current_chunk_index rx = d_chunk_index dpdu" "d_chunk_index dpdu \<noteq> UINT32_MAX"
  shows "outcome_ok dir recv_dir io_faults (store_packet zcrc dpdu rx)"
proof -
  have pl: "pl_inv (r_packet_list rx)" using base by (rule rx_baseD)
  obtain b pl' where put: "pl_insert (d_packet_index dpdu) (d_data dpdu)
        (crc8 (d_data dpdu) = d_crc8 dpdu) (r_packet_list rx) = Some (b, pl')"
      "pl_inv pl'" "length (pl_slots pl') = length (pl_slots (r_packet_list rx))"
    using pls.put_total [OF pl] by (metis length_list_update)
  let ?rx = "rx\<lparr>r_packet_list := pl'\<rparr>"
  have base': "rx_base dir recv_dir ?rx" and opn': "chunk_open ?rx"
    using base opn put by (auto simp: rx_base_def chunk_open_def)
  show ?thesis
  proof (cases "pl_is_complete pl'")
    case True
    from flush_chunk_ok [OF base', of "d_chunk_index dpdu"] opn' cur put True show ?thesis
      by (simp add: store_packet_def chunk_open_def)
  next
    case False
    with base' opn' cur put show ?thesis by (simp add: store_packet_def rx_inv_def)
  qed
qed

lemma switch_chunk_ok:
  assumes inv: "rx_inv dir recv_dir rx" and act: "r_transfer_active rx"
    and n: "expected_packets (r_state rx) ci = Some n"
    and ci: "unat ci < length (js_chunk_done (r_state rx))" "\<not> js_chunk_done (r_state rx) ! unat ci"
  shows "\<exists>rx'. switch_chunk ci n rx = Inr rx' \<and> rx_base dir recv_dir rx' \<and> chunk_open rx' \<and>
    r_current_chunk_index rx' = ci \<and> pl_slots (r_packet_list rx') = replicate (unat n) Missing"
proof -
  have pl: "pl_inv (r_packet_list rx)" using inv by (simp add: rx_inv_def rx_base_def)
  obtain rx1 where rx1: "(if r_current_chunk_index rx \<noteq> UINT32_MAX \<and>
        \<not> pl_is_complete (r_packet_list rx)
      then send_nak_packets (r_current_chunk_index rx) rx else Inr rx) = Inr rx1"
      "rx1 = rx \<or> (\<exists>pdu. rx1 = transport_send pdu rx)"
    using send_nak_packets_run [OF pl, of "r_current_chunk_index rx"]
    by (cases "r_current_chunk_index rx \<noteq> UINT32_MAX \<and> \<not> pl_is_complete (r_packet_list rx)") auto
  then have same: "r_state rx1 = r_state rx" "r_packet_list rx1 = r_packet_list rx"
    "r_transfer_active rx1 = r_transfer_active rx" "rx_base dir recv_dir rx1"
    using inv by (auto simp: rx_inv_def)
  obtain pl1 where pl1: "pl_clear (r_packet_list rx) = Some pl1" "pl_inv pl1"
    using pls.clear_ok [OF pl] by blast
  obtain pl2 where pl2: "pl_init n pl1 = Some pl2" "pl_inv pl2"
      "pl_slots pl2 = replicate (unat n) Missing"
    using pls.init_ok [OF pl1(2)] by blast
  let ?rx = "rx1\<lparr>r_packet_list := pl2, r_current_chunk_index := ci\<rparr>"
  have "switch_chunk ci n rx = Inr ?rx"
    unfolding switch_chunk_def rx1(1) using pl1 pl2 same by simp
  moreover have "rx_base dir recv_dir ?rx" using same pl2 by (simp add: rx_base_def)
  moreover have "length (pl_slots pl2) = unat n" using pl2 by simp
  then have "chunk_open ?rx" using same act n ci by (simp add: chunk_open_def)
  ultimately show ?thesis using pl2(3) by auto
qed

lemma chunk_index_small:
  assumes "state_ok recv_dir s" and "ci < js_total_chunks s"
  shows "unat ci < length (js_chunk_done s)" and "ci \<noteq> UINT32_MAX"
proof -
  show "unat ci < length (js_chunk_done s)"
    using assms by (simp add: state_ok_def word_less_nat_alt)
  have "unat (js_total_chunks s) \<le> 2 ^ 20"
    using assms(1) by (simp add: state_ok_def word_le_nat_alt)
  then show "ci \<noteq> UINT32_MAX" using assms(2) by (auto simp: word_less_nat_alt)
qed

lemma rx_inv_note_seen [simp]:
  "rx_inv dir recv_dir (note_seen ci rx) = rx_inv dir recv_dir rx"
  by (simp add: rx_inv_def rx_base_def chunk_open_def)

lemma rx_inv_active:
  "rx_inv dir recv_dir rx \<Longrightarrow> r_transfer_active rx \<Longrightarrow> state_ok recv_dir (r_state rx)"
  by (simp add: rx_inv_def rx_base_def)

lemma handle_data_ok:
  assumes inv: "rx_inv dir recv_dir rx"
  shows "outcome_ok dir recv_dir io_faults (handle_data zcrc dpdu rx)"
proof -
  let ?ci = "d_chunk_index dpdu" and ?rx = "note_seen (d_chunk_index dpdu) rx"
  have inv': "rx_inv dir recv_dir ?rx" using inv by simp
  have ci: "unat ?ci < length (js_chunk_done (r_state rx))" "?ci \<noteq> UINT32_MAX"
    if "data_for dpdu rx"
    using chunk_index_small [OF rx_inv_active [OF inv]] that by (simp_all add: data_for_def)
  show ?thesis
  proof (cases rule: handle_data_elim [of dpdu rx zcrc])
    case dropped
    with inv show ?thesis by simp
  next
    case divide
    with expected_packets_some [OF rx_inv_active [OF inv], of ?ci] show ?thesis by simp
  next
    case known
    with inv show ?thesis by (simp add: send_ack_def)
  next
    case same
    with inv' ci have "rx_base dir recv_dir ?rx" "chunk_open ?rx"
      by (auto simp: rx_inv_def split: if_splits)
    then have "outcome_ok dir recv_dir io_faults (store_packet zcrc dpdu ?rx)"
      by (rule store_packet_ok) (use same(3) ci(2) [OF same(1)] in simp_all)
    then show ?thesis unfolding same(4) .
  next
    case switched
    then have "r_transfer_active rx"
      and "expected_packets (r_state rx) ?ci = Some (d_total_packets dpdu)"
      by (simp_all add: data_for_def)
    moreover have "\<not> js_chunk_done (r_state rx) ! unat ?ci"
      using switched ci by (simp add: chunk_finished_def)
    ultimately obtain rx' where "switch_chunk ?ci (d_total_packets dpdu) ?rx = Inr rx'"
      "rx_base dir recv_dir rx'" "chunk_open rx'" "r_current_chunk_index rx' = ?ci"
      using switch_chunk_ok [OF inv', of ?ci] ci switched(1) by auto
    with store_packet_ok [of dir recv_dir rx' dpdu zcrc] switched ci show ?thesis by simp
  qed
qed

lemma length_cstr_terminated: "terminated bs \<Longrightarrow> length (cstr bs) < length bs"
proof -
  assume "terminated bs"
  then have "takeWhile (\<lambda>b. b \<noteq> 0) bs \<noteq> bs"
    by (auto simp: terminated_def takeWhile_eq_all_conv)
  then have "length (takeWhile (\<lambda>b. b \<noteq> 0) bs) \<noteq> length bs"
    by (metis takeWhile_eq_take take_all order_refl)
  then show ?thesis
    using length_takeWhile_le [of "\<lambda>b. b \<noteq> 0" bs] by (simp add: cstr_def)
qed

text \<open>The destination path is the receive directory, a slash, and the checked name.\<close>

lemma metadata_dest:
  assumes "dirs_ok dir recv_dir" and "terminated (m_filename meta)" and "length (m_filename meta) = 256"
  shows "cstr (js_dest_path (metadata_state recv_dir meta s)) =
    recv_dir @ ascii ''/'' @ cstr (m_filename meta)"
  unfolding metadata_state_def
  using assms length_cstr_terminated [OF assms(2)]
  by (simp add: dirs_ok_def cstr_snprintf)

lemma metadata_state_ok:
  assumes dirs: "dirs_ok dir recv_dir" and arr: "arrays_ok s"
    and len: "length (m_filename meta) = 256" and trm: "terminated (m_filename meta)"
    and chk: "0 < m_total_chunks meta" "m_total_chunks meta \<le> 2 ^ 20"
      "0 < m_packet_size meta" "m_packet_size meta \<le> DEFAULT_PACKET_SIZE" "0 < m_chunk_size meta"
      "safe_filename (cstr (m_filename meta))"
  shows "state_ok recv_dir (metadata_state recv_dir meta s)"
proof -
  have "dest_ok recv_dir (js_dest_path (metadata_state recv_dir meta s))"
    unfolding dest_ok_def metadata_dest [OF dirs trm len]
    using chk by (auto simp: metadata_state_def)
  moreover have "js_fits (metadata_state recv_dir meta s)"
    using arr by (simp add: js_fits_def metadata_state_def arrays_ok_def length_strncpy length_snprintf)
  ultimately show ?thesis
    using chk by (simp add: state_ok_def metadata_state_def)
qed

lemma rx_inv_idle:
  assumes "rx_base dir recv_dir rx"
  shows "\<exists>pl. pl_clear (r_packet_list rx) = Some pl \<and>
    (\<forall>rx'. rx_base dir recv_dir rx' \<longrightarrow> r_packet_list rx' = pl \<longrightarrow>
       r_current_chunk_index rx' = UINT32_MAX \<longrightarrow> rx_inv dir recv_dir rx') \<and> pl_inv pl"
  using pls.clear_ok [OF rx_baseD(1) [OF assms]] by (auto simp: rx_inv_def)

definition accepted :: "MetadataPdu \<Rightarrow> bool" where
  "accepted meta \<longleftrightarrow>
     0 < m_total_chunks meta \<and> m_total_chunks meta \<le> 2 ^ 20 \<and>
     0 < m_packet_size meta \<and> m_packet_size meta \<le> DEFAULT_PACKET_SIZE \<and>
     0 < m_chunk_size meta \<and> safe_filename (cstr (m_filename meta))"

text \<open>What an accepted \<open>Metadata\<close> for another transaction does.\<close>

definition start_transfer :: "MetadataPdu \<Rightarrow> CfdpReceiver \<Rightarrow> CfdpReceiver" where
  "start_transfer meta rx =
     (let s = metadata_state (r_recv_dir rx) meta (r_state rx);
          w = (if journal_exists (r_journal rx) (r_world rx)
               then snd (journal_remove (r_journal rx) (r_world rx)) else r_world rx)
      in rx\<lparr>r_state := s, r_world := snd (journal_create (r_journal rx) s w),
         r_transfer_active := True, r_current_chunk_index := UINT32_MAX, r_max_chunk_seen := 0,
         r_packet_list := the (pl_clear (r_packet_list rx))\<rparr>)"

lemma handle_metadata_cases:
  assumes pl: "pl_inv (r_packet_list rx)"
  shows "handle_metadata meta rx =
    (if r_transfer_active rx \<and> js_transaction_id (r_state rx) = m_transaction_id meta then Inr rx
     else if \<not> r_transfer_active rx \<and> r_last_acked_id rx = m_transaction_id meta then
       Inr (send_ack UINT32_MAX rx)
     else if \<not> accepted meta then Inr rx
     else if \<not> terminated (m_filename meta) then
       Inl (Undefined Unterminated_string,
         if journal_exists (r_journal rx) (r_world rx)
         then snd (journal_remove (r_journal rx) (r_world rx)) else r_world rx)
     else Inr (start_transfer meta rx))"
proof -
  obtain pl' where pl': "pl_clear (r_packet_list rx) = Some pl'"
    using pls.clear_ok [OF pl] by blast
  have acc: "accepted meta \<longleftrightarrow> \<not> (m_total_chunks meta = 0 \<or> m_total_chunks meta > push_bit 20 1) \<and>
      \<not> (m_packet_size meta = 0 \<or> m_packet_size meta > DEFAULT_PACKET_SIZE) \<and>
      m_chunk_size meta \<noteq> 0 \<and> safe_filename (cstr (m_filename meta))"
    by (auto simp: accepted_def not_less push_bit_eq_mult word_neq_0_conv)
  show ?thesis
    unfolding handle_metadata_def acc
    using pl' by (auto simp: Let_def start_transfer_def in_world_def throw_def)
qed

lemma handle_metadata_ok:
  assumes inv: "rx_inv dir recv_dir rx" and len: "length (m_filename meta) = 256"
  shows "outcome_ok dir recv_dir
    (if terminated (m_filename meta) then {} else {Undefined Unterminated_string})
    (handle_metadata meta rx)"
proof -
  have base: "rx_base dir recv_dir rx" using inv by (simp add: rx_inv_def)
  note b = rx_baseD [OF base]
  let ?w = "if journal_exists (r_journal rx) (r_world rx)
    then snd (journal_remove (r_journal rx) (r_world rx)) else r_world rx"
  have wok: "journal_ok dir recv_dir ?w" using b by (simp add: journal_ok_remove)
  obtain pl where pl: "pl_clear (r_packet_list rx) = Some pl" "pl_inv pl" "pl_slots pl = []"
    using pls.clear_ok [OF b(1)] by blast
  have "rx_inv dir recv_dir (start_transfer meta rx)"
    if trm: "terminated (m_filename meta)" and acc: "accepted meta"
  proof -
    have "r_recv_dir rx = recv_dir" "dirs_ok dir recv_dir" "arrays_ok (r_state rx)"
      using base by (simp_all add: rx_base_def)
    with metadata_state_ok [OF _ _ len trm, of dir recv_dir "r_state rx"] acc
    have st: "state_ok recv_dir (metadata_state (r_recv_dir rx) meta (r_state rx))"
      by (simp add: accepted_def)
    from journal_ok_atomic_write [OF wok this] st base pl b(2) show ?thesis
      by (simp add: rx_inv_def rx_base_def start_transfer_def Let_def journal_create_def
          state_ok_def js_fits_arrays)
  qed
  with inv wok show ?thesis
    unfolding handle_metadata_cases [OF b(1)] by (simp add: send_ack_def)
qed

lemma handle_eof_ok:
  assumes inv: "rx_inv dir recv_dir rx"
  shows "outcome_ok dir recv_dir {} (handle_eof zcrc eof rx)"
proof (cases "r_transfer_active rx \<and> e_transaction_id eof = js_transaction_id (r_state rx)")
  case False
  with inv show ?thesis by (auto simp: handle_eof_def)
next
  case True
  let ?rx = "if \<not> js_eof_received (r_state rx) then
             in_world (\<lambda>w. snd (mark_eof_received (r_journal rx) w))
               (rx\<lparr>r_state := set_eof (r_state rx)\<rparr>)
           else rx"
  have j: "r_journal rx = journal_new dir" "journal_ok dir recv_dir (r_world rx)"
    using inv by (simp_all add: rx_inv_def rx_base_def)
  have exp: "expected_packets (set_eof s) ci = expected_packets s ci" for s ci
    by (simp add: expected_packets_def chunk_bytes_def chunk_file_offset_def)
  have "rx_inv dir recv_dir (in_world (\<lambda>w. snd (mark_eof_received (r_journal rx) w))
      (rx\<lparr>r_state := set_eof (r_state rx)\<rparr>))"
    using inv journal_ok_mark_eof_received [OF j(2)]
    by (intro rx_inv_in_world)
      (auto simp: j rx_inv_def rx_base_def chunk_open_def exp arrays_ok_def split: if_splits)
  with inv have "rx_inv dir recv_dir ?rx" and "r_transfer_active ?rx" using True by simp_all
  from check_completion_ok [OF this] True show ?thesis
    by (simp add: handle_eof_def Let_def)
qed

lemma handle_resume_query_ok:
  "rx_inv dir recv_dir rx \<Longrightarrow> outcome_ok dir recv_dir {} (handle_resume_query query rx)"
  by (simp add: handle_resume_query_def Let_def)

text \<open>The faults a PDU can end in: a C string of 256 bytes is the only undefined step.\<close>

definition unterminated_metadata :: "bytes \<Rightarrow> bool" where
  "unterminated_metadata raw \<longleftrightarrow>
     (\<exists>payload meta. raw = pdu_code Metadata # payload \<and> parse_metadata payload = Some meta \<and>
        \<not> terminated (m_filename meta))"

lemma parse_metadata_filename:
  "parse_metadata payload = Some meta \<Longrightarrow> length (m_filename meta) = 256"
  by (auto simp: parse_metadata_def metadata_load_def layout split: if_splits)

lemma on_pdu_received_ok:
  assumes inv: "rx_inv dir recv_dir rx"
  shows "outcome_ok dir recv_dir
    (io_faults \<union> (if unterminated_metadata raw then {Undefined Unterminated_string} else {}))
    (on_pdu_received zcrc raw rx)"
proof -
  define F where "F = io_faults \<union>
    (if unterminated_metadata raw then {Undefined Unterminated_string} else {})"
  have io: "io_faults \<subseteq> F" by (simp add: F_def)
  have data: "outcome_ok dir recv_dir F (handle_data zcrc d rx)" for d
    by (rule outcome_ok_mono [OF handle_data_ok [OF inv] io])
  have eof: "outcome_ok dir recv_dir F (handle_eof zcrc e rx)" for e
    by (rule outcome_ok_mono [OF handle_eof_ok [OF inv]]) simp
  have query: "outcome_ok dir recv_dir F (handle_resume_query q rx)" for q
    by (rule outcome_ok_mono [OF handle_resume_query_ok [OF inv]]) simp
  have meta: "outcome_ok dir recv_dir F (handle_metadata m rx)"
    if "raw = pdu_code Metadata # payload" "parse_metadata payload = Some m" for m payload
  proof (rule outcome_ok_mono [OF handle_metadata_ok [OF inv parse_metadata_filename [OF that(2)]]])
    show "(if terminated (m_filename m) then {} else {Undefined Unterminated_string}) \<subseteq> F"
      using that by (auto simp: F_def unterminated_metadata_def)
  qed
  show "outcome_ok dir recv_dir (io_faults \<union> (if unterminated_metadata raw
      then {Undefined Unterminated_string} else {})) (on_pdu_received zcrc raw rx)"
    unfolding F_def [symmetric]
    using inv data eof query meta
    by (auto simp: on_pdu_received_def pdu_type_of_Some
        split: list.splits option.splits PduType.splits)
qed

section \<open>Boot\<close>

lemma receiver_new_inv:
  assumes "dirs_ok dir recv_dir" and "arrays_ok memory" and "journal_ok dir recv_dir w"
  shows "rx_inv dir recv_dir (receiver_new dir recv_dir memory w)"
  using assms by (simp add: rx_inv_def rx_base_def receiver_new_def)

text \<open>A journal whose file name has no terminator.\<close>

definition journal_unterminated :: "Journal \<Rightarrow> World \<Rightarrow> bool" where
  "journal_unterminated j w \<longleftrightarrow> (\<exists>s. stored j w = Some s \<and> \<not> terminated (js_filename s))"

lemma on_boot_ok:
  assumes inv: "rx_inv dir recv_dir rx" and idle: "\<not> r_transfer_active rx"
  shows "outcome_ok dir recv_dir
    (if journal_unterminated (r_journal rx) (r_world rx) then {Undefined Unterminated_string} else {})
    (on_boot zcrc rx)"
proof -
  have base: "rx_base dir recv_dir rx" using inv by (simp add: rx_inv_def)
  note b = rx_baseD [OF base]
  have arr: "arrays_ok (r_state rx)" using base by (simp add: rx_base_def)
  have cur: "r_current_chunk_index rx = UINT32_MAX"
    using inv idle by (auto simp: rx_inv_def chunk_open_def split: if_splits)
  then have slots: "pl_slots (r_packet_list rx) = []" using inv by (simp add: rx_inv_def)
  obtain ok s where load: "journal_load (r_journal rx) (r_world rx) (r_state rx) = (ok, s)" by fastforce
  obtain pl where pl: "pl_clear (r_packet_list rx) = Some pl" "pl_inv pl" "pl_slots pl = []"
    using pls.clear_ok [OF b(1)] by blast
  consider (absent) "\<not> journal_exists (r_journal rx) (r_world rx)"
    | (bad) "journal_exists (r_journal rx) (r_world rx)" "\<not> ok"
    | (good) "journal_exists (r_journal rx) (r_world rx)" "ok" by blast
  then show ?thesis
  proof cases
    case absent
    with inv show ?thesis by (simp add: on_boot_def)
  next
    case bad
    have "arrays_ok s"
      using arr load read_state_fits [OF arr]
      by (auto simp: journal_load_def read_from_disk_def js_fits_arrays split: option.splits if_splits prod.splits)
    with bad load base idle cur slots journal_ok_remove [OF b(3)] show ?thesis
      by (simp add: on_boot_def rx_inv_def rx_base_def)
  next
    case good
    with load arr have stored: "stored (r_journal rx) (r_world rx) = Some s"
      by (simp add: journal_load_def read_from_disk_decode stored_def stored_in_def)
    with b have st: "state_ok recv_dir s" by (simp add: journal_ok_def)
    let ?rx = "rx\<lparr>r_state := s, r_transfer_active := True, r_current_chunk_index := UINT32_MAX,
      r_max_chunk_seen := 0, r_packet_list := pl\<rparr>"
    have inv': "rx_inv dir recv_dir ?rx"
      using base st pl by (simp add: rx_inv_def rx_base_def state_ok_def js_fits_arrays)
    show ?thesis
    proof (cases "terminated (js_filename s)")
      case True
      have "outcome_ok dir recv_dir {} (check_completion zcrc ?rx)"
        by (rule check_completion_ok [OF inv']) simp
      then have "outcome_ok dir recv_dir F (check_completion zcrc ?rx)" for F
        by (rule outcome_ok_mono) simp
      with True inv' good load pl show ?thesis by (auto simp: on_boot_def Let_def)
    next
      case False
      with stored have "journal_unterminated (r_journal rx) (r_world rx)"
        by (auto simp: journal_unterminated_def)
      with False good load b(3) show ?thesis by (simp add: on_boot_def Let_def throw_def)
    qed
  qed
qed

end
