(* ===== verification/Cfdp_Effects.thy ===== *)
theory Cfdp_Effects
  imports Cfdp_Receiver_Inv
begin

text \<open>
  Which files the receiver touches. Every operation of \<open>src/receiver/CfdpReceiver.cpp\<close> goes
  from one world to the next by a list of logged events (\<open>Cfdp_Disk\<close>), and this theory bounds
  the files those events name: the two journal files and one file directly inside the receive
  directory, whatever bytes arrive.
\<close>

section \<open>Confinement of effects\<close>

text \<open>
  The events that touch only the journal files and output files, and the disks whose journal
  holds nothing but states that passed the checks. \<open>effects dir recv_dir w w'\<close>: from a world
  with such a disk the program went from \<open>w\<close> to \<open>w'\<close> by such events, and a crash at any
  point leaves such a disk.
\<close>

definition confined :: "path \<Rightarrow> path \<Rightarrow> event set" where
  "confined dir recv_dir = {e. ev_touches e \<subseteq> journal_paths dir \<union> output_paths recv_dir}"

definition journal_fine :: "path \<Rightarrow> path \<Rightarrow> files \<Rightarrow> bool" where
  "journal_fine dir recv_dir d \<longleftrightarrow>
     (\<forall>s. stored_in (journal_new dir) d = Some s \<longrightarrow> state_ok recv_dir s)"

definition effects :: "path \<Rightarrow> path \<Rightarrow> World \<Rightarrow> World \<Rightarrow> bool" where
  "effects dir recv_dir w w' \<longleftrightarrow>
     (journal_ok dir recv_dir w \<longrightarrow>
        (\<exists>es. ran w es w' \<and> set es \<subseteq> confined dir recv_dir \<and>
           survives (journal_fine dir recv_dir) (w_files w) es))"

lemma journal_ok_fine: "journal_ok dir recv_dir w = journal_fine dir recv_dir (w_files w)"
  by (simp add: journal_ok_def journal_fine_def stored_def)

lemma journal_fine_untouched:
  "j_state_path (journal_new dir) \<notin> touches op \<Longrightarrow>
     journal_fine dir recv_dir (apply_op op d) = journal_fine dir recv_dir d"
  by (simp add: journal_fine_def stored_in_def apply_op_untouched)

definition outcome_world :: "outcome \<Rightarrow> World" where
  "outcome_world out = (case out of Inl (f, w) \<Rightarrow> w | Inr rx \<Rightarrow> r_world rx)"

lemma outcome_world_simps [simp]:
  "outcome_world (Inl (f, w)) = w" "outcome_world (Inr rx) = r_world rx"
  "outcome_world (throw f rx) = r_world rx"
  by (simp_all add: outcome_world_def throw_def)

lemma effects_refl [simp]: "effects dir recv_dir w w"
  unfolding effects_def by (auto simp: journal_ok_fine intro: exI [of _ "[]"])

lemma effects_trans:
  assumes "effects dir recv_dir w w1" and "effects dir recv_dir w1 w2"
  shows "effects dir recv_dir w w2"
  unfolding effects_def
proof
  assume "journal_ok dir recv_dir w"
  with assms(1) obtain es where es: "ran w es w1" "set es \<subseteq> confined dir recv_dir"
    "survives (journal_fine dir recv_dir) (w_files w) es" by (auto simp: effects_def)
  then have "journal_ok dir recv_dir w1"
    using survivesD [OF es(3)] by (simp add: journal_ok_fine ran_files)
  with assms(2) obtain es' where es': "ran w1 es' w2" "set es' \<subseteq> confined dir recv_dir"
    "survives (journal_fine dir recv_dir) (w_files w1) es'" by (auto simp: effects_def)
  show "\<exists>es. ran w es w2 \<and> set es \<subseteq> confined dir recv_dir \<and>
      survives (journal_fine dir recv_dir) (w_files w) es"
    using ran_trans [OF es(1) es'(1)] es(2) es'(2) survives_append [OF es(3)] es'(3) ran_files [OF es(1)]
    by (intro exI [of _ "es @ es'"]) auto
qed

lemma confined_Sent [simp]: "Sent pdu \<in> confined dir recv_dir"
  by (simp add: confined_def)

lemma effects_transmit: "effects dir recv_dir w (transmit pdu w)"
  unfolding effects_def
  by (auto simp: journal_ok_fine intro!: exI [of _ "[Sent pdu]"])

lemma effects_do_op:
  assumes "Fs op \<in> confined dir recv_dir" and "j_state_path (journal_new dir) \<notin> touches op"
  shows "effects dir recv_dir w (do_op op w)"
proof -
  have "survives (journal_fine dir recv_dir) (w_files w) [Fs op]" if "journal_ok dir recv_dir w"
  proof (cases op)
    case (Pwrite p off bs)
    then have "j_state_path (journal_new dir) \<notin> touches (Pwrite p off cs)" for cs
      using assms(2) by simp
    with that Pwrite show ?thesis
      by (simp add: survives_Pwrite journal_fine_untouched journal_ok_fine del: apply_op.simps)
  qed (use that assms(2) in \<open>simp_all add: survives_op journal_fine_untouched journal_ok_fine
      del: apply_op.simps\<close>)
  with assms(1) show ?thesis
    unfolding effects_def by (auto intro!: exI [of _ "[Fs op]"])
qed

lemma effects_fs_write:
  assumes "\<forall>bs. Fs (Pwrite p off bs) \<in> confined dir recv_dir" and "p \<noteq> j_state_path (journal_new dir)"
  shows "effects dir recv_dir w (snd (fs_write p off bs w))"
proof -
  obtain bs' where "snd (fs_write p off bs w) = do_op (Pwrite p off bs') w"
    using fs_write_ran [of p off bs w] by blast
  with assms effects_do_op [of "Pwrite p off bs'" dir recv_dir w] show ?thesis by simp
qed

lemma effects_atomic_write:
  assumes "journal_ok dir recv_dir w \<Longrightarrow> state_ok recv_dir s"
  shows "effects dir recv_dir w (snd (atomic_write (journal_new dir) s w))"
  unfolding effects_def
proof
  let ?j = "journal_new dir" and ?d = "w_files w"
  assume ok: "journal_ok dir recv_dir w"
  then have st: "state_ok recv_dir s" by (rule assms)
  obtain fin w' where run: "atomic_write ?j s w = (fin, w')" by fastforce
  from atomic_write_effects [OF paths_ok_new run] obtain es where
    es: "ran w es w'" "\<forall>e \<in> set es. ev_touches e \<subseteq> journal_paths dir"
      "survives (\<lambda>d. d (j_state_path ?j) = ?d (j_state_path ?j) \<or>
        fin \<and> d (j_state_path ?j) = Some (journal_image s)) ?d es"
    by (auto simp: journal_paths_new)
  have dec: "decode_journal (journal_image s) = Some s"
    using decode_journal_image [of s "[]"] st by (simp add: state_ok_def)
  have "survives (journal_fine dir recv_dir) ?d es"
    unfolding survives_def
  proof (intro allI impI)
    fix es' assume "crash_prefix es es'"
    with es(3) have "replay es' ?d (j_state_path ?j) = ?d (j_state_path ?j) \<or>
        replay es' ?d (j_state_path ?j) = Some (journal_image s)"
      by (auto simp: survives_def)
    with ok st dec show "journal_fine dir recv_dir (replay es' ?d)"
      by (auto simp: journal_ok_fine journal_fine_def stored_in_def)
  qed
  with es run show "\<exists>es. ran w es (snd (atomic_write ?j s w)) \<and> set es \<subseteq> confined dir recv_dir \<and>
      survives (journal_fine dir recv_dir) ?d es"
    by (intro exI [of _ es]) (auto simp: confined_def)
qed

lemma effects_journal:
  "(journal_ok dir recv_dir w \<Longrightarrow> state_ok recv_dir s) \<Longrightarrow>
     effects dir recv_dir w (snd (journal_create (journal_new dir) s w))"
  "effects dir recv_dir w (snd (mark_chunk_done (journal_new dir) ci w))"
  "effects dir recv_dir w (snd (mark_eof_received (journal_new dir) w))"
  "effects dir recv_dir w (snd (journal_remove (journal_new dir) w))"
proof -
  show "effects dir recv_dir w (snd (journal_create (journal_new dir) s w))"
    if "journal_ok dir recv_dir w \<Longrightarrow> state_ok recv_dir s"
    using that by (simp add: journal_create_def effects_atomic_write)
  have stored: "state_ok recv_dir s'"
    if "journal_ok dir recv_dir w" "read_from_disk (journal_new dir) w unset_state = (True, s')" for s'
    using that read_from_disk_stored [OF that(2)] by (simp add: journal_ok_def)
  show "effects dir recv_dir w (snd (mark_chunk_done (journal_new dir) ci w))"
    by (auto simp: mark_chunk_done_def set_done_def [symmetric] stored effects_atomic_write split: prod.splits)
  show "effects dir recv_dir w (snd (mark_eof_received (journal_new dir) w))"
    by (auto simp: mark_eof_received_def set_eof_def [symmetric] stored effects_atomic_write split: prod.splits)
  let ?op = "Unlink (j_state_path (journal_new dir))"
  have "survives (journal_fine dir recv_dir) (w_files w) [Fs ?op]" if "journal_ok dir recv_dir w"
    using that by (simp add: survives_op journal_ok_fine) (simp add: journal_fine_def stored_in_def)
  then have "effects dir recv_dir w (do_op ?op w)"
    unfolding effects_def
    by (auto simp: confined_def journal_paths_new intro!: exI [of _ "[Fs ?op]"])
  then show "effects dir recv_dir w (snd (journal_remove (journal_new dir) w))"
    by (simp add: journal_remove_def)
qed

lemma effects_send:
  "effects dir recv_dir w (r_world rx) \<Longrightarrow>
     effects dir recv_dir w (r_world (transport_send pdu rx))"
  by (simp add: effects_trans [OF _ effects_transmit])

lemma effects_send_nak_packets:
  "effects dir recv_dir (r_world rx) (outcome_world (send_nak_packets ci rx))"
  by (auto simp: send_nak_packets_def split: option.splits intro: effects_transmit)

lemma effects_check_completion:
  assumes "r_journal rx = journal_new dir"
  shows "effects dir recv_dir (r_world rx) (outcome_world (check_completion zcrc rx))"
  unfolding check_completion_def Let_def
  using assms effects_send_nak_packets [of dir recv_dir rx]
  by (auto simp: send_ack_def effects_journal split: option.splits
      intro: effects_transmit effects_trans [OF effects_transmit effects_journal(4)])

lemma effects_output:
  assumes p: "p \<in> output_paths recv_dir" and dirs: "dirs_ok dir recv_dir"
  shows "case open_output p n w of Inl (f, w') \<Rightarrow> effects dir recv_dir w w'
      | Inr w' \<Rightarrow> effects dir recv_dir w w'"
    and "case write_chunk p off data w of Inl (f, w') \<Rightarrow> effects dir recv_dir w w'
      | Inr w' \<Rightarrow> effects dir recv_dir w w'"
proof -
  have ev: "Fs (Creat p) \<in> confined dir recv_dir" "Fs (Datasync p) \<in> confined dir recv_dir"
    "Fs (Pwrite p o' bs) \<in> confined dir recv_dir" for o' bs
    using p by (simp_all add: confined_def)
  have neq: "p \<noteq> j_state_path (journal_new dir)" "j_state_path (journal_new dir) \<noteq> p"
    using paths_disjoint [OF dirs] p by (auto simp: journal_paths_new)
  have wr: "effects dir recv_dir w' (snd (fs_write p o' bs w'))" for o' bs w'
    by (rule effects_fs_write) (simp_all add: ev neq)
  show "case open_output p n w of Inl (f, w') \<Rightarrow> effects dir recv_dir w w'
      | Inr w' \<Rightarrow> effects dir recv_dir w w'"
    by (auto simp: open_output_def Let_def ev neq intro: effects_do_op effects_trans [OF effects_do_op wr])
  show "case write_chunk p off data w of Inl (f, w') \<Rightarrow> effects dir recv_dir w w'
      | Inr w' \<Rightarrow> effects dir recv_dir w w'"
    using wr [of w "unat off" data]
    by (auto simp: write_chunk_def ev neq split: prod.splits intro: effects_trans [OF _ effects_do_op])
qed

lemma effects_flush_chunk:
  assumes j: "r_journal rx = journal_new dir" and st: "state_ok recv_dir (r_state rx)"
    and dirs: "dirs_ok dir recv_dir"
  shows "effects dir recv_dir (r_world rx) (outcome_world (flush_chunk zcrc ci rx))"
proof -
  let ?p = "recv_file_path rx" and ?off = "chunk_file_offset (r_state rx) ci"
  note out = effects_output [OF output_path [OF st] dirs]
  show ?thesis
  proof (cases "pl_assemble (r_packet_list rx)")
    case None
    then show ?thesis by (simp add: flush_chunk_def)
  next
    case data: (Some data)
    show ?thesis
    proof (cases "open_output ?p (js_file_size (r_state rx)) (r_world rx)")
      case (Inl e)
      with data out(1) [where n = "js_file_size (r_state rx)" and w = "r_world rx"] show ?thesis
        by (cases e) (simp add: flush_chunk_def)
    next
      case w1: (Inr w1)
      then have eff1: "effects dir recv_dir (r_world rx) w1"
        using out(1) [where n = "js_file_size (r_state rx)" and w = "r_world rx"] by simp
      show ?thesis
      proof (cases "write_chunk ?p ?off data w1")
        case (Inl e)
        with data w1 out(2) [where off = ?off and data = data and w = w1] show ?thesis
          by (cases e) (simp add: flush_chunk_def effects_trans [OF eff1])
      next
        case w2: (Inr w2)
        then have eff2: "effects dir recv_dir (r_world rx) w2"
          using out(2) [where off = ?off and data = data and w = w1] effects_trans [OF eff1] by simp
        define rx3 where "rx3 = send_ack ci (in_world (\<lambda>w. snd (mark_chunk_done (r_journal rx) ci w))
          (rx\<lparr>r_world := w2, r_state := set_done ci (r_state rx)\<rparr>))"
        have eff3: "effects dir recv_dir (r_world rx) (r_world rx3)"
          unfolding rx3_def send_ack_def
          by (rule effects_send) (simp add: j effects_trans [OF eff2 effects_journal(2)])
        have jn: "r_journal (rx3\<lparr>r_packet_list := pl, r_current_chunk_index := UINT32_MAX\<rparr>) = journal_new dir"
          for pl
          by (simp add: rx3_def send_ack_def j)
        note eff4 = effects_check_completion [OF jn, where recv_dir = recv_dir and zcrc = zcrc]
        show ?thesis
          using data w1 w2 eff2 eff3 effects_trans [OF eff3] eff4
          by (auto simp: flush_chunk_def Let_def rx3_def [symmetric] split: option.splits)
      qed
    qed
  qed
qed
lemma effects_store_packet:
  assumes "r_journal rx = journal_new dir" and "state_ok recv_dir (r_state rx)"
    and "dirs_ok dir recv_dir"
  shows "effects dir recv_dir (r_world rx) (outcome_world (store_packet zcrc dpdu rx))"
  using assms effects_flush_chunk [of "rx\<lparr>r_packet_list := pl\<rparr>" dir recv_dir zcrc for pl]
  by (auto simp: store_packet_def Let_def split: option.splits)

lemma effects_switch_chunk:
  "case switch_chunk ci n rx of
     Inl (f, w) \<Rightarrow> effects dir recv_dir (r_world rx) w
   | Inr rx' \<Rightarrow> effects dir recv_dir (r_world rx) (r_world rx') \<and>
       r_journal rx' = r_journal rx \<and> r_state rx' = r_state rx"
  by (auto simp: switch_chunk_def send_nak_packets_def throw_def
      split: option.splits sum.splits if_splits intro: effects_transmit)

lemma effects_handle_data:
  assumes inv: "rx_inv dir recv_dir rx"
  shows "effects dir recv_dir (r_world rx) (outcome_world (handle_data zcrc dpdu rx))"
proof -
  let ?ci = "d_chunk_index dpdu" and ?rx = "note_seen (d_chunk_index dpdu) rx"
  have j: "r_journal rx = journal_new dir" and dirs: "dirs_ok dir recv_dir"
    using inv by (simp_all add: rx_inv_def rx_base_def)
  show ?thesis
  proof (cases rule: handle_data_elim [of dpdu rx zcrc])
    case known
    then show ?thesis by (simp add: send_ack_def effects_transmit)
  next
    case same
    then have "state_ok recv_dir (r_state ?rx)" using rx_inv_active [OF inv] by (simp add: data_for_def)
    with effects_store_packet [of ?rx dir recv_dir zcrc dpdu] j dirs show ?thesis unfolding same(4) by simp
  next
    case switched
    then have st: "state_ok recv_dir (r_state rx)" using rx_inv_active [OF inv] by (simp add: data_for_def)
    note sw = effects_switch_chunk [where ci = ?ci and n = "d_total_packets dpdu" and rx = ?rx
      and dir = dir and recv_dir = recv_dir]
    show ?thesis
    proof (cases "switch_chunk ?ci (d_total_packets dpdu) ?rx")
      case (Inl e)
      with sw switched show ?thesis by (cases e) simp
    next
      case (Inr rx')
      with sw j st have "effects dir recv_dir (r_world rx) (r_world rx')"
        "r_journal rx' = journal_new dir" "state_ok recv_dir (r_state rx')"
        by simp_all
      with effects_store_packet [of rx' dir recv_dir zcrc dpdu] dirs Inr switched show ?thesis
        by (simp add: effects_trans)
    qed
  qed simp_all
qed

lemma effects_handle_metadata:
  assumes base: "rx_base dir recv_dir rx" and len: "length (m_filename meta) = 256"
  shows "effects dir recv_dir (r_world rx) (outcome_world (handle_metadata meta rx))"
proof -
  have j: "r_journal rx = journal_new dir" and pl: "pl_inv (r_packet_list rx)"
    and rd: "r_recv_dir rx = recv_dir" "dirs_ok dir recv_dir" "arrays_ok (r_state rx)"
    using base by (simp_all add: rx_base_def)
  have create: "effects dir recv_dir w
      (snd (journal_create (journal_new dir) (metadata_state recv_dir meta (r_state rx)) w))"
    if "accepted meta" "terminated (m_filename meta)" for w
    using metadata_state_ok [OF rd(2,3) len that(2)] that(1)
    by (intro effects_journal) (simp add: accepted_def)
  show ?thesis
    unfolding handle_metadata_cases [OF pl]
    by (auto simp: start_transfer_def Let_def send_ack_def j rd effects_journal effects_transmit create
        intro: effects_trans [OF effects_journal(4) create])
qed

lemma effects_handle_eof:
  assumes "rx_base dir recv_dir rx"
  shows "effects dir recv_dir (r_world rx) (outcome_world (handle_eof zcrc eof rx))"
proof -
  let ?rx = "if \<not> js_eof_received (r_state rx) then
             in_world (\<lambda>w. snd (mark_eof_received (r_journal rx) w))
               (rx\<lparr>r_state := set_eof (r_state rx)\<rparr>)
           else rx"
  have j: "r_journal rx = journal_new dir" using rx_baseD [OF assms] by simp
  have "effects dir recv_dir (r_world rx) (r_world ?rx)"
    by (simp add: j effects_journal)
  moreover have "r_journal ?rx = journal_new dir" by (simp add: j)
  ultimately have "effects dir recv_dir (r_world rx) (outcome_world (check_completion zcrc ?rx))"
    using effects_check_completion effects_trans by blast
  then show ?thesis by (simp add: handle_eof_def Let_def)
qed

lemma effects_on_pdu_received:
  assumes inv: "rx_inv dir recv_dir rx"
  shows "effects dir recv_dir (r_world rx) (outcome_world (on_pdu_received zcrc raw rx))"
proof -
  have base: "rx_base dir recv_dir rx" using inv by (simp add: rx_inv_def)
  have "effects dir recv_dir (r_world rx) (outcome_world (handle_resume_query q rx))" for q
    by (simp add: handle_resume_query_def Let_def effects_transmit)
  then show ?thesis
    using effects_handle_data [OF inv] effects_handle_metadata [OF base parse_metadata_filename] effects_handle_eof [OF base]
    by (auto simp: on_pdu_received_def pdu_type_of_Some
        split: list.splits option.splits PduType.splits)
qed

lemma effects_on_boot:
  assumes "rx_base dir recv_dir rx"
  shows "effects dir recv_dir (r_world rx) (outcome_world (on_boot zcrc rx))"
proof -
  have j: "r_journal rx = journal_new dir" using rx_baseD [OF assms] by simp
  let ?rx = "\<lambda>s pl. rx\<lparr>r_state := s, r_transfer_active := True, r_current_chunk_index := UINT32_MAX,
      r_max_chunk_seen := 0, r_packet_list := pl\<rparr>"
  have "effects dir recv_dir (r_world rx) (outcome_world (check_completion zcrc (?rx s pl)))"
    for s pl
    using effects_check_completion [where rx = "?rx s pl" and dir = dir and recv_dir = recv_dir and zcrc = zcrc] j by simp
  then show ?thesis
    by (auto simp: on_boot_def Let_def j effects_journal split: prod.splits option.splits)
qed

end
