(* ===== verification/Cfdp_Transport.thy ===== *)
theory Cfdp_Transport
  imports Cfdp_Prelude
begin

text \<open>
  \<open>receiver/UartTransport.cpp\<close>: the framing of PDUs on a byte stream, a 32-bit
  little-endian length and the PDU. What the system calls on the device give is a parameter: the
  record \<open>tty_calls\<close> of the constructor, the \<open>line\<close> of the readers. The memory for a PDU of the
  announced length is assumed to be there.
\<close>

section \<open>Opening and closing the device\<close>

text \<open>
  The constructor throws when \<open>open\<close> gives a negative number, and does not look at the results of
  \<open>tcgetattr\<close> and \<open>tcsetattr\<close>. \<open>'tty\<close> is \<open>struct termios\<close>, which the code never looks into;
  \<open>k_zeroed\<close> is the one with all bytes 0 that it starts from, and stays at when \<open>tcgetattr\<close> fails
  (\<open>None\<close>). The result is the descriptor and the settings given to \<open>tcsetattr\<close>.
\<close>

record 'tty tty_calls =
  k_open :: "bytes \<Rightarrow> int"
  k_tcgetattr :: "int \<Rightarrow> 'tty option"
  k_zeroed :: 'tty
  k_cfmakeraw :: "'tty \<Rightarrow> 'tty"

definition uart_new :: "'tty tty_calls \<Rightarrow> bytes \<Rightarrow> (int \<times> 'tty) option" where
  "uart_new calls device =
     (let fd = k_open calls device in
      if fd < 0 then None
      else let tty = (case k_tcgetattr calls fd of None \<Rightarrow> k_zeroed calls | Some tty \<Rightarrow> tty) in
        Some (fd, k_cfmakeraw calls tty))"

text \<open>The destructor: the descriptor it closes, if any.\<close>

definition uart_delete :: "int \<Rightarrow> int option" where
  "uart_delete fd = (if fd \<ge> 0 then Some fd else None)"

lemma uart_delete_closes: "uart_new calls device = Some (fd, tty) \<Longrightarrow> uart_delete fd = Some fd"
  by (auto simp: uart_new_def uart_delete_def Let_def split: if_splits)

text \<open>A device whose settings cannot be read is given those that start from zero.\<close>

lemma uart_new_unread_settings:
  "0 \<le> k_open calls device \<Longrightarrow> k_tcgetattr calls (k_open calls device) = None \<Longrightarrow>
     uart_new calls device = Some (k_open calls device, k_cfmakeraw calls (k_zeroed calls))"
  by (simp add: uart_new_def Let_def)

section \<open>The line\<close>

text \<open>
  What the kernel will hand out on the descriptor, in order: a piece of the byte stream, an
  error (or end of file), or a silence of more than 1.5 seconds, which only \<open>poll\<close> notices.
  When the list is used up, nothing arrives any more.
\<close>

datatype line_item = Got bytes | Failed | Quiet

type_synonym line = "line_item list"

datatype 'a received = Received 'a line | Read_error | Blocked

text \<open>
  One call of \<open>read\<close> gives at most what is asked for and leaves the rest of the piece.
\<close>

fun read_exact :: "bytes \<Rightarrow> nat \<Rightarrow> line \<Rightarrow> bytes received" where
  "read_exact got n [] = (if n = 0 then Received got [] else Blocked)"
| "read_exact got n (Quiet # line) =
     (if n = 0 then Received got (Quiet # line) else read_exact got n line)"
| "read_exact got n (Failed # line) =
     (if n = 0 then Received got (Failed # line) else Read_error)"
| "read_exact got n (Got piece # line) =
     (if n = 0 then Received got (Got piece # line)
      else if piece = [] then Read_error
      else if n < length piece then Received (got @ take n piece) (Got (drop n piece) # line)
      else read_exact (got @ piece) (n - length piece) line)"

definition uart_recv :: "line \<Rightarrow> bytes received" where
  "uart_recv line =
     (case read_exact [] 4 line of
        Received len_bytes line' \<Rightarrow>
          let len = get32 0 len_bytes in read_exact [] (unat len) line'
      | Read_error \<Rightarrow> Read_error | Blocked \<Rightarrow> Blocked)"

text \<open>
  \<open>send\<close> makes two calls of \<open>write\<close> and looks at neither result: \<open>k1\<close> and \<open>k2\<close> are
  the numbers of bytes the kernel takes.
\<close>

definition uart_send :: "nat \<Rightarrow> nat \<Rightarrow> bytes \<Rightarrow> bytes" where
  "uart_send k1 k2 pdu =
     (let len = (of_nat (length pdu) :: u32) in take k1 (le32 len) @ take k2 pdu)"

definition frame :: "bytes \<Rightarrow> bytes" where
  "frame pdu = le32 (of_nat (length pdu)) @ pdu"

lemma uart_send_frame:
  "4 \<le> k1 \<Longrightarrow> length pdu \<le> k2 \<Longrightarrow> uart_send k1 k2 pdu = frame pdu"
  by (simp add: uart_send_def frame_def layout)

section \<open>Fragmentation does not matter\<close>

text \<open>The bytes of a line that neither fails nor ends in an empty read.\<close>

fun item_bytes :: "line_item \<Rightarrow> bytes" where
  "item_bytes (Got piece) = piece"
| "item_bytes Failed = []"
| "item_bytes Quiet = []"

definition line_bytes :: "line \<Rightarrow> bytes" where
  "line_bytes line = concat (map item_bytes line)"

definition clean :: "line \<Rightarrow> bool" where
  "clean line \<longleftrightarrow> Failed \<notin> set line \<and> Got [] \<notin> set line"

lemma line_bytes_simps [simp]:
  "line_bytes [] = []" "line_bytes (item # line) = item_bytes item @ line_bytes line"
  by (simp_all add: line_bytes_def)

lemma clean_simps [simp]:
  "clean []" "clean (Quiet # line) = clean line" "\<not> clean (Failed # line)"
  "clean (Got piece # line) \<longleftrightarrow> piece \<noteq> [] \<and> clean line"
  by (auto simp: clean_def)

lemma read_exact_0 [simp]: "read_exact got 0 line = Received got line"
  by (induction got "0::nat" line rule: read_exact.induct) simp_all

lemma read_exact_clean:
  assumes "clean line" and "n \<le> length (line_bytes line)"
  shows "\<exists>line'. read_exact got n line = Received (got @ take n (line_bytes line)) line' \<and>
    clean line' \<and> line_bytes line' = drop n (line_bytes line)"
  using assms by (induction got n line rule: read_exact.induct) auto

lemma read_exact_clean_short:
  assumes "clean line" and "length (line_bytes line) < n"
  shows "read_exact got n line = Blocked"
  using assms by (induction got n line rule: read_exact.induct) auto

text \<open>What a reader of the line consumes, for the termination of the loops around it.\<close>

fun item_size :: "line_item \<Rightarrow> nat" where
  "item_size (Got piece) = Suc (length piece)"
| "item_size Failed = 1"
| "item_size Quiet = 1"

definition line_size :: "line \<Rightarrow> nat" where
  "line_size line = sum_list (map item_size line)"

lemma line_size_simps [simp]:
  "line_size [] = 0" "line_size (item # line) = item_size item + line_size line"
  by (simp_all add: line_size_def)

lemma read_exact_size:
  assumes "read_exact got n line = Received bs line'"
  shows "line_size line' + n \<le> line_size line" and "length bs = length got + n"
  using assms
proof (induction got n line rule: read_exact.induct)
  case (4 got n piece line)
  case 1
  with 4 show ?case by (auto split: if_splits)
next
  case (4 got n piece line)
  case 2
  with 4 show ?case by (auto split: if_splits)
qed (auto split: if_splits)

lemma uart_recv_size: "uart_recv line = Received pdu line' \<Longrightarrow> line_size line' < line_size line"
  unfolding uart_recv_def
  by (auto simp: Let_def split: received.splits dest!: read_exact_size(1))

lemma uart_recv_Cons_Quiet [simp]: "uart_recv (Quiet # line) = uart_recv line"
  by (simp add: uart_recv_def)

lemma uart_recv_frame:
  assumes "clean line" and "line_bytes line = frame pdu @ rest" and "length pdu < 2 ^ 32"
  shows "\<exists>line'. uart_recv line = Received pdu line' \<and> clean line' \<and> line_bytes line' = rest"
proof -
  have "length (le32 (of_nat (length pdu))) = 4" by (simp add: layout)
  from read_exact_clean [OF assms(1), of 4 "[]"] this assms(2) obtain line1 where
    l1: "read_exact [] 4 line = Received (le32 (of_nat (length pdu))) line1" "clean line1"
      "line_bytes line1 = pdu @ rest"
    by (auto simp: frame_def)
  have "unat (get32 0 (le32 (of_nat (length pdu)))) = length pdu"
    using assms(3) by (simp add: layout get32_le32 [of _ "[]", simplified] unat_of_nat)
  with l1 read_exact_clean [OF l1(2), of "length pdu" "[]"] show ?thesis
    by (auto simp: uart_recv_def)
qed

section \<open>The interface the receiving loop relies on\<close>

text \<open>A reader of a byte stream that recovers the units an encoder put on it.\<close>

fun receive_n :: "('l \<Rightarrow> ('p \<times> 'l) option) \<Rightarrow> nat \<Rightarrow> 'l \<Rightarrow> ('p list \<times> 'l) option" where
  "receive_n receive 0 l = Some ([], l)"
| "receive_n receive (Suc n) l =
     (case receive l of None \<Rightarrow> None
      | Some (p, l') \<Rightarrow> (case receive_n receive n l' of None \<Rightarrow> None
          | Some (ps, l'') \<Rightarrow> Some (p # ps, l'')))"

locale framed_channel =
  fixes encode :: "'p \<Rightarrow> bytes" and legal :: "'p \<Rightarrow> bool"
    and receive :: "'l \<Rightarrow> ('p \<times> 'l) option"
    and sound :: "'l \<Rightarrow> bool" and pending :: "'l \<Rightarrow> bytes"
  assumes receive_encoded: "sound l \<Longrightarrow> legal p \<Longrightarrow> pending l = encode p @ rest \<Longrightarrow>
      \<exists>l'. receive l = Some (p, l') \<and> sound l' \<and> pending l' = rest"
begin

lemma receive_all:
  assumes "sound l" and "\<forall>p \<in> set ps. legal p" and "pending l = concat (map encode ps) @ rest"
  shows "\<exists>l'. receive_n receive (length ps) l = Some (ps, l') \<and> sound l' \<and> pending l' = rest"
  using assms
proof (induction ps arbitrary: l)
  case Nil
  then show ?case by simp
next
  case (Cons p ps)
  from Cons.prems receive_encoded [of l p "concat (map encode ps) @ rest"] obtain l1 where
    "receive l = Some (p, l1)" "sound l1" "pending l1 = concat (map encode ps) @ rest"
    by auto
  with Cons.IH [of l1] Cons.prems(2) show ?case by auto
qed

end

definition uart_receive :: "line \<Rightarrow> (bytes \<times> line) option" where
  "uart_receive line =
     (case uart_recv line of Received pdu line' \<Rightarrow> Some (pdu, line')
      | Read_error \<Rightarrow> None | Blocked \<Rightarrow> None)"

interpretation uart: framed_channel frame "\<lambda>pdu. length pdu < 2 ^ 32" uart_receive clean line_bytes
proof
  fix l :: line and p rest :: bytes
  assume "clean l" "length p < 2 ^ 32" "line_bytes l = frame p @ rest"
  from uart_recv_frame [OF this(1,3,2)]
  show "\<exists>l'. uart_receive l = Some (p, l') \<and> clean l' \<and> line_bytes l' = rest"
    by (auto simp: uart_receive_def)
qed

section \<open>Properties\<close>

text \<open>C27: However the kernel cuts the byte stream into reads, and with silences anywhere, the
  receiver gets back exactly the PDUs whose frames were sent, and leaves the bytes behind them
  on the line.\<close>

theorem frames_survive_fragmentation:
  assumes "clean line" and "\<forall>pdu \<in> set pdus. length pdu < 2 ^ 32"
    and "line_bytes line = concat (map frame pdus) @ rest"
  shows "\<exists>line'. receive_n uart_receive (length pdus) line = Some (pdus, line') \<and>
    clean line' \<and> line_bytes line' = rest"
  by (rule uart.receive_all [OF assms])

theorem frames_survive_fragmentation_witness:
  "\<exists>line'. receive_n uart_receive 2 [Got [2, 0], Quiet, Got [0, 0, 7], Got [8, 1, 0, 0, 0, 9, 5]] =
     Some ([[7, 8], [9]], line') \<and> line_bytes line' = [5]"
proof -
  let ?line = "[Got [2, 0], Quiet, Got [0, 0, 7], Got [8, 1, 0, 0, 0, 9, 5]] :: line"
  have "line_bytes ?line = concat (map frame [[7, 8], [9]]) @ [5]"
    by code_simp
  then have "\<exists>line'. receive_n uart_receive (length [[7, 8], [9 :: u8]]) ?line = Some ([[7, 8], [9]], line') \<and>
      clean line' \<and> line_bytes line' = [5]"
    by (intro frames_survive_fragmentation) simp_all
  then obtain line' where
    "receive_n uart_receive (length [[7, 8], [9 :: u8]]) ?line = Some ([[7, 8], [9]], line')"
    "line_bytes line' = [5]" by blast
  moreover have "length [[7, 8], [9 :: u8]] = 2" by simp
  ultimately show ?thesis by metis
qed

text \<open>\<open>send\<close> ignores what \<open>write\<close> returns. When the kernel takes only part of a PDU, the
  receiver is out of step: it completes the cut PDU with the next frame's bytes.\<close>

lemma short_write_desynchronizes:
  "\<exists>line'. uart_receive [Got (uart_send 4 1 [1, 2] @ uart_send 4 1 [3])] = Some ([1, 1], line')"
proof -
  have "uart_send 4 1 [1, 2] @ uart_send 4 1 [3] = [2, 0, 0, 0, 1, 1, 0, 0, 0, 3]" by code_simp
  moreover have "uart_recv [Got [2, 0, 0, 0, 1, 1, 0, 0, 0, 3]] = Received [1, 1] [Got [0, 0, 0, 3]]"
    by code_simp
  ultimately show ?thesis by (simp add: uart_receive_def)
qed

end
