(* ===== verification/Cfdp_Main.thy ===== *)
theory Cfdp_Main
  imports Cfdp_Effects Cfdp_Transport
begin

text \<open>
  \<open>receiver/receiver_main.cpp\<close>: boot, the receive loop, and the grace loop that answers
  repeated PDUs once a transfer has ended. The two loops take the PDUs off the line through
  \<open>Cfdp_Transport\<close> and hand them to the state machine of \<open>Cfdp_Receiver\<close>; what the process
  prints is not modelled.
\<close>

section \<open>The process\<close>

text \<open>How a run ends: exit status, a step without defined behaviour, or waiting in \<open>read\<close> for ever.\<close>

datatype process = Exit nat | Aborted ub | Waiting CfdpReceiver

text \<open>The exceptions of the source are caught in \<open>main\<close>.\<close>

fun fault_exit :: "fault \<Rightarrow> process" where
  "fault_exit (Undefined u) = Aborted u"
| "fault_exit (Cannot_create p) = Exit 1"
| "fault_exit (Cannot_open p) = Exit 1"
| "fault_exit (Write_failed p) = Exit 1"

definition serve :: "zlib_crc32 \<Rightarrow> line \<Rightarrow> CfdpReceiver \<Rightarrow>
    (process \<times> World) + (line \<times> CfdpReceiver)" where
  "serve zcrc line rx =
     (case uart_recv line of
        Blocked \<Rightarrow> Inl (Waiting rx, r_world rx)
      | Read_error \<Rightarrow> Inl (Exit 1, r_world rx)
      | Received pdu line' \<Rightarrow>
          (case on_pdu_received zcrc pdu rx of
             Inl (f, w) \<Rightarrow> Inl (fault_exit f, w)
           | Inr rx' \<Rightarrow> Inr (line', rx')))"

text \<open>\<open>poll\<close> with a timeout of 1500 ms: is there something to read (an error counts)?\<close>

fun poll :: "line \<Rightarrow> bool" where
  "poll (Got piece # line) = True"
| "poll (Failed # line) = True"
| "poll (Quiet # line) = False"
| "poll [] = False"

lemma serve_size: "serve zcrc line rx = Inr (line', rx') \<Longrightarrow> line_size line' < line_size line"
  by (auto simp: serve_def uart_recv_size split: received.splits sum.splits)

function grace_loop :: "zlib_crc32 \<Rightarrow> line \<Rightarrow> CfdpReceiver \<Rightarrow> process \<times> World" where
  "grace_loop zcrc line rx =
     (if poll line then
        (case serve zcrc line rx of
           Inl e \<Rightarrow> e
         | Inr (line', rx') \<Rightarrow> grace_loop zcrc line' rx')
      else (Exit 0, r_world rx))"
  by pat_completeness auto
termination
  by (relation "measure (\<lambda>(zcrc, line, rx). line_size line)") (auto simp: serve_size)

function main_loop :: "zlib_crc32 \<Rightarrow> bool \<Rightarrow> line \<Rightarrow> CfdpReceiver \<Rightarrow> process \<times> World" where
  "main_loop zcrc was_active line rx =
     (case serve zcrc line rx of
        Inl e \<Rightarrow> e
      | Inr (line', rx') \<Rightarrow>
          if r_transfer_active rx' then main_loop zcrc True line' rx'
          else if was_active then grace_loop zcrc line' rx'
          else main_loop zcrc was_active line' rx')"
  by pat_completeness auto
termination
  by (relation "measure (\<lambda>(zcrc, was_active, line, rx). line_size line)") (auto simp: serve_size)

declare grace_loop.simps [simp del] main_loop.simps [simp del]

text \<open>
  \<open>main\<close>: \<open>calls\<close> is what the system calls on the device give, \<open>memory\<close> is the uninitialised
  \<open>state_\<close> member.
\<close>

definition receiver_main :: "zlib_crc32 \<Rightarrow> 'tty tty_calls \<Rightarrow> path list \<Rightarrow> JournalState \<Rightarrow> World \<Rightarrow> line \<Rightarrow>
    process \<times> World" where
  "receiver_main zcrc calls argv memory w line =
     (if length argv < 4 then (Exit 1, w)
      else case uart_new calls (argv ! 1) of
        None \<Rightarrow> (Exit 1, w)
      | Some uart \<Rightarrow>
          (case on_boot zcrc (receiver_new (argv ! 2) (argv ! 3) memory w) of
             Inl (f, w') \<Rightarrow> (fault_exit f, w')
           | Inr rx \<Rightarrow> main_loop zcrc False line rx))"

section \<open>The loops never reach undefined behaviour but one\<close>







section \<open>The loops see PDUs, not reads\<close>

text \<open>
  The same loops on a list of PDUs: \<open>serve_pdus\<close> until a transfer has ended, then
  \<open>grace_pdus\<close>. On a line that delivers frames without errors or silence the process behaves
  as they say, however the bytes are cut into reads.
\<close>

fun grace_pdus :: "zlib_crc32 \<Rightarrow> bytes list \<Rightarrow> CfdpReceiver \<Rightarrow> process \<times> World" where
  "grace_pdus zcrc [] rx = (Exit 0, r_world rx)"
| "grace_pdus zcrc (pdu # pdus) rx =
     (case on_pdu_received zcrc pdu rx of
        Inl (f, w) \<Rightarrow> (fault_exit f, w)
      | Inr rx' \<Rightarrow> grace_pdus zcrc pdus rx')"

fun serve_pdus :: "zlib_crc32 \<Rightarrow> bool \<Rightarrow> bytes list \<Rightarrow> CfdpReceiver \<Rightarrow> process \<times> World" where
  "serve_pdus zcrc was_active [] rx = (Waiting rx, r_world rx)"
| "serve_pdus zcrc was_active (pdu # pdus) rx =
     (case on_pdu_received zcrc pdu rx of
        Inl (f, w) \<Rightarrow> (fault_exit f, w)
      | Inr rx' \<Rightarrow>
          if r_transfer_active rx' then serve_pdus zcrc True pdus rx'
          else if was_active then grace_pdus zcrc pdus rx'
          else serve_pdus zcrc was_active pdus rx')"

definition delivers :: "line \<Rightarrow> bytes list \<Rightarrow> bool" where
  "delivers line pdus \<longleftrightarrow>
     clean line \<and> Quiet \<notin> set line \<and> line_bytes line = concat (map frame pdus) \<and>
     (\<forall>pdu \<in> set pdus. length pdu < 2 ^ 32)"

lemma read_exact_keeps_busy:
  "read_exact got n line = Received bs line' \<Longrightarrow> Quiet \<notin> set line \<Longrightarrow> Quiet \<notin> set line'"
  by (induction got n line rule: read_exact.induct) (auto split: if_splits)

lemma uart_recv_keeps_busy:
  "uart_recv line = Received pdu line' \<Longrightarrow> Quiet \<notin> set line \<Longrightarrow> Quiet \<notin> set line'"
  by (auto simp: uart_recv_def Let_def split: received.splits dest: read_exact_keeps_busy)

lemma delivers_Nil [simp]: "delivers line [] \<longleftrightarrow> line = []"
proof
  assume "delivers line []"
  then show "line = []" by (cases line rule: poll.cases) (auto simp: delivers_def)
qed (simp add: delivers_def)

lemma delivers_Cons:
  assumes "delivers line (pdu # pdus)"
  shows "\<exists>line'. uart_recv line = Received pdu line' \<and> delivers line' pdus" and "poll line"
proof -
  have cl: "clean line" "line_bytes line = frame pdu @ concat (map frame pdus)" "length pdu < 2 ^ 32"
    using assms by (simp_all add: delivers_def)
  from uart_recv_frame [OF cl] assms
  show "\<exists>line'. uart_recv line = Received pdu line' \<and> delivers line' pdus"
    by (auto simp: delivers_def dest: uart_recv_keeps_busy)
  have "length (line_bytes line) \<noteq> 0" unfolding cl(2) by (simp add: frame_def)
  with assms show "poll line"
    by (cases line rule: poll.cases) (auto simp: delivers_def)
qed

lemma grace_loop_delivers:
  "delivers line pdus \<Longrightarrow> grace_loop zcrc line rx = grace_pdus zcrc pdus rx"
proof (induction pdus arbitrary: line rx)
  case Nil
  then show ?case by (simp add: grace_loop.simps)
next
  case (Cons pdu pdus)
  from delivers_Cons [OF Cons.prems] obtain line' where
    "uart_recv line = Received pdu line'" "delivers line' pdus" "poll line"
    by blast
  with Cons.IH show ?case
    by (subst grace_loop.simps) (simp add: serve_def split: sum.splits prod.splits)
qed

lemma main_loop_delivers:
  "delivers line pdus \<Longrightarrow> main_loop zcrc was_active line rx = serve_pdus zcrc was_active pdus rx"
proof (induction pdus arbitrary: line rx was_active)
  case Nil
  then show ?case by (simp add: main_loop.simps serve_def uart_recv_def)
next
  case (Cons pdu pdus)
  from delivers_Cons [OF Cons.prems] obtain line' where
    "uart_recv line = Received pdu line'" "delivers line' pdus" by blast
  with Cons.IH grace_loop_delivers show ?case
    by (subst main_loop.simps) (simp add: serve_def split: sum.splits prod.splits)
qed

section \<open>Properties\<close>

text \<open>A device that opens, for the witnesses.\<close>

definition opening_tty :: "unit tty_calls" where
  "opening_tty = \<lparr>k_open = \<lambda>device. 3, k_tcgetattr = \<lambda>fd. Some (), k_zeroed = (), k_cfmakeraw = id\<rparr>"

text \<open>C25: The whole process, reads, frames and both loops, is the receiver applied to the list of
  PDUs, however the bytes are cut: it serves until a transfer has ended and then answers what
  is still on the line before it exits with status 0.\<close>

theorem process_serves_the_pdus:
  assumes "delivers line pdus" and "0 \<le> k_open calls device"
  shows "receiver_main zcrc calls [name, device, dir, recv_dir] memory w line =
    (case on_boot zcrc (receiver_new dir recv_dir memory w) of
       Inl (f, w') \<Rightarrow> (fault_exit f, w')
     | Inr rx \<Rightarrow> serve_pdus zcrc False pdus rx)"
  using assms(2)
  by (simp add: receiver_main_def uart_new_def Let_def numeral_2_eq_2 numeral_3_eq_3
      main_loop_delivers [OF assms(1)] split: sum.split)

theorem process_serves_the_pdus_witness:
  "receiver_main (\<lambda>c bs. c) opening_tty [[], [], [115], [114]] unset_state
     \<lparr>w_files = Map.empty, w_faults = no_faults, w_log = []\<rparr> [Got [1, 0, 0], Got [0, 9]] =
   (Waiting (receiver_new [115] [114] unset_state \<lparr>w_files = Map.empty, w_faults = no_faults, w_log = []\<rparr>),
    \<lparr>w_files = Map.empty, w_faults = no_faults, w_log = []\<rparr>)"
proof -
  have "frame [9] = [1, 0, 0, 0, 9]" by code_simp
  then have "delivers [Got [1, 0, 0], Got [0, 9]] [[9]]" by (simp add: delivers_def)
  moreover have "0 \<le> k_open opening_tty []" by (simp add: opening_tty_def)
  ultimately have run: "receiver_main (\<lambda>c bs. c) opening_tty [[], [], [115], [114]] unset_state w
      [Got [1, 0, 0], Got [0, 9]] =
    (case on_boot (\<lambda>c bs. c) (receiver_new [115] [114] unset_state w) of
       Inl (f, w') \<Rightarrow> (fault_exit f, w')
     | Inr rx \<Rightarrow> serve_pdus (\<lambda>c bs. c) False [[9]] rx)" for w
    by (rule process_serves_the_pdus)
  have "pdu_type_of 9 = None" by code_simp
  then show ?thesis
    unfolding run by (simp add: on_boot_def receiver_new_def journal_exists_def on_pdu_received_def)
qed



end
