(* ===== verification/Cfdp_Sender.thy ===== *)
theory Cfdp_Sender
  imports Cfdp_Codec Cfdp_Crc
begin

text \<open>
  \<open>sender/sender.py\<close>, the part that builds PDUs: the ground station that talks to the C++
  receiver. Python integers are unbounded (\<open>int\<close>); \<open>struct.pack\<close> raises on a value that
  does not fit its field, which is \<open>None\<close>. A method that sends several PDUs gives those sent
  before an exception, and whether it returned.
\<close>

section \<open>Cutting a byte string into pieces\<close>

definition piece :: "nat \<Rightarrow> bytes \<Rightarrow> nat \<Rightarrow> bytes" where
  "piece n bs i = take n (drop (i * n) bs)"

definition pieces :: "nat \<Rightarrow> nat \<Rightarrow> nat" where
  "pieces n len = (len + n - 1) div n"

lemma pieces_le: "0 < n \<Longrightarrow> pieces n len \<le> k \<longleftrightarrow> len \<le> k * n"
proof -
  assume n: "0 < n"
  have "pieces n len \<le> k \<longleftrightarrow> pieces n len < Suc k" by (simp add: less_Suc_eq_le)
  also have "\<dots> \<longleftrightarrow> len + n - 1 < Suc k * n"
    unfolding pieces_def using n by (rule div_less_iff_less_mult)
  also have "\<dots> \<longleftrightarrow> len \<le> k * n" using n by auto
  finally show ?thesis .
qed

lemma less_pieces: "0 < n \<Longrightarrow> i < pieces n len \<longleftrightarrow> i * n < len"
  using pieces_le [of n len i] by linarith

lemma concat_piece_prefix: "concat (map (piece n bs) [0..<k]) = take (k * n) bs"
  by (induction k) (simp_all add: piece_def take_add [symmetric] add.commute)

lemma concat_pieces: "0 < n \<Longrightarrow> concat (map (piece n bs) [0..<pieces n (length bs)]) = bs"
  using pieces_le [of n "length bs" "pieces n (length bs)"] by (simp add: concat_piece_prefix)

lemma length_piece: "length (piece n bs i) = min n (length bs - i * n)"
  by (simp add: piece_def min.commute)

lemma piece_nonempty: "0 < n \<Longrightarrow> i < pieces n (length bs) \<Longrightarrow> piece n bs i \<noteq> []"
  by (simp add: less_pieces piece_def)

section \<open>The checksum in Python\<close>

definition py_crc8_shift :: "int \<Rightarrow> int" where
  "py_crc8_shift crc =
     (if crc AND 0x80 \<noteq> 0 then (push_bit 1 crc XOR 0x07) AND 0xFF else push_bit 1 crc AND 0xFF)"

fun py_crc8_loop :: "int \<Rightarrow> int list \<Rightarrow> int" where
  "py_crc8_loop crc [] = crc"
| "py_crc8_loop crc (b # bs) = py_crc8_loop ((py_crc8_shift ^^ 8) (crc XOR b)) bs"

definition py_crc8 :: "bytes \<Rightarrow> int" where
  "py_crc8 data = py_crc8_loop 0 (map uint data)"

lemma and_0xFF: "(k :: int) AND 0xFF = take_bit 8 k"
  by (simp add: take_bit_eq_mask mask_eq_exp_minus_1)

lemma py_crc8_shift: "py_crc8_shift (uint crc) = uint (crc8_shift crc)"
proof -
  have "uint crc AND 0x80 \<noteq> 0 \<longleftrightarrow> crc AND 0x80 \<noteq> 0"
  proof -
    have "uint (crc AND 0x80) = uint crc AND 0x80" by (simp add: uint_and)
    then show ?thesis by (metis uint_0_iff)
  qed
  moreover have "uint (push_bit 1 crc) = take_bit 8 (push_bit 1 (uint crc))"
    by (subst unsigned_push_bit_eq) simp
  moreover have "uint (push_bit 1 crc XOR 7) = take_bit 8 (push_bit 1 (uint crc)) XOR 7"
    unfolding unsigned_xor_eq calculation(2) by simp
  ultimately show ?thesis
    unfolding py_crc8_shift_def crc8_shift_def and_0xFF take_bit_xor by (simp only: split: if_split) simp
qed

lemma py_crc8_shifts: "(py_crc8_shift ^^ n) (uint crc) = uint ((crc8_shift ^^ n) crc)"
  by (induction n) (simp_all add: py_crc8_shift)

lemma py_crc8_loop: "py_crc8_loop (uint crc) (map uint data) = uint (crc8_loop crc data)"
proof (induction data arbitrary: crc)
  case Nil
  then show ?case by simp
next
  case (Cons b data)
  have "uint crc XOR uint b = uint (crc XOR b)" by (simp add: unsigned_xor_eq)
  with Cons show ?case by (simp only: list.map py_crc8_loop.simps crc8_loop.simps py_crc8_shifts crc8_byte_def)
qed

lemma py_crc8: "py_crc8 data = uint (crc8 data)"
  using py_crc8_loop [of 0 data] by (simp add: py_crc8_def crc8_def)

text \<open>
  \<open>crc32_file\<close> of the sender: blocks of 65536 bytes, from 0, where the receiver starts with
  zlib's initial value and reads blocks of 4096.
\<close>

function py_crc32_loop :: "zlib_crc32 \<Rightarrow> u32 \<Rightarrow> bytes \<Rightarrow> u32" where
  "py_crc32_loop zcrc crc bs =
     (if bs = [] then crc else py_crc32_loop zcrc (zcrc crc (take 65536 bs)) (drop 65536 bs))"
  by pat_completeness auto
termination
  by (relation "measure (\<lambda>(zcrc, crc, bs). length bs)") auto

declare py_crc32_loop.simps [simp del]

definition py_crc32_file :: "zlib_crc32 \<Rightarrow> bytes \<Rightarrow> int" where
  "py_crc32_file zcrc file = uint (py_crc32_loop zcrc 0 file) AND 0xFFFFFFFF"

lemma py_crc32_loop_streaming:
  assumes "zlib_streaming zcrc"
  shows "py_crc32_loop zcrc (zcrc c xs) bs = zcrc c (xs @ bs)"
proof (induction "length bs" arbitrary: xs bs rule: less_induct)
  case less
  show ?case
  proof (cases "bs = []")
    case True
    then show ?thesis by (simp add: py_crc32_loop.simps)
  next
    case False
    then have "length (drop 65536 bs) < length bs" by simp
    from less [OF this, of "xs @ take 65536 bs"] False assms show ?thesis
      by (subst py_crc32_loop.simps) (simp add: zlib_streaming_def)
  qed
qed

lemma py_crc32_file:
  assumes "zlib_streaming zcrc" and "file \<noteq> []"
  shows "py_crc32_file zcrc file = uint (crc32_file zcrc (Some file))"
proof -
  have "py_crc32_loop zcrc 0 file = zcrc 0 file"
    using py_crc32_loop_streaming [OF assms(1), of 0 "take 65536 file" "drop 65536 file"] assms(2)
    by (subst py_crc32_loop.simps) simp
  moreover have "uint x AND 0xFFFFFFFF = uint x" for x :: u32
  proof -
    have "uint x AND 0xFFFFFFFF = take_bit 32 (uint x)" by (simp add: take_bit_eq_mask mask_eq_exp_minus_1)
    then show ?thesis using uint_lt2p [of x] by (simp add: take_bit_int_eq_self)
  qed
  ultimately show ?thesis by (simp add: py_crc32_file_def crc32_file_whole [OF assms(1)])
qed

section \<open>Builders\<close>

record CfdpSender =
  t_tid :: int
  t_chunk_size :: int
  t_packet_size :: int

definition pack_B :: "int \<Rightarrow> bytes option" where
  "pack_B n = (if 0 \<le> n \<and> n < 2 ^ 8 then Some [word_of_int n] else None)"

definition pack_I :: "int \<Rightarrow> bytes option" where
  "pack_I n = (if 0 \<le> n \<and> n < 2 ^ 32 then Some (le32 (word_of_int n)) else None)"

definition pack_Q :: "int \<Rightarrow> bytes option" where
  "pack_Q n = (if 0 \<le> n \<and> n < 2 ^ 64 then Some (le64 (word_of_int n)) else None)"

fun pack :: "bytes option list \<Rightarrow> bytes option" where
  "pack [] = Some []"
| "pack (None # fs) = None"
| "pack (Some f # fs) = map_option ((@) f) (pack fs)"

definition encode_ascii :: "string \<Rightarrow> bytes option" where
  "encode_ascii s = (if list_all (\<lambda>c. (of_char c :: nat) < 128) s then Some (ascii s) else None)"

definition ljust :: "nat \<Rightarrow> bytes \<Rightarrow> bytes" where
  "ljust n bs = bs @ replicate (n - length bs) 0"

definition send_metadata :: "CfdpSender \<Rightarrow> string \<Rightarrow> int \<Rightarrow> int \<Rightarrow> int \<Rightarrow> bytes option" where
  "send_metadata s dest_filename file_size total_chunks checksum =
     (case encode_ascii dest_filename of None \<Rightarrow> None
      | Some name \<Rightarrow>
          let fname = ljust 256 (take 255 name) in
          map_option ((#) (pdu_code Metadata))
            (pack [pack_I (t_tid s), pack_Q file_size, pack_I (t_chunk_size s),
               pack_I (t_packet_size s), pack_I total_chunks, pack_I checksum, Some fname]))"

text \<open>\<open>f.read(n)\<close> reads to the end of the file when \<open>n\<close> is negative; \<open>f.seek\<close> raises then.\<close>

definition file_read :: "bytes \<Rightarrow> int \<Rightarrow> int \<Rightarrow> bytes" where
  "file_read file pos n =
     (let rest = drop (nat pos) file in if n < 0 then rest else take (nat n) rest)"

definition send_packet :: "CfdpSender \<Rightarrow> bytes \<Rightarrow> int \<Rightarrow> int \<Rightarrow> int \<Rightarrow> int \<Rightarrow> int \<Rightarrow> bytes option" where
  "send_packet s file chunk_index packet_index total_pkts chunk_off chunk_sz =
     (let pkt_off = chunk_off + packet_index * t_packet_size s;
          data_len = min (chunk_sz - packet_index * t_packet_size s) (t_packet_size s)
      in if pkt_off < 0 then None
      else let data = file_read file pkt_off data_len in
        map_option (\<lambda>header. pdu_code Data # header @ data @
            replicate (nat (t_packet_size s - data_len)) 0)
          (pack [pack_I (t_tid s), pack_I chunk_index, pack_I packet_index, pack_I total_pkts,
             pack_I data_len, pack_B (py_crc8 data)]))"

text \<open>PDUs sent one after the other, up to the first exception.\<close>

fun send_all :: "bytes option list \<Rightarrow> bytes list \<times> bool" where
  "send_all [] = ([], True)"
| "send_all (None # ps) = ([], False)"
| "send_all (Some p # ps) = (let (sent, ok) = send_all ps in (p # sent, ok))"

text \<open>The division raises on a packet size of zero, which the callers check.\<close>

definition chunk_geometry :: "CfdpSender \<Rightarrow> bytes \<Rightarrow> int \<Rightarrow> int \<times> int \<times> int" where
  "chunk_geometry s file ci =
     (let chunk_off = ci * t_chunk_size s;
          chunk_sz = min (int (length file) - chunk_off) (t_chunk_size s);
          total_pkts = (chunk_sz + t_packet_size s - 1) div t_packet_size s
      in (chunk_off, chunk_sz, total_pkts))"

definition send_one_chunk :: "CfdpSender \<Rightarrow> bytes \<Rightarrow> int \<Rightarrow> bytes list \<times> bool" where
  "send_one_chunk s file ci =
     (if t_packet_size s = 0 then ([], False)
      else case chunk_geometry s file ci of (chunk_off, chunk_sz, total_pkts) \<Rightarrow>
        send_all (map (\<lambda>pi. send_packet s file ci pi total_pkts chunk_off chunk_sz)
          [0..total_pkts - 1]))"

definition send_eof :: "CfdpSender \<Rightarrow> int \<Rightarrow> bytes option" where
  "send_eof s checksum =
     map_option ((#) (pdu_code Eof)) (pack [pack_I (t_tid s), pack_I checksum])"

text \<open>
  \<open>_on_nak\<close>, with the body of its loop: one range of packets to send again. The transaction id
  of the NAK is not looked at.
\<close>

definition resend_range :: "CfdpSender \<Rightarrow> bytes \<Rightarrow> bytes \<Rightarrow> bytes option list" where
  "resend_range s file p =
     (if length p < 12 \<or> t_packet_size s = 0 then [None]
      else let ci = uint (get32 0 p); first = uint (get32 4 p); last = uint (get32 8 p) in
        (case chunk_geometry s file ci of (chunk_off, chunk_sz, total_pkts) \<Rightarrow>
           map (\<lambda>pi. send_packet s file ci pi total_pkts chunk_off chunk_sz) [first..last]))"

definition on_nak :: "CfdpSender \<Rightarrow> bytes \<Rightarrow> bytes \<Rightarrow> bytes list \<times> bool" where
  "on_nak s file payload =
     (if length payload < 8 then ([], False)
      else let count = unat (get32 4 payload) in
        send_all (concat (map (\<lambda>i. resend_range s file (drop (8 + i * 12) payload)) [0..<count])))"

text \<open>The numbers of \<open>send\<close>, and the ones of \<open>_query_resume\<close>.\<close>

definition total_chunks_of :: "CfdpSender \<Rightarrow> bytes \<Rightarrow> int" where
  "total_chunks_of s file = (int (length file) + t_chunk_size s - 1) div t_chunk_size s"

definition resume_query :: "CfdpSender \<Rightarrow> bytes option" where
  "resume_query s = map_option ((#) (pdu_code ResumeQuery)) (pack [pack_I (t_tid s)])"

lemma send_all_Some [simp]: "send_all (map Some ps) = (ps, True)"
  by (induction ps) simp_all

section \<open>Properties\<close>

text \<open>C35: The sender's checksums are the receiver's: CRC-8 on unbounded Python integers with masks
  is CRC-8 on bytes that wrap, and the CRC-32 of a file does not depend on the different block
  sizes and first values of the two programs.\<close>

theorem sender_checksums_are_the_receivers:
  assumes "zlib_streaming zcrc" and "file \<noteq> []"
  shows "py_crc8 data = uint (crc8 data) \<and>
    py_crc32_file zcrc file = uint (crc32_file zcrc (Some file))"
  using py_crc8 py_crc32_file [OF assms] by simp

theorem sender_checksums_are_the_receivers_witness:
  "py_crc32_file ieee_crc32 [1, 2, 3] = uint (crc32_file ieee_crc32 (Some [1, 2, 3]))"
  using sender_checksums_are_the_receivers [OF ieee_crc32_streaming, of "[1, 2, 3]" "[]"] by simp

end
