(* ===== verification/Cfdp_Integrity.thy ===== *)
theory Cfdp_Integrity
  imports Cfdp_Effects Cfdp_Sender
begin

text \<open>
  What the receiver promises about the bytes on disk, under any refused system call and a
  crash at any point. A transfer is given by its \<open>Metadata\<close> and the file it describes; the
  PDUs that arrive are honest: every \<open>Metadata\<close> is this one, and a data packet of the
  transaction whose CRC-8 matches carries the bytes the file has at its place. PDUs may be
  lost, repeated, reordered, cut, or invented in any other way.
\<close>

section \<open>A transfer and its pieces\<close>

definition describes :: "MetadataPdu \<Rightarrow> bytes \<Rightarrow> bool" where
  "describes m file \<longleftrightarrow>
     m_transaction_id m \<noteq> 0 \<and> accepted m \<and> metadata_fits m \<and> terminated (m_filename m) \<and>
     length (cstr (m_filename m)) < 255 \<and>
     unat (m_file_size m) = length file \<and> length file < 2 ^ 63 \<and>
     unat (m_chunk_size m) + unat (m_packet_size m) \<le> 2 ^ 32 \<and>
     unat (m_total_chunks m) = pieces (unat (m_chunk_size m)) (length file)"

definition chunk_of :: "MetadataPdu \<Rightarrow> bytes \<Rightarrow> u32 \<Rightarrow> bytes" where
  "chunk_of m file ci = piece (unat (m_chunk_size m)) file (unat ci)"

definition packets_in :: "MetadataPdu \<Rightarrow> bytes \<Rightarrow> u32 \<Rightarrow> nat" where
  "packets_in m file ci = pieces (unat (m_packet_size m)) (length (chunk_of m file ci))"

definition packet_of :: "MetadataPdu \<Rightarrow> bytes \<Rightarrow> u32 \<Rightarrow> nat \<Rightarrow> bytes" where
  "packet_of m file ci i = piece (unat (m_packet_size m)) (chunk_of m file ci) i"

definition dest_of :: "path \<Rightarrow> MetadataPdu \<Rightarrow> path" where
  "dest_of recv_dir m = recv_dir @ ascii ''/'' @ cstr (m_filename m)"

definition transfer_of :: "path \<Rightarrow> MetadataPdu \<Rightarrow> JournalState \<Rightarrow> bool" where
  "transfer_of recv_dir m s \<longleftrightarrow>
     js_transaction_id s = m_transaction_id m \<and> js_file_size s = m_file_size m \<and>
     js_chunk_size s = m_chunk_size m \<and> js_packet_size s = m_packet_size m \<and>
     js_total_chunks s = m_total_chunks m \<and> js_checksum_expected s = m_checksum m \<and>
     cstr (js_dest_path s) = dest_of recv_dir m \<and> terminated (js_filename s)"

lemma describesD:
  assumes "describes m file"
  shows "0 < unat (m_chunk_size m)" "0 < unat (m_packet_size m)"
    "ci < m_total_chunks m \<longleftrightarrow> unat ci * unat (m_chunk_size m) < length file"
    "file \<noteq> []" "unat (m_total_chunks m) \<le> 2 ^ 20" "unat (m_packet_size m) \<le> 4096"
proof -
  show cs: "0 < unat (m_chunk_size m)" "0 < unat (m_packet_size m)"
    using assms by (simp_all add: describes_def accepted_def unat_gt_0 word_neq_0_conv)
  show "ci < m_total_chunks m \<longleftrightarrow> unat ci * unat (m_chunk_size m) < length file"
    using assms less_pieces [OF cs(1)] by (simp add: describes_def word_less_nat_alt)
  show "file \<noteq> []"
    using assms by (auto simp: describes_def accepted_def pieces_def word_less_nat_alt)
  have "m_total_chunks m \<le> 2 ^ 20" "m_packet_size m \<le> DEFAULT_PACKET_SIZE"
    using assms by (simp_all add: describes_def accepted_def)
  then show "unat (m_total_chunks m) \<le> 2 ^ 20" "unat (m_packet_size m) \<le> 4096"
    by (simp_all add: word_le_nat_alt DEFAULT_PACKET_SIZE_def)
qed

lemma length_chunk_of:
  "length (chunk_of m file ci) =
     min (unat (m_chunk_size m)) (length file - unat ci * unat (m_chunk_size m))"
  by (simp add: chunk_of_def length_piece)

lemma chunk_of_nth:
  "k < length (chunk_of m file ci) \<Longrightarrow>
     chunk_of m file ci ! k = file ! (unat ci * unat (m_chunk_size m) + k)"
  by (auto simp: chunk_of_def piece_def intro!: nth_drop)

lemma concat_packets:
  "describes m file \<Longrightarrow>
     concat (map (packet_of m file ci) [0..<packets_in m file ci]) = chunk_of m file ci"
  unfolding packet_of_def packets_in_def by (rule concat_pieces) (simp add: describesD)

lemma packets_in_le: "describes m file \<Longrightarrow> packets_in m file ci \<le> length (chunk_of m file ci)"
  using describesD(2) [of m] by (simp add: packets_in_def pieces_le Suc_le_eq)

lemma packets_in_pos:
  "describes m file \<Longrightarrow> ci < m_total_chunks m \<Longrightarrow> 0 < packets_in m file ci"
  using less_pieces [of "unat (m_packet_size m)" 0 "length (chunk_of m file ci)"]
  by (simp add: packets_in_def length_chunk_of describesD)

lemma unat_inverse: "(of_nat (unat x) :: u32) = x"
  by simp

lemma unat_ucast64: "unat (ucast (x :: u32) :: u64) = unat x"
proof -
  have "unat x < 2 ^ 64" using unat32_less [of x] by (rule less_trans) simp
  then show ?thesis by (simp add: unsigned_ucast_eq take_bit_nat_eq_self)
qed

text \<open>The receiver's arithmetic gives these numbers: nothing wraps.\<close>

lemma unat_chunk_file_offset:
  assumes "transfer_of recv_dir m s"
  shows "unat (chunk_file_offset s ci) = unat ci * unat (m_chunk_size m)"
proof -
  have "unat ci * unat (m_chunk_size m) < 2 ^ 32 * 2 ^ 32"
    by (rule mult_strict_mono) simp_all
  then show ?thesis
    using assms by (simp add: chunk_file_offset_def transfer_of_def unat_word_ariths unat_ucast64)
qed

lemma unat_chunk_bytes:
  assumes "transfer_of recv_dir m s" and d: "describes m file" and ci: "ci < m_total_chunks m"
  shows "unat (chunk_bytes s ci) = length (chunk_of m file ci)"
proof -
  let ?off = "unat ci * unat (m_chunk_size m)"
  have "?off < length file" using describesD(3) [OF d] ci by simp
  then have "chunk_file_offset s ci \<le> js_file_size s"
    using assms by (simp add: word_le_nat_alt unat_chunk_file_offset [OF assms(1)] transfer_of_def describes_def)
  then have "unat (js_file_size s - chunk_file_offset s ci) = length file - ?off"
    using assms by (simp add: unat_sub unat_chunk_file_offset [OF assms(1)] transfer_of_def describes_def)
  then have "unat (min (js_file_size s - chunk_file_offset s ci) (ucast (js_chunk_size s))) =
      min (length file - ?off) (unat (m_chunk_size m))"
    using assms(1) by (simp add: min_def word_le_nat_alt transfer_of_def unat_ucast64)
  moreover have "min (length file - ?off) (unat (m_chunk_size m)) < 2 ^ 32"
    using unat32_less [of "m_chunk_size m"] by (simp only: min_less_iff_disj) simp
  ultimately show ?thesis
    by (simp add: chunk_bytes_def length_chunk_of take_bit_nat_eq_self min.commute
        unsigned_ucast_eq)
qed

lemma expected_packets_genuine:
  assumes t: "transfer_of recv_dir m s" and d: "describes m file" and ci: "ci < m_total_chunks m"
  shows "expected_packets s ci = Some (of_nat (packets_in m file ci))"
    and "unat (of_nat (packets_in m file ci) :: u32) = packets_in m file ci"
proof -
  let ?len = "length (chunk_of m file ci)" and ?ps = "unat (m_packet_size m)"
  have ps: "js_packet_size s = m_packet_size m" "m_packet_size m \<noteq> 0"
    using t d by (auto simp: transfer_of_def describes_def accepted_def)
  have "?len \<le> unat (m_chunk_size m)" by (simp add: length_chunk_of)
  then have small: "?len + ?ps \<le> 2 ^ 32" using d by (simp add: describes_def)
  have "unat (chunk_bytes s ci + js_packet_size s - 1) = ?len + ?ps - 1"
  proof -
    have "chunk_bytes s ci + js_packet_size s - 1 = of_nat (?len + ?ps - 1)"
      using describesD(2) [OF d] unat_chunk_bytes [OF t d ci] ps
      by (simp add: of_nat_diff) (metis of_nat_add unat_inverse)
    moreover have "?len + ?ps - 1 < 2 ^ 32" using small describesD(2) [OF d] by simp
    ultimately show ?thesis by (simp add: unat_of_nat)
  qed
  then have "unat ((chunk_bytes s ci + js_packet_size s - 1) div js_packet_size s) = packets_in m file ci"
    using ps by (simp add: unat_div packets_in_def pieces_def)
  then show "expected_packets s ci = Some (of_nat (packets_in m file ci))"
    using ps by (simp add: expected_packets_def) (metis unat_inverse)
  have "packets_in m file ci \<le> ?len" by (rule packets_in_le [OF d])
  then show "unat (of_nat (packets_in m file ci) :: u32) = packets_in m file ci"
    using small describesD(2) [OF d] by (simp add: unat_of_nat)
qed

section \<open>Bytes on disk\<close>

definition on_disk :: "path \<Rightarrow> MetadataPdu \<Rightarrow> bytes \<Rightarrow> u32 \<Rightarrow> files \<Rightarrow> bool" where
  "on_disk recv_dir m file ci d \<longleftrightarrow>
     (\<exists>c. d (dest_of recv_dir m) = Some c \<and>
        (\<forall>k < length (chunk_of m file ci). unat ci * unat (m_chunk_size m) + k < length c \<and>
           c ! (unat ci * unat (m_chunk_size m) + k) = file ! (unat ci * unat (m_chunk_size m) + k)))"

definition claims_hold :: "path \<Rightarrow> MetadataPdu \<Rightarrow> bytes \<Rightarrow> JournalState \<Rightarrow> files \<Rightarrow> bool" where
  "claims_hold recv_dir m file s d \<longleftrightarrow>
     (\<forall>ci < m_total_chunks m. chunk_finished s ci \<longrightarrow> on_disk recv_dir m file ci d)"

definition not_longer :: "path \<Rightarrow> MetadataPdu \<Rightarrow> bytes \<Rightarrow> files \<Rightarrow> bool" where
  "not_longer recv_dir m file d \<longleftrightarrow>
     (\<forall>c. d (dest_of recv_dir m) = Some c \<longrightarrow> length c \<le> length file)"

text \<open>A disk from which a receiver can boot: the journal, if it can be read, is truthful.\<close>

definition disk_ok :: "path \<Rightarrow> path \<Rightarrow> MetadataPdu \<Rightarrow> bytes \<Rightarrow> files \<Rightarrow> bool" where
  "disk_ok dir recv_dir m file d \<longleftrightarrow>
     not_longer recv_dir m file d \<and>
     (\<forall>s. stored_in (journal_new dir) d = Some s \<longrightarrow>
        state_ok recv_dir s \<and> transfer_of recv_dir m s \<and> claims_hold recv_dir m file s d)"

definition acked :: "MetadataPdu \<Rightarrow> u32 \<Rightarrow> event list \<Rightarrow> bool" where
  "acked m ci es \<longleftrightarrow>
     Sent (ack_pdu \<lparr>a_transaction_id = m_transaction_id m, a_chunk_index = ci\<rparr>) \<in> set es"

definition all_on_disk :: "path \<Rightarrow> MetadataPdu \<Rightarrow> bytes \<Rightarrow> files \<Rightarrow> bool" where
  "all_on_disk recv_dir m file d \<longleftrightarrow> (\<forall>ci < m_total_chunks m. on_disk recv_dir m file ci d)"

text \<open>
  What a PDU on its way to the sender promises, as the sender reads it: an ACK that its chunk
  (the final ACK: every chunk) is on disk, a \<open>ResumeInfo\<close> to the transaction that every chunk
  before the one it names is.
\<close>

definition assures :: "MetadataPdu \<Rightarrow> bytes \<Rightarrow> u32 \<Rightarrow> bool" where
  "assures m pdu ci \<longleftrightarrow> 9 \<le> length pdu \<and>
     (hd pdu = pdu_code Ack \<and> (get32 5 pdu = ci \<or> get32 5 pdu = UINT32_MAX) \<or>
      hd pdu = pdu_code ResumeInfo \<and> get32 1 pdu = m_transaction_id m \<and> ci < get32 5 pdu)"

definition promise_kept :: "path \<Rightarrow> MetadataPdu \<Rightarrow> bytes \<Rightarrow> files \<Rightarrow> bytes \<Rightarrow> bool" where
  "promise_kept recv_dir m file d pdu \<longleftrightarrow>
     (\<forall>ci < m_total_chunks m. assures m pdu ci \<longrightarrow> on_disk recv_dir m file ci d)"

definition promises_kept :: "path \<Rightarrow> MetadataPdu \<Rightarrow> bytes \<Rightarrow> event list \<Rightarrow> files \<Rightarrow> bool" where
  "promises_kept recv_dir m file es d \<longleftrightarrow>
     (\<forall>pdu. Sent pdu \<in> set es \<longrightarrow> promise_kept recv_dir m file d pdu)"

definition honest_world :: "path \<Rightarrow> path \<Rightarrow> MetadataPdu \<Rightarrow> bytes \<Rightarrow> event list \<Rightarrow> files \<Rightarrow> bool" where
  "honest_world dir recv_dir m file es d \<longleftrightarrow>
     disk_ok dir recv_dir m file d \<and> promises_kept recv_dir m file es d"

lemma assures_replies [simp]:
  "assures m (ack_pdu a) ci \<longleftrightarrow> a_chunk_index a = ci \<or> a_chunk_index a = UINT32_MAX"
  "assures m (resume_info_pdu i) ci \<longleftrightarrow>
     i_transaction_id i = m_transaction_id m \<and> ci < i_first_missing_chunk i"
  "\<not> assures m (serialize_nak nak) ci"
  by (auto simp: assures_def ack_pdu_def resume_info_pdu_def serialize_nak_def Let_def pdu_code.simps
      ack_image_def resume_info_image_def layout get32_skip)

lemma promises_keptD:
  assumes "promises_kept recv_dir m file es d"
  shows "acked m ci es \<Longrightarrow> ci < m_total_chunks m \<Longrightarrow> on_disk recv_dir m file ci d"
    and "acked m UINT32_MAX es \<Longrightarrow> all_on_disk recv_dir m file d"
  using assms by (auto simp: promises_kept_def acked_def promise_kept_def all_on_disk_def)

lemma all_on_disk_file:
  assumes d: "describes m file" and all: "all_on_disk recv_dir m file fs"
    and len: "not_longer recv_dir m file fs"
  shows "fs (dest_of recv_dir m) = Some file"
proof -
  let ?cs = "unat (m_chunk_size m)"
  have cs: "0 < ?cs" by (rule describesD [OF d])
  have byte: "\<exists>c. fs (dest_of recv_dir m) = Some c \<and> p < length c \<and> c ! p = file ! p"
    if p: "p < length file" for p
  proof -
    define q where "q = p div ?cs"
    have q: "q * ?cs \<le> p" "p < q * ?cs + ?cs"
      using dividend_less_div_times [OF cs, of p] by (simp_all add: q_def add.commute)
    then have "q < unat (m_total_chunks m)"
      using d p less_pieces [OF cs, of q "length file"] by (simp add: describes_def)
    moreover from this have "q < 4294967296" using unat32_less by (rule less_trans)
    then have uq: "unat (of_nat q :: u32) = q" by (simp add: unat_of_nat)
    ultimately have "on_disk recv_dir m file (of_nat q) fs"
      using all by (simp add: all_on_disk_def word_less_nat_alt)
    moreover have "p - q * ?cs < length (chunk_of m file (of_nat q))"
      unfolding length_chunk_of uq min_less_iff_conj using q p by linarith
    ultimately show ?thesis using q(1) unfolding on_disk_def uq
      by (metis le_add_diff_inverse)
  qed
  have ne: "file \<noteq> []" by (rule describesD [OF d])
  then obtain c where c: "fs (dest_of recv_dir m) = Some c" using byte [of 0] by auto
  have "length c = length file"
    using byte [of "length file - 1"] ne c len by (fastforce simp: not_longer_def)
  then have "c = file" using byte c by (intro nth_equalityI) auto
  with c show ?thesis by simp
qed

text \<open>Writing the file's own bytes at their place keeps everything that is there already.\<close>

definition writes_genuine :: "bytes \<Rightarrow> nat \<Rightarrow> bytes \<Rightarrow> bool" where
  "writes_genuine file off bs \<longleftrightarrow>
     off + length bs \<le> length file \<and> (\<forall>k < length bs. bs ! k = file ! (off + k))"

lemma writes_genuine_chunk:
  assumes "describes m file" and "ci < m_total_chunks m"
  shows "writes_genuine file (unat ci * unat (m_chunk_size m)) (chunk_of m file ci)"
  using assms describesD(3) [OF assms(1), of ci]
  unfolding writes_genuine_def by (simp add: chunk_of_nth length_chunk_of)

lemma writes_genuine_take:
  "writes_genuine file off bs \<Longrightarrow> writes_genuine file off (take k bs)"
  by (auto simp: writes_genuine_def)

lemma write_at_genuine:
  assumes "writes_genuine file off bs" and "p < length c" and "c ! p = file ! p"
  shows "p < length (write_at off bs c) \<and> write_at off bs c ! p = file ! p"
proof (cases "bs = []")
  case True
  with assms show ?thesis by (simp add: write_at_def)
next
  case False
  consider "p < off \<or> off + length bs \<le> p" | "off \<le> p" "p < off + length bs" by linarith
  then show ?thesis
  proof cases
    case 1
    with assms False show ?thesis by (simp add: length_write_at write_at_nth_outside)
  next
    case 2
    with assms(1) have "bs ! (p - off) = file ! (off + (p - off))"
      unfolding writes_genuine_def by fastforce
    with assms 2 False show ?thesis by (simp add: length_write_at write_at_nth_inside)
  qed
qed

lemma on_disk_write:
  assumes "on_disk recv_dir m file ci d" and "writes_genuine file off bs"
  shows "on_disk recv_dir m file ci (apply_op (Pwrite (dest_of recv_dir m) off bs) d)"
  using assms by (auto simp: on_disk_def write_at_genuine)

lemma on_disk_written:
  assumes "describes m file" and "ci < m_total_chunks m" and "d (dest_of recv_dir m) \<noteq> None"
  shows "on_disk recv_dir m file ci (apply_op (Pwrite (dest_of recv_dir m)
    (unat ci * unat (m_chunk_size m)) (chunk_of m file ci)) d)"
proof -
  let ?off = "unat ci * unat (m_chunk_size m)" and ?bs = "chunk_of m file ci"
  obtain c where c: "d (dest_of recv_dir m) = Some c" using assms(3) by auto
  have "length ?bs \<noteq> 0"
    using describesD(1,3) [OF assms(1)] assms(2) by (simp add: length_chunk_of)
  then have "?bs \<noteq> []" by simp
  with c show ?thesis
    by (auto simp: on_disk_def length_write_at write_at_nth_inside chunk_of_nth)
qed

lemma not_longer_write:
  assumes "not_longer recv_dir m file d" and "off + length bs \<le> length file"
  shows "not_longer recv_dir m file (apply_op (Pwrite (dest_of recv_dir m) off bs) d)"
proof (cases "bs = []")
  case True
  with assms show ?thesis by (auto simp: not_longer_def write_at_def split: option.splits)
next
  case False
  with assms show ?thesis by (auto simp: not_longer_def length_write_at split: option.splits)
qed

lemma on_disk_other:
  "dest_of recv_dir m \<notin> touches op \<Longrightarrow>
     on_disk recv_dir m file ci (apply_op op d) = on_disk recv_dir m file ci d"
  by (simp add: on_disk_def apply_op_untouched)

section \<open>Runs that keep the promises at every point\<close>

text \<open>
  From \<open>w\<close> to \<open>w'\<close> such that after a crash anywhere in between, and at the end, \<open>P\<close>
  holds of the events and the disk.
\<close>

definition good_run :: "(event list \<Rightarrow> files \<Rightarrow> bool) \<Rightarrow> World \<Rightarrow> World \<Rightarrow> bool" where
  "good_run P w w' \<longleftrightarrow>
     (\<exists>es. ran w es w' \<and>
        (\<forall>es'. crash_prefix es es' \<longrightarrow> P (w_log w @ es') (replay es' (w_files w))))"

lemma good_run_refl: "P (w_log w) (w_files w) \<Longrightarrow> good_run P w w"
  unfolding good_run_def by (rule exI [of _ "[]"]) (auto elim: crash_prefix_NilE)

lemma good_run_trans:
  assumes "good_run P w w1" and "good_run P w1 w2"
  shows "good_run P w w2"
proof -
  obtain es1 where 1: "ran w es1 w1"
    "\<forall>es'. crash_prefix es1 es' \<longrightarrow> P (w_log w @ es') (replay es' (w_files w))"
    using assms(1) by (auto simp: good_run_def)
  obtain es2 where 2: "ran w1 es2 w2"
    "\<forall>es'. crash_prefix es2 es' \<longrightarrow> P (w_log w1 @ es') (replay es' (w_files w1))"
    using assms(2) by (auto simp: good_run_def)
  have "P (w_log w @ es') (replay es' (w_files w))" if cp: "crash_prefix (es1 @ es2) es'" for es'
    using crash_prefix_append [OF cp] 1 2 by (auto simp: ran_def)
  with ran_trans [OF 1(1) 2(1)] show ?thesis by (auto simp: good_run_def)
qed

lemma good_runD: "good_run P w w' \<Longrightarrow> P (w_log w') (w_files w')"
  unfolding good_run_def ran_def using crash_prefix_refl by metis

lemma good_run_event:
  assumes "P (w_log w) (w_files w)" and "ran w [e] w'"
    and "P (w_log w @ [e]) (apply_event e (w_files w))"
    and "\<forall>p off bs m. e = Fs (Pwrite p off bs) \<longrightarrow>
      P (w_log w @ [Fs (Pwrite p off (take m bs))]) (apply_op (Pwrite p off (take m bs)) (w_files w))"
  shows "good_run P w w'"
  unfolding good_run_def
proof (intro exI [of _ "[e]"] conjI allI impI)
  show "ran w [e] w'" by fact
  fix es' assume "crash_prefix [e] es'"
  then show "P (w_log w @ es') (replay es' (w_files w))"
    by (rule crash_prefix_ConsE) (use assms in \<open>auto simp del: apply_op.simps elim: crash_prefix_NilE\<close>)
qed

lemma good_run_op:
  assumes "P (w_log w) (w_files w)" and "P (w_log w @ [Fs op]) (apply_op op (w_files w))"
    and "\<forall>p off bs m. op = Pwrite p off bs \<longrightarrow>
      P (w_log w @ [Fs (Pwrite p off (take m bs))]) (apply_op (Pwrite p off (take m bs)) (w_files w))"
  shows "good_run P w (do_op op w)"
  by (rule good_run_event [where e = "Fs op"]) (use assms in auto)

lemma good_run_transmit:
  "P (w_log w) (w_files w) \<Longrightarrow> P (w_log w @ [Sent pdu]) (w_files w) \<Longrightarrow>
     good_run P w (transmit pdu w)"
  by (rule good_run_event [where e = "Sent pdu"]) auto

lemma good_run_write:
  assumes "P (w_log w) (w_files w)"
    and all: "\<And>k. P (w_log w @ [Fs (Pwrite p off (take k bs))]) (apply_op (Pwrite p off (take k bs)) (w_files w))"
  shows "good_run P w (snd (fs_write p off bs w))"
proof -
  from fs_write_ran [of p off bs w] obtain k where
    k: "snd (fs_write p off bs w) = do_op (Pwrite p off (take k bs)) w"
    by auto
  show ?thesis
    unfolding k
  proof (rule good_run_op [OF assms(1) all], intro allI impI)
    fix q off' bs' i
    assume "Pwrite p off (take k bs) = Pwrite q off' bs'"
    then have "Pwrite q off' (take i bs') = Pwrite p off (take (min i k) bs)" by auto
    then show "P (w_log w @ [Fs (Pwrite q off' (take i bs'))]) (apply_op (Pwrite q off' (take i bs')) (w_files w))"
      using all by (simp only:)
  qed
qed

section \<open>Single effects\<close>

lemma acked_append [simp]: "acked m ci (xs @ ys) \<longleftrightarrow> acked m ci xs \<or> acked m ci ys"
  by (auto simp: acked_def)

lemma acked_Fs [simp]: "acked m ci [] = False" "acked m ci [Fs op] = False"
  by (simp_all add: acked_def)

lemma silent_prefix:
  assumes "sent_pdus es = []" and "crash_prefix es es'"
  shows "Sent pdu \<notin> set es'"
proof -
  have sent: "Sent pdu \<in> set es \<longleftrightarrow> pdu \<in> set (sent_pdus es)" for pdu es
    by (induction es rule: sent_pdus.induct) auto
  have "Sent pdu \<in> set es' \<Longrightarrow> Sent pdu \<in> set es"
    using assms(2) by (induction rule: crash_prefix.induct) auto
  with sent [of _ es] assms(1) show ?thesis by auto
qed

lemma promises_kept_snoc [simp]:
  "promises_kept recv_dir m file (es @ [Fs op]) d = promises_kept recv_dir m file es d"
  "promises_kept recv_dir m file (es @ [Sent pdu]) d \<longleftrightarrow>
     promises_kept recv_dir m file es d \<and> promise_kept recv_dir m file d pdu"
  "promises_kept recv_dir m file [] d"
  by (auto simp: promises_kept_def)

lemma promises_kept_mono:
  assumes "promises_kept recv_dir m file es d"
    and "\<forall>pdu. Sent pdu \<in> set es' \<longrightarrow> Sent pdu \<in> set es"
    and "\<forall>ci < m_total_chunks m. on_disk recv_dir m file ci d \<longrightarrow> on_disk recv_dir m file ci d'"
  shows "promises_kept recv_dir m file es' d'"
proof -
  have "promise_kept recv_dir m file d' pdu" if "promise_kept recv_dir m file d pdu" for pdu
    using that assms(3) by (auto simp: promise_kept_def)
  with assms(1,2) show ?thesis by (simp add: promises_kept_def)
qed

lemma claims_hold_mono:
  "claims_hold recv_dir m file s d \<Longrightarrow>
     \<forall>ci < m_total_chunks m. on_disk recv_dir m file ci d \<longrightarrow> on_disk recv_dir m file ci d' \<Longrightarrow>
     claims_hold recv_dir m file s d'"
  unfolding claims_hold_def by blast

text \<open>The journal and the output file are different files.\<close>

lemma dest_not_journal:
  assumes "dirs_ok dir recv_dir" and "describes m file"
  shows "dest_of recv_dir m \<notin> journal_paths dir"
    and "dest_of recv_dir m \<noteq> j_state_path (journal_new dir)"
proof -
  have "dest_of recv_dir m \<in> output_paths recv_dir"
    using assms(2) by (auto simp: output_paths_def dest_of_def describes_def accepted_def)
  with paths_disjoint [OF assms(1)] show "dest_of recv_dir m \<notin> journal_paths dir" by blast
  then show "dest_of recv_dir m \<noteq> j_state_path (journal_new dir)"
    by (simp add: journal_paths_new)
qed

lemma honest_world_dest_op:
  assumes "honest_world dir recv_dir m file es d"
    and st: "j_state_path (journal_new dir) \<notin> touches op"
    and "not_longer recv_dir m file (apply_op op d)"
    and keep: "\<forall>ci < m_total_chunks m. on_disk recv_dir m file ci d \<longrightarrow>
      on_disk recv_dir m file ci (apply_op op d)"
  shows "honest_world dir recv_dir m file (es @ [Fs op]) (apply_op op d)"
proof -
  have "stored_in (journal_new dir) (apply_op op d) = stored_in (journal_new dir) d"
    using st by (simp add: stored_in_def apply_op_untouched)
  then have "disk_ok dir recv_dir m file (apply_op op d)"
    using assms(1,3) claims_hold_mono [OF _ keep] by (simp add: honest_world_def disk_ok_def)
  moreover have "promises_kept recv_dir m file es (apply_op op d)"
    using assms(1) promises_kept_mono [OF _ _ keep, of es es] by (simp add: honest_world_def)
  ultimately show ?thesis by (simp add: honest_world_def)
qed

lemma disk_ok_journal:
  assumes ok: "disk_ok dir recv_dir m file d"
    and dest: "d' (dest_of recv_dir m) = d (dest_of recv_dir m)"
    and st: "stored_in (journal_new dir) d' = stored_in (journal_new dir) d \<or>
      stored_in (journal_new dir) d' = None \<or>
      stored_in (journal_new dir) d' = Some s \<and> state_ok recv_dir s \<and> transfer_of recv_dir m s \<and>
        claims_hold recv_dir m file s d"
  shows "disk_ok dir recv_dir m file d'"
proof -
  have "on_disk recv_dir m file ci d' = on_disk recv_dir m file ci d" for ci
    using dest by (simp add: on_disk_def)
  then have "claims_hold recv_dir m file s' d' = claims_hold recv_dir m file s' d" for s'
    by (simp add: claims_hold_def)
  moreover have "not_longer recv_dir m file d'"
    using ok dest by (simp add: disk_ok_def not_longer_def)
  ultimately show ?thesis
    using st by (elim disjE) (use ok in \<open>simp_all add: disk_ok_def\<close>)
qed

lemma honest_world_silent:
  assumes hw: "honest_world dir recv_dir m file es d"
    and dest: "d' (dest_of recv_dir m) = d (dest_of recv_dir m)"
    and st: "stored_in (journal_new dir) d' = stored_in (journal_new dir) d \<or>
      stored_in (journal_new dir) d' = None \<or>
      stored_in (journal_new dir) d' = Some s \<and> state_ok recv_dir s \<and> transfer_of recv_dir m s \<and>
        claims_hold recv_dir m file s d"
    and silent: "\<forall>pdu. Sent pdu \<notin> set es'"
  shows "honest_world dir recv_dir m file (es @ es') d'"
proof -
  have "on_disk recv_dir m file ci d' = on_disk recv_dir m file ci d" for ci
    using dest by (simp add: on_disk_def)
  then have keep: "\<forall>ci < m_total_chunks m. on_disk recv_dir m file ci d \<longrightarrow> on_disk recv_dir m file ci d'"
    by simp
  have "promises_kept recv_dir m file es d" using hw by (simp add: honest_world_def)
  then have "promises_kept recv_dir m file (es @ es') d'"
    by (rule promises_kept_mono [OF _ _ keep]) (use silent in simp)
  moreover have "disk_ok dir recv_dir m file d" using hw by (simp add: honest_world_def)
  then have "disk_ok dir recv_dir m file d'" by (rule disk_ok_journal [OF _ dest st])
  ultimately show ?thesis by (simp add: honest_world_def)
qed


section \<open>Journal operations\<close>

lemma journal_write_run:
  assumes dirs: "dirs_ok dir recv_dir" and desc: "describes m file"
    and hw: "honest_world dir recv_dir m file (w_log w) (w_files w)"
    and s: "state_ok recv_dir s" "transfer_of recv_dir m s" "claims_hold recv_dir m file s (w_files w)"
  shows "good_run (honest_world dir recv_dir m file) w (snd (atomic_write (journal_new dir) s w))"
proof -
  let ?j = "journal_new dir" and ?d = "w_files w"
  obtain ok w' where run: "atomic_write ?j s w = (ok, w')" by fastforce
  from atomic_write_effects [OF paths_ok_new run] obtain es where
    es: "ran w es w'" "\<forall>e \<in> set es. ev_touches e \<subseteq> journal_paths dir" "sent_pdus es = []"
      "survives (\<lambda>d. d (j_state_path ?j) = ?d (j_state_path ?j) \<or>
        ok \<and> d (j_state_path ?j) = Some (journal_image s)) ?d es"
    by (auto simp: journal_paths_new)
  have dec: "decode_journal (journal_image s) = Some s"
    using decode_journal_image [of s "[]"] s(1) by (simp add: state_ok_def)
  have "honest_world dir recv_dir m file (w_log w @ es') (replay es' ?d)"
    if cp: "crash_prefix es es'" for es'
  proof (rule honest_world_silent [OF hw])
    have "\<forall>e \<in> set es'. dest_of recv_dir m \<notin> ev_touches e"
      using crash_prefix_touches [OF cp] es(2) dest_not_journal(1) [OF dirs desc] by blast
    then show "replay es' ?d (dest_of recv_dir m) = ?d (dest_of recv_dir m)"
      by (rule replay_untouched)
    have "replay es' ?d (j_state_path ?j) = ?d (j_state_path ?j) \<or>
        replay es' ?d (j_state_path ?j) = Some (journal_image s)"
      using es(4) cp by (auto simp: survives_def)
    with s dec show "stored_in ?j (replay es' ?d) = stored_in ?j ?d \<or>
        stored_in ?j (replay es' ?d) = None \<or>
        stored_in ?j (replay es' ?d) = Some s \<and> state_ok recv_dir s \<and> transfer_of recv_dir m s \<and>
          claims_hold recv_dir m file s ?d"
      by (auto simp: stored_in_def)
    show "\<forall>pdu. Sent pdu \<notin> set es'" using silent_prefix [OF es(3) cp] by blast
  qed
  with es(1) run show ?thesis by (auto simp: good_run_def)
qed

lemma journal_remove_run:
  assumes dirs: "dirs_ok dir recv_dir" and desc: "describes m file"
    and hw: "honest_world dir recv_dir m file (w_log w) (w_files w)"
  shows "good_run (honest_world dir recv_dir m file) w (snd (journal_remove (journal_new dir) w))"
proof -
  have "honest_world dir recv_dir m file (w_log w @ [Fs (Unlink (j_state_path (journal_new dir)))])
      (apply_op (Unlink (j_state_path (journal_new dir))) (w_files w))"
    by (rule honest_world_silent [OF hw])
      (use dest_not_journal(2) [OF dirs desc] in \<open>auto simp: stored_in_def\<close>)
  with hw show ?thesis
    by (auto simp: journal_remove_def intro!: good_run_refl good_run_op)
qed

lemma chunk_finished_set_done:
  "unat ci < length (js_chunk_done s) \<Longrightarrow>
     chunk_finished (set_done ci s) cj \<longleftrightarrow> cj = ci \<or> chunk_finished s cj"
  by (auto simp: chunk_finished_def nth_list_update word_unat_eq_iff)

lemma claims_hold_set_done:
  "claims_hold recv_dir m file s d \<Longrightarrow> on_disk recv_dir m file ci d \<Longrightarrow>
     unat ci < length (js_chunk_done s) \<Longrightarrow> claims_hold recv_dir m file (set_done ci s) d"
  by (auto simp: claims_hold_def chunk_finished_set_done)

lemma transfer_of_set [simp]:
  "transfer_of recv_dir m (set_done ci s) = transfer_of recv_dir m s"
  "transfer_of recv_dir m (set_eof s) = transfer_of recv_dir m s"
  by (simp_all add: transfer_of_def)

lemma claims_hold_set_eof [simp]:
  "claims_hold recv_dir m file (set_eof s) d = claims_hold recv_dir m file s d"
  by (simp add: claims_hold_def chunk_finished_def)

lemma stored_honest:
  assumes "honest_world dir recv_dir m file es (w_files w)"
    and "read_from_disk (journal_new dir) w unset_state = (True, s)"
  shows "state_ok recv_dir s" "transfer_of recv_dir m s" "claims_hold recv_dir m file s (w_files w)"
  using assms(1) read_from_disk_stored [OF assms(2)]
  by (auto simp: honest_world_def disk_ok_def stored_def)

lemma mark_chunk_done_run:
  assumes "dirs_ok dir recv_dir" and "describes m file"
    and hw: "honest_world dir recv_dir m file (w_log w) (w_files w)"
    and "on_disk recv_dir m file ci (w_files w)"
  shows "good_run (honest_world dir recv_dir m file) w (snd (mark_chunk_done (journal_new dir) ci w))"
proof -
  obtain ok s where run: "read_from_disk (journal_new dir) w unset_state = (ok, s)" by fastforce
  show ?thesis
  proof (cases "ok \<and> unat ci < length (js_chunk_done s)")
    case True
    with run have read: "read_from_disk (journal_new dir) w unset_state = (True, s)" by simp
    have "good_run (honest_world dir recv_dir m file) w
        (snd (atomic_write (journal_new dir) (set_done ci s) w))"
      by (rule journal_write_run [OF assms(1-3)])
        (use stored_honest [OF hw read] assms(4) True in \<open>simp_all add: claims_hold_set_done\<close>)
    with True run show ?thesis by (simp add: mark_chunk_done_def set_done_def)
  next
    case False
    with run hw show ?thesis by (auto simp: mark_chunk_done_def intro: good_run_refl)
  qed
qed

lemma mark_eof_received_run:
  assumes "dirs_ok dir recv_dir" and "describes m file"
    and hw: "honest_world dir recv_dir m file (w_log w) (w_files w)"
  shows "good_run (honest_world dir recv_dir m file) w (snd (mark_eof_received (journal_new dir) w))"
proof -
  obtain ok s where run: "read_from_disk (journal_new dir) w unset_state = (ok, s)" by fastforce
  show ?thesis
  proof (cases ok)
    case True
    with run have read: "read_from_disk (journal_new dir) w unset_state = (True, s)" by simp
    have "good_run (honest_world dir recv_dir m file) w
        (snd (atomic_write (journal_new dir) (set_eof s) w))"
      by (rule journal_write_run [OF assms(1-3)]) (use stored_honest [OF hw read] in simp_all)
    with True run show ?thesis by (simp add: mark_eof_received_def set_eof_def)
  next
    case False
    with run hw show ?thesis by (auto simp: mark_eof_received_def intro: good_run_refl)
  qed
qed

section \<open>The output file\<close>

lemma write_output_run:
  assumes dirs: "dirs_ok dir recv_dir" and desc: "describes m file"
    and hw: "honest_world dir recv_dir m file (w_log w) (w_files w)"
    and bs: "writes_genuine file off bs"
  shows "good_run (honest_world dir recv_dir m file) w
    (snd (fs_write (dest_of recv_dir m) off bs w))"
proof (rule good_run_write)
  let ?p = "dest_of recv_dir m"
  show "honest_world dir recv_dir m file (w_log w) (w_files w)" by fact
  fix k
  have g: "writes_genuine file off (take k bs)" by (rule writes_genuine_take [OF bs])
  show "honest_world dir recv_dir m file (w_log w @ [Fs (Pwrite ?p off (take k bs))])
      (apply_op (Pwrite ?p off (take k bs)) (w_files w))"
  proof (rule honest_world_dest_op [OF hw])
    show "not_longer recv_dir m file (apply_op (Pwrite ?p off (take k bs)) (w_files w))"
      using hw g by (intro not_longer_write)
        (simp_all add: writes_genuine_def honest_world_def disk_ok_def del: length_take)
    show "\<forall>ci < m_total_chunks m. on_disk recv_dir m file ci (w_files w) \<longrightarrow>
        on_disk recv_dir m file ci (apply_op (Pwrite ?p off (take k bs)) (w_files w))"
      using on_disk_write [OF _ g] by blast
    show "j_state_path (journal_new dir) \<notin> touches (Pwrite ?p off (take k bs))"
      using dest_not_journal(2) [OF dirs desc] by simp
  qed
qed

lemma create_output_run:
  assumes dirs: "dirs_ok dir recv_dir" and desc: "describes m file"
    and hw: "honest_world dir recv_dir m file (w_log w) (w_files w)"
    and absent: "w_files w (dest_of recv_dir m) = None"
  defines "w1 \<equiv> do_op (Creat (dest_of recv_dir m)) w"
  shows "good_run (honest_world dir recv_dir m file) w w1"
    and "good_run (honest_world dir recv_dir m file) w1
      (snd (fs_write (dest_of recv_dir m) (length file - 1) [0] w1))"
proof -
  let ?p = "dest_of recv_dir m"
  have neq: "j_state_path (journal_new dir) \<noteq> ?p" using dest_not_journal(2) [OF dirs desc] by simp
  have none: "\<not> on_disk recv_dir m file ci (w_files w)" for ci
    using absent by (simp add: on_disk_def)
  have hw1: "honest_world dir recv_dir m file (w_log w @ [Fs (Creat ?p)]) (apply_op (Creat ?p) (w_files w))"
    by (rule honest_world_dest_op [OF hw]) (use neq none in \<open>auto simp: not_longer_def\<close>)
  with hw show "good_run (honest_world dir recv_dir m file) w w1"
    unfolding w1_def by (intro good_run_op) auto
  have ne: "0 < length file" using describesD(4) [OF desc] by simp
  have none1: "\<not> on_disk recv_dir m file ci (w_files w1)" if "ci < m_total_chunks m" for ci
  proof -
    have "0 < length (chunk_of m file ci)"
      using that describesD(1,3) [OF desc] by (simp add: length_chunk_of)
    then show ?thesis by (auto simp: on_disk_def w1_def)
  qed
  have hw1': "honest_world dir recv_dir m file (w_log w1) (w_files w1)" using hw1 by (simp add: w1_def)
  have "honest_world dir recv_dir m file (w_log w1 @ [Fs (Pwrite ?p (length file - 1) (take k [0]))])
      (apply_op (Pwrite ?p (length file - 1) (take k [0])) (w_files w1))" for k
  proof (rule honest_world_dest_op [OF hw1'])
    have "length (take k [0 :: u8]) \<le> 1" by simp
    with ne have "length file - 1 + length (take k [0 :: u8]) \<le> length file" by linarith
    then show "not_longer recv_dir m file
        (apply_op (Pwrite ?p (length file - 1) (take k [0])) (w_files w1))"
      by (intro not_longer_write) (simp add: w1_def not_longer_def)
  qed (use neq none1 in auto)
  with hw1 show "good_run (honest_world dir recv_dir m file) w1
      (snd (fs_write ?p (length file - 1) [0] w1))"
    by (intro good_run_write) (simp_all add: w1_def)
qed

end
