(* ===== verification/Cfdp_Honest.thy ===== *)
theory Cfdp_Honest
  imports Cfdp_Integrity
begin

text \<open>
  The receiver of \<open>src/receiver/CfdpReceiver.cpp\<close> under honest traffic: every handler keeps
  the promises of \<open>Cfdp_Integrity\<close> at every point where the process could be killed, with
  any system call refused. The journal names finished chunks only when their bytes are in the
  output file, and no ACK is sent before them.
\<close>

text \<open>The journal operations leave the output file alone.\<close>

lemma atomic_write_other:
  assumes "p \<notin> journal_paths dir"
  shows "w_files (snd (atomic_write (journal_new dir) s w)) p = w_files w p"
proof -
  obtain ok w' where run: "atomic_write (journal_new dir) s w = (ok, w')" by fastforce
  from atomic_write_effects [OF paths_ok_new run] obtain es where
    "ran w es w'" "\<forall>e \<in> set es. ev_touches e \<subseteq> journal_paths dir"
    by (auto simp: journal_paths_new)
  with assms have "\<forall>e \<in> set es. p \<notin> ev_touches e" by blast
  from replay_untouched [OF this] \<open>ran w es w'\<close> run show ?thesis by (simp add: ran_files)
qed

lemma journal_other:
  assumes "p \<notin> journal_paths dir"
  shows "w_files (snd (journal_create (journal_new dir) s w)) p = w_files w p"
    and "w_files (snd (mark_chunk_done (journal_new dir) ci w)) p = w_files w p"
    and "w_files (snd (mark_eof_received (journal_new dir) w)) p = w_files w p"
    and "w_files (snd (journal_remove (journal_new dir) w)) p = w_files w p"
  using assms
  by (auto simp: journal_create_def mark_chunk_done_def mark_eof_received_def journal_remove_def
      journal_paths_new atomic_write_other split: prod.splits)
section \<open>The receiver keeps its promises\<close>

definition genuine_slots :: "MetadataPdu \<Rightarrow> bytes \<Rightarrow> u32 \<Rightarrow> slot list \<Rightarrow> bool" where
  "genuine_slots m file ci slots \<longleftrightarrow>
     (\<forall>i < length slots. \<forall>d. slots ! i = Good d \<longrightarrow> d = packet_of m file ci i)"

definition honest_core :: "path \<Rightarrow> path \<Rightarrow> MetadataPdu \<Rightarrow> bytes \<Rightarrow> CfdpReceiver \<Rightarrow> bool" where
  "honest_core dir recv_dir m file rx \<longleftrightarrow>
     honest_world dir recv_dir m file (w_log (r_world rx)) (w_files (r_world rx)) \<and>
     (r_last_acked_id rx = m_transaction_id m \<longrightarrow> all_on_disk recv_dir m file (w_files (r_world rx))) \<and>
     (r_transfer_active rx \<longrightarrow> transfer_of recv_dir m (r_state rx) \<and>
        claims_hold recv_dir m file (r_state rx) (w_files (r_world rx)) \<and>
        genuine_slots m file (r_current_chunk_index rx) (pl_slots (r_packet_list rx)))"

definition honest_rx :: "path \<Rightarrow> path \<Rightarrow> MetadataPdu \<Rightarrow> bytes \<Rightarrow> CfdpReceiver \<Rightarrow> bool" where
  "honest_rx dir recv_dir m file rx \<longleftrightarrow>
     rx_inv dir recv_dir rx \<and> honest_core dir recv_dir m file rx"

definition honest_outcome :: "path \<Rightarrow> path \<Rightarrow> MetadataPdu \<Rightarrow> bytes \<Rightarrow> World \<Rightarrow> outcome \<Rightarrow> bool" where
  "honest_outcome dir recv_dir m file w out \<longleftrightarrow>
     good_run (honest_world dir recv_dir m file) w (outcome_world out) \<and>
     (case out of Inl e \<Rightarrow> True | Inr rx \<Rightarrow> honest_core dir recv_dir m file rx)"

lemma honest_core_world:
  "honest_core dir recv_dir m file rx \<Longrightarrow>
     honest_world dir recv_dir m file (w_log (r_world rx)) (w_files (r_world rx))"
  by (simp add: honest_core_def)

lemma honest_outcome_refl: "honest_core dir recv_dir m file rx \<Longrightarrow>
    honest_outcome dir recv_dir m file (r_world rx) (Inr rx)"
  by (simp add: honest_outcome_def honest_core_def good_run_refl)

lemma honest_outcome_throw: "honest_core dir recv_dir m file rx \<Longrightarrow>
    honest_outcome dir recv_dir m file (r_world rx) (throw f rx)"
  by (simp add: honest_outcome_def throw_def honest_core_def good_run_refl)

lemma honest_outcome_trans:
  "good_run (honest_world dir recv_dir m file) w w1 \<Longrightarrow>
     honest_outcome dir recv_dir m file w1 out \<Longrightarrow> honest_outcome dir recv_dir m file w out"
  unfolding honest_outcome_def using good_run_trans by blast

lemma send_ack_simps [simp]:
  "r_journal (send_ack ci rx) = r_journal rx" "r_recv_dir (send_ack ci rx) = r_recv_dir rx"
  "r_state (send_ack ci rx) = r_state rx"
  "r_transfer_active (send_ack ci rx) = r_transfer_active rx"
  "r_last_acked_id (send_ack ci rx) = r_last_acked_id rx"
  "r_current_chunk_index (send_ack ci rx) = r_current_chunk_index rx"
  "r_max_chunk_seen (send_ack ci rx) = r_max_chunk_seen rx"
  "r_packet_list (send_ack ci rx) = r_packet_list rx"
  "r_world (send_ack ci rx) = transmit (ack_pdu \<lparr>a_transaction_id = js_transaction_id (r_state rx),
     a_chunk_index = ci\<rparr>) (r_world rx)"
  by (simp_all add: send_ack_def)

text \<open>Sending.\<close>

lemma transmit_run:
  assumes "honest_world dir recv_dir m file (w_log w) (w_files w)"
    and "promise_kept recv_dir m file (w_files w) pdu"
  shows "good_run (honest_world dir recv_dir m file) w (transmit pdu w)"
  by (rule good_run_transmit) (use assms in \<open>auto simp: honest_world_def\<close>)

lemma nak_promise [simp]: "promise_kept recv_dir m file d (serialize_nak nak)"
  by (simp add: promise_kept_def)

lemma send_outcome:
  assumes "honest_core dir recv_dir m file rx"
    and "promise_kept recv_dir m file (w_files (r_world rx)) pdu"
  shows "honest_outcome dir recv_dir m file (r_world rx) (Inr (transport_send pdu rx))"
proof -
  have run: "good_run (honest_world dir recv_dir m file) (r_world rx) (transmit pdu (r_world rx))"
    by (rule transmit_run [OF honest_core_world [OF assms(1)] assms(2)])
  from good_runD [OF run] run assms(1) show ?thesis
    by (simp add: honest_outcome_def honest_core_def)
qed

lemma send_ack_outcome:
  assumes "honest_core dir recv_dir m file rx"
    and "\<forall>cj < m_total_chunks m. ci = cj \<or> ci = UINT32_MAX \<longrightarrow>
      on_disk recv_dir m file cj (w_files (r_world rx))"
  shows "honest_outcome dir recv_dir m file (r_world rx) (Inr (send_ack ci rx))"
  unfolding send_ack_def by (rule send_outcome [OF assms(1)]) (use assms(2) in \<open>simp add: promise_kept_def\<close>)

lemma send_nak_packets_honest:
  assumes "honest_core dir recv_dir m file rx" and "pl_inv (r_packet_list rx)"
  shows "honest_outcome dir recv_dir m file (r_world rx) (send_nak_packets ci rx)"
  using pls.nak_ok [OF assms(2)] send_outcome [OF assms(1)] honest_outcome_refl [OF assms(1)]
  by (auto simp: send_nak_packets_def split: option.splits)

lemma claims_all:
  assumes t: "transfer_of recv_dir m s" and "claims_hold recv_dir m file s d"
    and "compute_missing_chunks s = []"
  shows "all_on_disk recv_dir m file d"
proof -
  have "chunk_finished s ci" if "ci < m_total_chunks m" for ci
    using assms(3) t that
    by (simp add: compute_missing_Nil_iff transfer_of_def chunk_missing_def chunk_finished_def
        word_less_nat_alt not_le)
  with assms(2) show ?thesis by (simp add: claims_hold_def all_on_disk_def)
qed

text \<open>The end of a transfer: final ACK or not, the journal goes.\<close>

lemma finish_honest:
  assumes dirs: "dirs_ok dir recv_dir" and desc: "describes m file"
    and core: "honest_core dir recv_dir m file rx" and j: "r_journal rx = journal_new dir"
  shows "honest_outcome dir recv_dir m file (r_world rx)
    (Inr (in_world (\<lambda>w. snd (journal_remove (r_journal rx) w)) (rx\<lparr>r_transfer_active := False\<rparr>)))"
proof -
  note run = journal_remove_run [OF dirs desc honest_core_world [OF core]]
  have "w_files (snd (journal_remove (journal_new dir) w)) (dest_of recv_dir m) =
      w_files w (dest_of recv_dir m)" for w
    using dest_not_journal(2) [OF dirs desc] by (auto simp: journal_remove_def)
  then have "all_on_disk recv_dir m file (w_files (snd (journal_remove (journal_new dir) w))) =
      all_on_disk recv_dir m file (w_files w)" for w
    by (simp add: all_on_disk_def on_disk_def)
  with good_runD [OF run] run core j show ?thesis
    by (simp add: honest_outcome_def honest_core_def)
qed

lemma check_completion_honest:
  assumes dirs: "dirs_ok dir recv_dir" and desc: "describes m file"
    and core: "honest_core dir recv_dir m file rx" and j: "r_journal rx = journal_new dir"
    and act: "r_transfer_active rx" and pl: "pl_inv (r_packet_list rx)"
  shows "honest_outcome dir recv_dir m file (r_world rx) (check_completion zcrc rx)"
proof -
  let ?s = "r_state rx" and ?H = "honest_world dir recv_dir m file"
  have t: "transfer_of recv_dir m ?s" and cl: "claims_hold recv_dir m file ?s (w_files (r_world rx))"
    using core act by (simp_all add: honest_core_def)
  have fin: "honest_outcome dir recv_dir m file (r_world rx)
      (Inr (in_world (\<lambda>w. snd (journal_remove (r_journal rx) w))
        (send_ack UINT32_MAX (rx\<lparr>r_last_acked_id := js_transaction_id ?s\<rparr>)\<lparr>r_transfer_active := False\<rparr>)))"
    if none: "compute_missing_chunks ?s = []"
  proof -
    let ?rx = "send_ack UINT32_MAX (rx\<lparr>r_last_acked_id := js_transaction_id ?s\<rparr>)"
    have all: "all_on_disk recv_dir m file (w_files (r_world rx))" by (rule claims_all [OF t cl none])
    with core have "honest_core dir recv_dir m file (rx\<lparr>r_last_acked_id := js_transaction_id ?s\<rparr>)"
      by (simp add: honest_core_def)
    from send_ack_outcome [OF this, of UINT32_MAX] all
    have "honest_core dir recv_dir m file ?rx" "good_run ?H (r_world rx) (r_world ?rx)"
      by (simp_all add: honest_outcome_def all_on_disk_def)
    with finish_honest [OF dirs desc, of ?rx] j show ?thesis
      by (auto simp: send_ack_def intro: honest_outcome_trans)
  qed
  show ?thesis
    unfolding check_completion_def Let_def
    using honest_outcome_refl [OF core] send_nak_packets_honest [OF core pl] send_outcome [OF core]
      finish_honest [OF dirs desc core j] fin honest_outcome_throw [OF core]
    by (auto split: option.split)
qed

section \<open>Writing a chunk\<close>

lemma open_output_honest:
  assumes dirs: "dirs_ok dir recv_dir" and desc: "describes m file"
    and hw: "honest_world dir recv_dir m file (w_log w) (w_files w)"
  defines "H \<equiv> honest_world dir recv_dir m file"
  shows "case open_output (dest_of recv_dir m) (m_file_size m) w of
      Inl (f, w') \<Rightarrow> good_run H w w'
    | Inr w' \<Rightarrow> good_run H w w' \<and> w_files w' (dest_of recv_dir m) \<noteq> None \<and>
        (\<forall>ci. on_disk recv_dir m file ci (w_files w) \<longrightarrow> on_disk recv_dir m file ci (w_files w'))"
proof -
  let ?p = "dest_of recv_dir m" and ?n = "m_file_size m"
  have refl: "good_run H w w" using hw by (simp add: H_def good_run_refl)
  have n: "unat ?n = length file" "length file < 2 ^ 63" using desc by (simp_all add: describes_def)
  have ne: "0 < length file" using describesD(4) [OF desc] by simp
  with n have pos: "?n > 0" by (simp add: word_less_nat_alt)
  then have "?n \<noteq> 0" by auto
  then have n1: "unat (?n - 1) = length file - 1" "?n > 0"
    using n pos by (simp_all add: unat_minus_one)
  show ?thesis
  proof (cases "w_files w ?p")
    case (Some c)
    then show ?thesis using refl n1(2) by (simp add: open_output_def)
  next
    case None
    note cr = create_output_run [OF dirs desc hw None, folded H_def]
    let ?w1 = "do_op (Creat ?p) w"
    define w2 where "w2 = snd (fs_write ?p (length file - 1) [0] ?w1)"
    obtain bs where "w2 = do_op (Pwrite ?p (length file - 1) bs) ?w1"
      using fs_write_ran [of ?p "length file - 1" "[0]" ?w1] unfolding w2_def by blast
    then have dest: "w_files w2 ?p \<noteq> None" by simp
    have run: "good_run H w w2" using good_run_trans [OF cr] by (simp add: w2_def)
    have "\<not> on_disk recv_dir m file ci (w_files w)" for ci using None by (simp add: on_disk_def)
    moreover have "open_output ?p ?n w =
        (if f_open (w_faults w) ?p then Inl (Cannot_create ?p, w)
         else Inr (if seekable (?n - 1) then w2 else ?w1))"
      using None n1 by (simp add: open_output_def Let_def w2_def)
    ultimately show ?thesis using refl cr(1) run dest by simp
  qed
qed

lemma write_chunk_honest:
  assumes dirs: "dirs_ok dir recv_dir" and desc: "describes m file" and ci: "ci < m_total_chunks m"
    and t: "transfer_of recv_dir m s"
    and hw: "honest_world dir recv_dir m file (w_log w) (w_files w)"
    and dest: "w_files w (dest_of recv_dir m) \<noteq> None"
  defines "H \<equiv> honest_world dir recv_dir m file"
  shows "case write_chunk (dest_of recv_dir m) (chunk_file_offset s ci) (chunk_of m file ci) w of
      Inl (f, w') \<Rightarrow> good_run H w w'
    | Inr w' \<Rightarrow> good_run H w w' \<and> on_disk recv_dir m file ci (w_files w') \<and>
        (\<forall>cj. on_disk recv_dir m file cj (w_files w) \<longrightarrow> on_disk recv_dir m file cj (w_files w'))"
proof -
  let ?p = "dest_of recv_dir m" and ?bs = "chunk_of m file ci"
  let ?off = "unat ci * unat (m_chunk_size m)"
  have off: "unat (chunk_file_offset s ci) = ?off" by (rule unat_chunk_file_offset [OF t])
  have refl: "good_run H w w" using hw by (simp add: H_def good_run_refl)
  note gen = writes_genuine_chunk [OF desc ci]
  note wr = write_output_run [OF dirs desc hw gen, folded H_def]
  obtain ok w1 where w1: "fs_write ?p ?off ?bs w = (ok, w1)" by fastforce
  have run: "good_run H w w1" using wr w1 by simp
  show ?thesis
  proof (cases "seekable (chunk_file_offset s ci) \<and> ok")
    case False
    with refl run w1 show ?thesis by (auto simp: write_chunk_def off)
  next
    case True
    have files: "w_files w1 = apply_op (Pwrite ?p ?off ?bs) (w_files w)"
      using fs_write_ran [of ?p ?off ?bs w] w1 True by (auto simp del: apply_op.simps)
    have on: "on_disk recv_dir m file ci (w_files w1)"
      unfolding files by (rule on_disk_written [where d = "w_files w", OF desc ci]) (rule dest)
    have others: "\<forall>cj. on_disk recv_dir m file cj (w_files w) \<longrightarrow> on_disk recv_dir m file cj (w_files w1)"
      unfolding files using on_disk_write [OF _ gen] by blast
    have "H (w_log w1) (w_files w1)" by (rule good_runD [OF run])
    then have "good_run H w1 (do_op (Datasync ?p) w1)"
      by (intro good_run_op) (auto simp: H_def honest_world_def)
    from good_run_trans [OF run this] True run on others w1 show ?thesis
      by (auto simp: write_chunk_def off)
  qed
qed

lemma assemble_genuine:
  assumes desc: "describes m file" and pl: "pl_inv pl" "pl_is_complete pl"
    and len: "length (pl_slots pl) = packets_in m file ci"
    and gen: "genuine_slots m file ci (pl_slots pl)"
  shows "pl_assemble pl = Some (chunk_of m file ci)"
proof -
  have "map slot_data (pl_slots pl) = map (packet_of m file ci) [0..<packets_in m file ci]"
  proof (rule nth_equalityI)
    fix i assume "i < length (map slot_data (pl_slots pl))"
    then have i: "i < length (pl_slots pl)" by simp
    then have "is_good (pl_slots pl ! i)" using pls.complete_iff [OF pl(1)] pl(2) by auto
    then obtain d where "pl_slots pl ! i = Good d" by (cases "pl_slots pl ! i") auto
    with gen i len show "map slot_data (pl_slots pl) ! i =
        map (packet_of m file ci) [0..<packets_in m file ci] ! i"
      by (simp add: genuine_slots_def)
  qed (use len in simp)
  then show ?thesis
    using pls.assemble_ok [OF pl(1)] by (simp add: concat_packets [OF desc])
qed

text \<open>The receiver once the chunk is written, journalled and acknowledged.\<close>

definition chunk_flushed :: "u32 \<Rightarrow> World \<Rightarrow> PacketList \<Rightarrow> CfdpReceiver \<Rightarrow> CfdpReceiver" where
  "chunk_flushed ci w pl rx =
     (send_ack ci (in_world (\<lambda>w. snd (mark_chunk_done (r_journal rx) ci w))
        (rx\<lparr>r_world := w, r_state := set_done ci (r_state rx)\<rparr>)))
     \<lparr>r_packet_list := pl, r_current_chunk_index := UINT32_MAX\<rparr>"

lemma flush_chunk_core:
  assumes dirs: "dirs_ok dir recv_dir" and desc: "describes m file"
    and base: "rx_base dir recv_dir rx" and act: "r_transfer_active rx"
    and ci: "ci < m_total_chunks m"
    and core: "honest_core dir recv_dir m file rx" and pl: "pl_slots pl = []"
    and w1: "open_output (dest_of recv_dir m) (m_file_size m) (r_world rx) = Inr w1"
    and w2: "write_chunk (dest_of recv_dir m) (chunk_file_offset (r_state rx) ci) (chunk_of m file ci) w1 = Inr w2"
  shows "honest_core dir recv_dir m file (chunk_flushed ci w2 pl rx) \<and>
    good_run (honest_world dir recv_dir m file) (r_world rx) (r_world (chunk_flushed ci w2 pl rx))"
proof -
  let ?s = "r_state rx" and ?H = "honest_world dir recv_dir m file"
  let ?on = "on_disk recv_dir m file"
  have st: "state_ok recv_dir ?s" and j: "r_journal rx = journal_new dir"
    using rx_baseD [OF base] act by simp_all
  have t: "transfer_of recv_dir m ?s" and cl: "claims_hold recv_dir m file ?s (w_files (r_world rx))"
    and last: "r_last_acked_id rx = m_transaction_id m \<longrightarrow>
      all_on_disk recv_dir m file (w_files (r_world rx))"
    using core act by (simp_all add: honest_core_def)
  have len: "unat ci < length (js_chunk_done ?s)" and nmax: "ci \<noteq> UINT32_MAX"
    using chunk_index_small [OF st, of ci] t ci by (simp_all add: transfer_of_def)
  have run1: "good_run ?H (r_world rx) w1" and d1: "w_files w1 (dest_of recv_dir m) \<noteq> None"
    and keep1: "\<forall>cj. ?on cj (w_files (r_world rx)) \<longrightarrow> ?on cj (w_files w1)"
    using open_output_honest [OF dirs desc honest_core_world [OF core]] w1 by simp_all
  have run2: "good_run ?H w1 w2" and on2: "?on ci (w_files w2)"
    and keep2: "\<forall>cj. ?on cj (w_files w1) \<longrightarrow> ?on cj (w_files w2)"
    using write_chunk_honest [OF dirs desc ci t good_runD [OF run1] d1] w2 by simp_all
  let ?w3 = "snd (mark_chunk_done (journal_new dir) ci w2)"
  have run3: "good_run ?H w2 ?w3"
    by (rule mark_chunk_done_run [OF dirs desc good_runD [OF run2] on2])
  have "w_files ?w3 (dest_of recv_dir m) = w_files w2 (dest_of recv_dir m)"
    by (rule journal_other(2) [OF dest_not_journal(1) [OF dirs desc]])
  then have disk3: "?on cj (w_files ?w3) = ?on cj (w_files w2)" for cj by (simp add: on_disk_def)
  let ?ack = "ack_pdu \<lparr>a_transaction_id = js_transaction_id ?s, a_chunk_index = ci\<rparr>"
  have run4: "good_run ?H ?w3 (transmit ?ack ?w3)"
    by (rule transmit_run [OF good_runD [OF run3]]) (use on2 disk3 nmax in \<open>auto simp: promise_kept_def\<close>)
  have run: "good_run ?H (r_world rx) (transmit ?ack ?w3)"
    by (rule good_run_trans [OF run1 good_run_trans [OF run2 good_run_trans [OF run3 run4]]])
  have "\<forall>cj. ?on cj (w_files (r_world rx)) \<longrightarrow> ?on cj (w_files ?w3)"
    using keep1 keep2 disk3 by simp
  then have "honest_core dir recv_dir m file (chunk_flushed ci w2 pl rx)"
    using good_runD [OF run] t last pl on2 disk3 cl len
    unfolding honest_core_def
    by (auto simp: chunk_flushed_def j genuine_slots_def all_on_disk_def
        intro!: claims_hold_set_done elim!: claims_hold_mono)
  with run show ?thesis by (simp add: chunk_flushed_def j)
qed

lemma flush_chunk_done:
  assumes "pl_assemble (r_packet_list rx) = Some data" and "pl_clear (r_packet_list rx) = Some pl"
    and "open_output (recv_file_path rx) (js_file_size (r_state rx)) (r_world rx) = Inr w1"
    and "write_chunk (recv_file_path rx) (chunk_file_offset (r_state rx) ci) data w1 = Inr w2"
    and "unat ci < length (js_chunk_done (r_state rx))"
  shows "flush_chunk zcrc ci rx =
    (if js_eof_received (r_state rx) then check_completion zcrc (chunk_flushed ci w2 pl rx)
     else Inr (chunk_flushed ci w2 pl rx))"
  using assms by (simp add: flush_chunk_def Let_def chunk_flushed_def)

lemma flush_chunk_honest:
  assumes dirs: "dirs_ok dir recv_dir" and desc: "describes m file"
    and base: "rx_base dir recv_dir rx" and act: "r_transfer_active rx"
    and ci: "ci < m_total_chunks m"
    and core: "honest_core dir recv_dir m file rx"
    and asm: "pl_assemble (r_packet_list rx) = Some (chunk_of m file ci)"
  shows "honest_outcome dir recv_dir m file (r_world rx) (flush_chunk zcrc ci rx)"
proof -
  let ?s = "r_state rx" and ?H = "honest_world dir recv_dir m file"
  have st: "state_ok recv_dir ?s" and j: "r_journal rx = journal_new dir" and pl: "pl_inv (r_packet_list rx)"
    using rx_baseD [OF base] act by simp_all
  have t: "transfer_of recv_dir m ?s" using core act by (simp add: honest_core_def)
  have dest: "recv_file_path rx = dest_of recv_dir m" and size: "js_file_size ?s = m_file_size m"
    using t by (simp_all add: transfer_of_def recv_file_path_def)
  have len: "unat ci < length (js_chunk_done ?s)"
    using chunk_index_small(1) [OF st, of ci] t ci by (simp add: transfer_of_def)
  obtain pl' where pl': "pl_clear (r_packet_list rx) = Some pl'" "pl_inv pl'" "pl_slots pl' = []"
    using pls.clear_ok [OF pl] by blast
  note op = open_output_honest [OF dirs desc honest_core_world [OF core]]
  show ?thesis
  proof (cases "open_output (dest_of recv_dir m) (m_file_size m) (r_world rx)")
    case (Inl e)
    with op show ?thesis
      by (cases e) (simp add: honest_outcome_def flush_chunk_def asm dest size)
  next
    case w1: (Inr w1)
    with op have run1: "good_run ?H (r_world rx) w1" and d1: "w_files w1 (dest_of recv_dir m) \<noteq> None"
      by simp_all
    show ?thesis
    proof (cases "write_chunk (dest_of recv_dir m) (chunk_file_offset ?s ci) (chunk_of m file ci) w1")
      case (Inl e)
      with write_chunk_honest [OF dirs desc ci t good_runD [OF run1] d1] w1 run1 show ?thesis
        by (cases e)
          (auto simp: honest_outcome_def flush_chunk_def asm dest size intro: good_run_trans)
    next
      case w2: (Inr w2)
      let ?rx2 = "chunk_flushed ci w2 pl' rx"
      have core2: "honest_core dir recv_dir m file ?rx2" and run: "good_run ?H (r_world rx) (r_world ?rx2)"
        using flush_chunk_core [OF dirs desc base act ci core pl'(3) w1 w2] by blast+
      have "honest_outcome dir recv_dir m file (r_world ?rx2) (check_completion zcrc ?rx2)"
        by (rule check_completion_honest [OF dirs desc core2])
          (use act j pl' in \<open>simp_all add: chunk_flushed_def\<close>)
      then show ?thesis
        using honest_outcome_trans [OF run] honest_outcome_refl [OF core2]
        unfolding flush_chunk_done [OF asm pl'(1) w1 [folded dest size] w2 [folded dest] len]
        by simp
    qed
  qed
qed

section \<open>Data packets\<close>

definition genuine_data :: "MetadataPdu \<Rightarrow> bytes \<Rightarrow> DataPdu \<Rightarrow> bool" where
  "genuine_data m file d \<longleftrightarrow>
     (crc8 (d_data d) = d_crc8 d \<longrightarrow>
      d_transaction_id d = m_transaction_id m \<longrightarrow> d_chunk_index d < m_total_chunks m \<longrightarrow>
      unat (d_packet_index d) < packets_in m file (d_chunk_index d) \<longrightarrow>
      d_data d = packet_of m file (d_chunk_index d) (unat (d_packet_index d)))"

lemma genuine_slots_insert:
  assumes "genuine_slots m file ci slots"
    and "v \<longrightarrow> i < length slots \<longrightarrow> d = packet_of m file ci i"
  shows "genuine_slots m file ci (slots[i := (if v then Good d else Corrupt d)])"
proof (cases "i < length slots")
  case True
  with assms show ?thesis by (auto simp: genuine_slots_def nth_list_update split: if_splits)
qed (use assms in \<open>simp add: list_update_beyond\<close>)

lemma store_packet_honest:
  assumes dirs: "dirs_ok dir recv_dir" and desc: "describes m file"
    and base: "rx_base dir recv_dir rx" and opn: "chunk_open rx"
    and cur: "r_current_chunk_index rx = d_chunk_index dpdu"
    and ci: "d_chunk_index dpdu < m_total_chunks m"
    and tid: "d_transaction_id dpdu = m_transaction_id m"
    and core: "honest_core dir recv_dir m file rx"
    and gen: "genuine_data m file dpdu"
  shows "honest_outcome dir recv_dir m file (r_world rx) (store_packet zcrc dpdu rx)"
proof -
  let ?ci = "d_chunk_index dpdu" and ?v = "crc8 (d_data dpdu) = d_crc8 dpdu"
  have pl: "pl_inv (r_packet_list rx)" using base by (rule rx_baseD)
  have act: "r_transfer_active rx" using opn by (simp add: chunk_open_def)
  have t: "transfer_of recv_dir m (r_state rx)"
    and gs: "genuine_slots m file ?ci (pl_slots (r_packet_list rx))"
    using core act cur by (simp_all add: honest_core_def)
  have len: "length (pl_slots (r_packet_list rx)) = packets_in m file ?ci"
    using opn expected_packets_genuine [OF t desc ci] cur by (auto simp: chunk_open_def)
  obtain b pl' where put: "pl_insert (d_packet_index dpdu) (d_data dpdu) ?v (r_packet_list rx) = Some (b, pl')"
      "pl_inv pl'" "pl_slots pl' = (pl_slots (r_packet_list rx))[unat (d_packet_index dpdu) :=
        (if ?v then Good (d_data dpdu) else Corrupt (d_data dpdu))]"
    using pls.put_total [OF pl] by blast
  have gs': "genuine_slots m file ?ci (pl_slots pl')"
    unfolding put(3)
    by (rule genuine_slots_insert [OF gs]) (use gen ci tid len in \<open>simp add: genuine_data_def\<close>)
  let ?rx = "rx\<lparr>r_packet_list := pl'\<rparr>"
  have core': "honest_core dir recv_dir m file ?rx"
    using core gs' cur by (simp add: honest_core_def)
  have base': "rx_base dir recv_dir ?rx" using base put by (simp add: rx_base_def)
  show ?thesis
  proof (cases "pl_is_complete pl'")
    case True
    have "pl_assemble pl' = Some (chunk_of m file ?ci)"
      by (rule assemble_genuine [OF desc put(2) True _ gs']) (use put(3) len in simp)
    with flush_chunk_honest [OF dirs desc base' _ ci core'] act put True show ?thesis
      by (simp add: store_packet_def)
  next
    case False
    with honest_outcome_refl [OF core'] put show ?thesis by (simp add: store_packet_def)
  qed
qed

lemma honest_core_note_seen [simp]:
  "honest_core dir recv_dir m file (note_seen ci rx) = honest_core dir recv_dir m file rx"
  by (simp add: honest_core_def)

lemma switch_chunk_honest:
  assumes core: "honest_core dir recv_dir m file rx" and pl: "pl_inv (r_packet_list rx)"
    and run: "switch_chunk ci n rx = Inr rx'"
  shows "honest_outcome dir recv_dir m file (r_world rx) (Inr rx')"
proof -
  let ?nak = "if r_current_chunk_index rx \<noteq> UINT32_MAX \<and> \<not> pl_is_complete (r_packet_list rx)
    then send_nak_packets (r_current_chunk_index rx) rx else Inr rx"
  have "honest_outcome dir recv_dir m file (r_world rx) ?nak"
    using send_nak_packets_honest [OF core pl] honest_outcome_refl [OF core] by simp
  moreover obtain rx1 where rx1: "?nak = Inr rx1" "rx1 = rx \<or> (\<exists>pdu. rx1 = transport_send pdu rx)"
    using send_nak_packets_run [OF pl, of "r_current_chunk_index rx"]
    by (cases "r_current_chunk_index rx \<noteq> UINT32_MAX \<and> \<not> pl_is_complete (r_packet_list rx)") auto
  ultimately have out1: "good_run (honest_world dir recv_dir m file) (r_world rx) (r_world rx1)"
    "honest_core dir recv_dir m file rx1"
    by (simp_all add: honest_outcome_def)
  have pl1: "pl_inv (r_packet_list rx1)" using rx1(2) pl by auto
  obtain pl2 where pl2: "pl_clear (r_packet_list rx1) = Some pl2" "pl_inv pl2"
    using pls.clear_ok [OF pl1] by blast
  obtain pl3 where pl3: "pl_init n pl2 = Some pl3" "pl_slots pl3 = replicate (unat n) Missing"
    using pls.init_ok [OF pl2(2)] by blast
  have "rx' = rx1\<lparr>r_packet_list := pl3, r_current_chunk_index := ci\<rparr>"
    using run rx1(1) pl2(1) pl3(1) by (simp add: switch_chunk_def)
  with out1 pl3(2) show ?thesis
    by (simp add: honest_outcome_def honest_core_def genuine_slots_def)
qed

lemma handle_data_honest:
  assumes dirs: "dirs_ok dir recv_dir" and desc: "describes m file"
    and hon: "honest_rx dir recv_dir m file rx" and gen: "genuine_data m file dpdu"
  shows "honest_outcome dir recv_dir m file (r_world rx) (handle_data zcrc dpdu rx)"
proof -
  let ?ci = "d_chunk_index dpdu" and ?rx = "note_seen (d_chunk_index dpdu) rx"
  let ?ok = "honest_outcome dir recv_dir m file"
  have inv: "rx_inv dir recv_dir rx" and core: "honest_core dir recv_dir m file rx"
    using hon by (simp_all add: honest_rx_def)
  have core1: "honest_core dir recv_dir m file ?rx" using core by simp
  have here: "r_transfer_active rx" "?ci < m_total_chunks m" "d_transaction_id dpdu = m_transaction_id m"
    "transfer_of recv_dir m (r_state rx)" "state_ok recv_dir (r_state rx)"
    if "data_for dpdu rx"
    using that core rx_inv_active [OF inv] by (simp_all add: data_for_def honest_core_def transfer_of_def)
  show ?thesis
  proof (cases rule: handle_data_elim [of dpdu rx zcrc])
    case dropped
    then show ?thesis by (simp add: honest_outcome_refl [OF core])
  next
    case divide
    then show ?thesis by (simp add: honest_outcome_throw [OF core])
  next
    case known
    have "on_disk recv_dir m file ?ci (w_files (r_world rx))"
      using core here [OF known(1)] known(2) by (simp add: honest_core_def claims_hold_def)
    moreover have "?ci \<noteq> UINT32_MAX"
      using chunk_index_small(2) here [OF known(1)] by (simp add: transfer_of_def)
    ultimately have "?ok (r_world rx) (Inr (send_ack ?ci ?rx))"
      using send_ack_outcome [OF core1, of ?ci] by simp
    with known honest_outcome_refl [OF core1] show ?thesis by simp
  next
    case same
    have "chunk_open rx" and "r_current_chunk_index rx \<noteq> UINT32_MAX"
      using inv same(3) chunk_index_small(2) here [OF same(1)]
      by (auto simp: rx_inv_def transfer_of_def split: if_splits)
    then have "chunk_open ?rx" by (simp add: chunk_open_def)
    moreover have "rx_base dir recv_dir ?rx" using inv by (simp add: rx_inv_def rx_base_def)
    ultimately have "?ok (r_world ?rx) (store_packet zcrc dpdu ?rx)"
      by (intro store_packet_honest [OF dirs desc _ _ _ _ _ core1 gen])
        (use same here [OF same(1)] in simp_all)
    then show ?thesis unfolding same(4) by simp
  next
    case switched
    have inv1: "rx_inv dir recv_dir ?rx" using inv by simp
    have exp: "expected_packets (r_state ?rx) ?ci = Some (d_total_packets dpdu)"
      using switched(1) by (simp add: data_for_def)
    have ci: "unat ?ci < length (js_chunk_done (r_state ?rx))"
      using chunk_index_small(1) here [OF switched(1)] by (simp add: transfer_of_def)
    with switched(2) have nd: "\<not> js_chunk_done (r_state ?rx) ! unat ?ci" by (simp add: chunk_finished_def)
    from switch_chunk_ok [OF inv1 _ exp ci nd] here [OF switched(1)] obtain rx' where
      rx': "switch_chunk ?ci (d_total_packets dpdu) ?rx = Inr rx'" "rx_base dir recv_dir rx'"
        "chunk_open rx'" "r_current_chunk_index rx' = ?ci" by auto
    have "pl_inv (r_packet_list ?rx)" using inv1 by (simp add: rx_inv_def rx_base_def)
    from switch_chunk_honest [OF core1 this rx'(1)]
    have "good_run (honest_world dir recv_dir m file) (r_world rx) (r_world rx')"
      and core': "honest_core dir recv_dir m file rx'" by (simp_all add: honest_outcome_def)
    moreover have "?ok (r_world rx') (store_packet zcrc dpdu rx')"
      by (rule store_packet_honest [OF dirs desc rx'(2-4) _ _ core' gen])
        (use here [OF switched(1)] in simp_all)
    ultimately show ?thesis unfolding switched(4) rx'(1) by (simp add: honest_outcome_trans)
  qed
qed

section \<open>The other PDUs, and boot\<close>

lemma metadata_transfer_of:
  assumes "dirs_ok dir recv_dir" and "describes m file"
  shows "transfer_of recv_dir m (metadata_state recv_dir m s)"
  using assms metadata_dest [OF assms(1), of m s]
  by (simp add: transfer_of_def describes_def metadata_fits_def dest_of_def)
    (simp add: metadata_state_def terminated_strncpy)

lemma claims_hold_fresh: "claims_hold recv_dir m file (metadata_state recv_dir m s) d"
  by (auto simp: claims_hold_def chunk_finished_def metadata_state_def)

lemma handle_metadata_honest:
  assumes dirs: "dirs_ok dir recv_dir" and desc: "describes m file"
    and hon: "honest_rx dir recv_dir m file rx"
  shows "honest_outcome dir recv_dir m file (r_world rx) (handle_metadata m rx)"
proof -
  let ?H = "honest_world dir recv_dir m file" and ?w = "r_world rx"
  have base: "rx_base dir recv_dir rx" and core: "honest_core dir recv_dir m file rx"
    using hon by (simp_all add: honest_rx_def rx_inv_def)
  have j: "r_journal rx = journal_new dir" and rd: "r_recv_dir rx = recv_dir"
    and arr: "arrays_ok (r_state rx)" and pl: "pl_inv (r_packet_list rx)"
    using base by (simp_all add: rx_base_def)
  have m: "m_transaction_id m \<noteq> 0" "accepted m" "terminated (m_filename m)" "length (m_filename m) = 256"
    using desc by (simp_all add: describes_def metadata_fits_def)
  have again: "honest_outcome dir recv_dir m file ?w (Inr (send_ack UINT32_MAX rx))"
    if "r_last_acked_id rx = m_transaction_id m"
  proof -
    have "all_on_disk recv_dir m file (w_files ?w)" using core that by (simp add: honest_core_def)
    then show ?thesis by (intro send_ack_outcome [OF core]) (simp_all add: all_on_disk_def)
  qed
  have start: "honest_outcome dir recv_dir m file ?w (Inr (start_transfer m rx))"
  proof -
    let ?s = "metadata_state recv_dir m (r_state rx)"
    define w1 where "w1 = (if journal_exists (r_journal rx) ?w
      then snd (journal_remove (r_journal rx) ?w) else ?w)"
    have run1: "good_run ?H ?w w1"
      using journal_remove_run [OF dirs desc honest_core_world [OF core]]
        good_run_refl [of ?H, OF honest_core_world [OF core]] by (simp add: w1_def j)
    have st: "state_ok recv_dir ?s"
      using metadata_state_ok [OF dirs arr m(4,3)] m(2) by (simp add: accepted_def)
    have t: "transfer_of recv_dir m ?s" by (rule metadata_transfer_of [OF dirs desc])
    have run2: "good_run ?H w1 (snd (journal_create (journal_new dir) ?s w1))"
      unfolding journal_create_def
      by (rule journal_write_run [OF dirs desc good_runD [OF run1] st t claims_hold_fresh])
    obtain pl' where pl': "pl_clear (r_packet_list rx) = Some pl'" "pl_slots pl' = []"
      using pls.clear_ok [OF pl] by blast
    have dest: "w_files (snd (journal_create (journal_new dir) ?s w1)) (dest_of recv_dir m) =
        w_files ?w (dest_of recv_dir m)"
      using journal_other(1,4) [OF dest_not_journal(1) [OF dirs desc]] by (simp add: w1_def j)
    have "all_on_disk recv_dir m file (w_files (snd (journal_create (journal_new dir) ?s w1))) =
        all_on_disk recv_dir m file (w_files ?w)"
      using dest by (simp add: all_on_disk_def on_disk_def)
    moreover have "start_transfer m rx = rx\<lparr>r_state := ?s,
        r_world := snd (journal_create (journal_new dir) ?s w1), r_transfer_active := True,
        r_current_chunk_index := UINT32_MAX, r_max_chunk_seen := 0, r_packet_list := pl'\<rparr>"
      using pl'(1) by (simp add: start_transfer_def Let_def rd j w1_def)
    ultimately show ?thesis
      using good_runD [OF run2] t pl'(2) core claims_hold_fresh good_run_trans [OF run1 run2]
      by (simp add: honest_outcome_def honest_core_def genuine_slots_def)
  qed
  show ?thesis
    unfolding handle_metadata_cases [OF pl]
    using honest_outcome_refl [OF core] again start m by simp
qed

lemma handle_eof_core:
  assumes dirs: "dirs_ok dir recv_dir" and desc: "describes m file"
    and hon: "honest_rx dir recv_dir m file rx"
    and rx1: "rx1 = (if \<not> js_eof_received (r_state rx) then
        in_world (\<lambda>w. snd (mark_eof_received (r_journal rx) w)) (rx\<lparr>r_state := set_eof (r_state rx)\<rparr>)
      else rx)"
  shows "honest_core dir recv_dir m file rx1"
    and "good_run (honest_world dir recv_dir m file) (r_world rx) (r_world rx1)"
proof -
  let ?H = "honest_world dir recv_dir m file"
  have core: "honest_core dir recv_dir m file rx" and j: "r_journal rx = journal_new dir"
    using hon by (simp_all add: honest_rx_def rx_inv_def rx_base_def)
  show run: "good_run ?H (r_world rx) (r_world rx1)"
    using mark_eof_received_run [OF dirs desc honest_core_world [OF core]]
      good_run_refl [of ?H, OF honest_core_world [OF core]] by (simp add: rx1 j)
  have "w_files (snd (mark_eof_received (journal_new dir) w)) (dest_of recv_dir m) =
      w_files w (dest_of recv_dir m)" for w
    by (rule journal_other(3) [OF dest_not_journal(1) [OF dirs desc]])
  then have "on_disk recv_dir m file ci (w_files (snd (mark_eof_received (journal_new dir) w))) =
      on_disk recv_dir m file ci (w_files w)" for ci w
    by (simp add: on_disk_def)
  then show "honest_core dir recv_dir m file rx1"
    using good_runD [OF run] core
    by (auto simp: honest_core_def rx1 j all_on_disk_def claims_hold_def chunk_finished_def)
qed

lemma handle_eof_honest:
  assumes dirs: "dirs_ok dir recv_dir" and desc: "describes m file"
    and hon: "honest_rx dir recv_dir m file rx"
  shows "honest_outcome dir recv_dir m file (r_world rx) (handle_eof zcrc eof rx)"
proof (cases "r_transfer_active rx \<and> e_transaction_id eof = js_transaction_id (r_state rx)")
  case False
  with hon show ?thesis by (auto simp: handle_eof_def honest_rx_def honest_outcome_refl)
next
  case True
  define rx1 where "rx1 = (if \<not> js_eof_received (r_state rx) then
        in_world (\<lambda>w. snd (mark_eof_received (r_journal rx) w)) (rx\<lparr>r_state := set_eof (r_state rx)\<rparr>)
      else rx)"
  note core1 = handle_eof_core [OF dirs desc hon rx1_def]
  have j: "r_journal rx = journal_new dir" and pl: "pl_inv (r_packet_list rx)"
    using hon by (simp_all add: honest_rx_def rx_inv_def rx_base_def)
  have "honest_outcome dir recv_dir m file (r_world rx1) (check_completion zcrc rx1)"
    by (rule check_completion_honest [OF dirs desc core1(1)]) (use True j pl in \<open>simp_all add: rx1_def\<close>)
  from honest_outcome_trans [OF core1(2) this] True show ?thesis
    by (simp add: handle_eof_def Let_def rx1_def)
qed

lemma handle_resume_query_honest:
  assumes core: "honest_core dir recv_dir m file rx"
  shows "honest_outcome dir recv_dir m file (r_world rx) (handle_resume_query q rx)"
proof -
  let ?s = "r_state rx" and ?d = "w_files (r_world rx)"
  let ?first = "case compute_missing_chunks ?s of [] \<Rightarrow> UINT32_MAX | r # rs \<Rightarrow> fst r"
  have "on_disk recv_dir m file ci ?d"
    if act: "r_transfer_active rx" and ci: "ci < m_total_chunks m" "ci < ?first" for ci
  proof -
    have t: "transfer_of recv_dir m ?s" and cl: "claims_hold recv_dir m file ?s ?d"
      using core act by (simp_all add: honest_core_def)
    then have n: "unat ci < unat (js_total_chunks ?s)"
      using ci(1) by (simp add: transfer_of_def word_less_nat_alt)
    have "\<not> chunk_missing ?s (unat ci)"
    proof (cases "compute_missing_chunks ?s")
      case Nil
      with n show ?thesis by (simp add: compute_missing_Nil_iff)
    next
      case (Cons r rs)
      with ci(2) n show ?thesis by (intro compute_missing_least [OF Cons]) (simp_all add: word_less_nat_alt)
    qed
    then have "chunk_finished ?s ci" by (simp add: chunk_missing_def chunk_finished_def not_le)
    with cl ci(1) show ?thesis by (simp add: claims_hold_def)
  qed
  then show ?thesis
    unfolding handle_resume_query_def Let_def
    by (intro send_outcome [OF core]) (simp add: promise_kept_def split: if_split)
qed

text \<open>The traffic that is assumed.\<close>

definition honest_pdu :: "MetadataPdu \<Rightarrow> bytes \<Rightarrow> bytes \<Rightarrow> bool" where
  "honest_pdu m file raw \<longleftrightarrow>
     (\<forall>payload. raw = pdu_code Metadata # payload \<longrightarrow>
        (\<forall>m'. parse_metadata payload = Some m' \<longrightarrow> m' = m)) \<and>
     (\<forall>payload. raw = pdu_code Data # payload \<longrightarrow>
        (\<forall>d. parse_data payload = Some d \<longrightarrow> genuine_data m file d))"

lemma on_pdu_received_honest_core:
  assumes dirs: "dirs_ok dir recv_dir" and desc: "describes m file"
    and hon: "honest_rx dir recv_dir m file rx" and raw: "honest_pdu m file raw"
  shows "honest_outcome dir recv_dir m file (r_world rx) (on_pdu_received zcrc raw rx)"
proof -
  have core: "honest_core dir recv_dir m file rx" using hon by (simp add: honest_rx_def)
  have query: "honest_outcome dir recv_dir m file (r_world rx) (handle_resume_query q rx)" for q
    by (rule handle_resume_query_honest [OF core])
  show ?thesis
    using raw honest_outcome_refl [OF core] query handle_metadata_honest [OF dirs desc hon]
      handle_data_honest [OF dirs desc hon] handle_eof_honest [OF dirs desc hon]
    by (auto simp: on_pdu_received_def honest_pdu_def pdu_type_of_Some
        split: list.split option.split PduType.split)
qed

lemma describes_not_unterminated:
  "describes m file \<Longrightarrow> honest_pdu m file raw \<Longrightarrow> \<not> unterminated_metadata raw"
  by (auto simp: unterminated_metadata_def honest_pdu_def describes_def)

text \<open>One PDU: the invariant again, or an I/O exception; good at every point on the way.\<close>

lemma on_pdu_received_honest:
  assumes "dirs_ok dir recv_dir" and "describes m file"
    and hon: "honest_rx dir recv_dir m file rx" and raw: "honest_pdu m file raw"
  shows "good_run (honest_world dir recv_dir m file) (r_world rx)
      (outcome_world (on_pdu_received zcrc raw rx))"
    and "case on_pdu_received zcrc raw rx of Inl (f, w) \<Rightarrow> f \<in> io_faults
      | Inr rx' \<Rightarrow> honest_rx dir recv_dir m file rx'"
proof -
  have inv: "rx_inv dir recv_dir rx" using hon by (simp add: honest_rx_def)
  note out = on_pdu_received_honest_core [OF assms, of zcrc]
  from out show "good_run (honest_world dir recv_dir m file) (r_world rx)
      (outcome_world (on_pdu_received zcrc raw rx))" by (simp add: honest_outcome_def)
  from out on_pdu_received_ok [OF inv, of raw zcrc] describes_not_unterminated [OF assms(2) raw]
  show "case on_pdu_received zcrc raw rx of Inl (f, w) \<Rightarrow> f \<in> io_faults
      | Inr rx' \<Rightarrow> honest_rx dir recv_dir m file rx'"
    by (auto simp: honest_outcome_def honest_rx_def outcome_ok_def split: sum.splits)
qed

text \<open>A new process on a disk in order: its log is empty, whatever an earlier process sent.\<close>

lemma boot_honest_core:
  assumes dirs: "dirs_ok dir recv_dir" and desc: "describes m file"
    and hw: "honest_world dir recv_dir m file (w_log w) (w_files w)"
    and arr: "arrays_ok memory"
  shows "honest_outcome dir recv_dir m file w (on_boot zcrc (receiver_new dir recv_dir memory w))"
proof -
  let ?rx = "receiver_new dir recv_dir memory w"
  have m0: "m_transaction_id m \<noteq> 0" using desc by (simp add: describes_def)
  have core: "honest_core dir recv_dir m file ?rx"
    using hw m0 by (auto simp: honest_core_def receiver_new_def)
  have [simp]: "r_world ?rx = w" "r_journal ?rx = journal_new dir" "r_state ?rx = memory"
    "r_packet_list ?rx = pl_new" "r_last_acked_id ?rx = 0"
    by (simp_all add: receiver_new_def)
  obtain ok s where load: "journal_load (journal_new dir) w memory = (ok, s)" by fastforce
  obtain pl where pl: "pl_clear pl_new = Some pl" "pl_inv pl" "pl_slots pl = []"
    using pls.clear_ok [of pl_new] by auto
  consider (absent) "\<not> journal_exists (journal_new dir) w"
    | (bad) "journal_exists (journal_new dir) w" "\<not> ok"
    | (good) "journal_exists (journal_new dir) w" "ok" by blast
  then show ?thesis
  proof cases
    case absent
    with honest_outcome_refl [OF core] show ?thesis by (simp add: on_boot_def)
  next
    case bad
    note run = journal_remove_run [OF dirs desc hw]
    have "honest_core dir recv_dir m file (in_world (\<lambda>w. snd (journal_remove (journal_new dir) w))
        (?rx\<lparr>r_state := s\<rparr>))"
      using good_runD [OF run] m0 by (auto simp: honest_core_def receiver_new_def)
    with bad load run show ?thesis by (simp add: on_boot_def honest_outcome_def)
  next
    case good
    with load arr have "stored (journal_new dir) w = Some s"
      by (simp add: journal_load_def read_from_disk_decode stored_def stored_in_def)
    with hw have t: "transfer_of recv_dir m s" "claims_hold recv_dir m file s (w_files w)"
      by (simp_all add: honest_world_def disk_ok_def stored_def)
    then have trm: "terminated (js_filename s)" by (simp add: transfer_of_def)
    define rx1 where "rx1 = ?rx\<lparr>r_state := s, r_transfer_active := True,
      r_current_chunk_index := UINT32_MAX, r_max_chunk_seen := 0, r_packet_list := pl\<rparr>"
    have core1: "honest_core dir recv_dir m file rx1"
      using hw m0 t pl by (auto simp: honest_core_def genuine_slots_def rx1_def)
    have "honest_outcome dir recv_dir m file (r_world rx1) (check_completion zcrc rx1)"
      by (rule check_completion_honest [OF dirs desc core1]) (use pl in \<open>simp_all add: rx1_def\<close>)
    with honest_outcome_refl [OF core1] good load pl(1) trm show ?thesis
      by (simp add: on_boot_def rx1_def Let_def)
  qed
qed

lemma honest_journal_ok: "honest_world dir recv_dir m file es (w_files w) \<Longrightarrow> journal_ok dir recv_dir w"
  by (simp add: honest_world_def disk_ok_def journal_ok_def stored_def)

lemma boot_honest:
  assumes dirs: "dirs_ok dir recv_dir" and desc: "describes m file"
    and hw: "honest_world dir recv_dir m file (w_log w) (w_files w)"
    and arr: "arrays_ok memory"
  shows "\<exists>rx. on_boot zcrc (receiver_new dir recv_dir memory w) = Inr rx \<and>
    honest_rx dir recv_dir m file rx \<and> good_run (honest_world dir recv_dir m file) w (r_world rx)"
proof -
  let ?rx = "receiver_new dir recv_dir memory w"
  have "rx_inv dir recv_dir ?rx" by (rule receiver_new_inv [OF dirs arr honest_journal_ok [OF hw]])
  moreover have "\<not> r_transfer_active ?rx" by (simp add: receiver_new_def)
  ultimately have "outcome_ok dir recv_dir
      (if journal_unterminated (r_journal ?rx) (r_world ?rx) then {Undefined Unterminated_string} else {})
      (on_boot zcrc ?rx)" by (rule on_boot_ok)
  moreover have "\<not> journal_unterminated (r_journal ?rx) (r_world ?rx)"
    using hw by (auto simp: journal_unterminated_def receiver_new_def honest_world_def disk_ok_def
        stored_def transfer_of_def)
  ultimately have "outcome_ok dir recv_dir {} (on_boot zcrc ?rx)" by simp
  with boot_honest_core [OF assms, of zcrc] show ?thesis
    by (auto simp: honest_outcome_def outcome_ok_def honest_rx_def split: sum.splits)
qed

end
