(* ===== verification/Cfdp_System.thy ===== *)
theory Cfdp_System
  imports Cfdp_Honest
begin

text \<open>
  The receiver as a machine that gets PDUs, is killed at any point (in the middle of a write
  too), raises an I/O exception, and is started again on the disk it left. Two invariants of
  all reachable states: one for any traffic, one for the honest traffic of one transfer.
\<close>

section \<open>The machine\<close>

text \<open>
  A process that waits for its next PDU, or no process: killed at some point, or ended by an
  exception, with the disk (and the record of what was sent) that is left. \<open>Down None\<close> is a
  machine that was switched off.
\<close>

datatype machine = Running CfdpReceiver | Down "fault option" World

fun world_of :: "machine \<Rightarrow> World" where
  "world_of (Running rx) = r_world rx"
| "world_of (Down why w) = w"

definition with_faults :: "Faults \<Rightarrow> World \<Rightarrow> World" where
  "with_faults F w = w\<lparr>w_faults := F\<rparr>"

lemma with_faults_simps [simp]:
  "w_files (with_faults F w) = w_files w" "w_log (with_faults F w) = w_log w"
  by (simp_all add: with_faults_def)

text \<open>What is left when the process is killed after some of the effects between two worlds.\<close>

definition crashed :: "World \<Rightarrow> World \<Rightarrow> World \<Rightarrow> bool" where
  "crashed w w' v \<longleftrightarrow>
     (\<exists>es es'. ran w es w' \<and> crash_prefix es es' \<and>
        v = w\<lparr>w_files := replay es' (w_files w), w_log := w_log w @ es'\<rparr>)"

text \<open>
  The steps, for a set of PDUs that may arrive. Which system calls are refused may change
  between any two steps. A new process has the constructor's state and arbitrary memory in
  the uninitialised member.
\<close>

inductive step :: "zlib_crc32 \<Rightarrow> path \<Rightarrow> path \<Rightarrow> bytes set \<Rightarrow> machine \<Rightarrow> machine \<Rightarrow> bool"
  for zcrc dir recv_dir traffic where
  handled: "raw \<in> traffic \<Longrightarrow> on_pdu_received zcrc raw rx = Inr rx' \<Longrightarrow>
    step zcrc dir recv_dir traffic (Running rx) (Running rx')"
| raised: "raw \<in> traffic \<Longrightarrow> on_pdu_received zcrc raw rx = Inl (f, w) \<Longrightarrow>
    step zcrc dir recv_dir traffic (Running rx) (Down (Some f) w)"
| killed: "raw \<in> traffic \<Longrightarrow>
    crashed (r_world rx) (outcome_world (on_pdu_received zcrc raw rx)) w \<Longrightarrow>
    step zcrc dir recv_dir traffic (Running rx) (Down None w)"
| faults: "step zcrc dir recv_dir traffic (Running rx)
    (Running (rx\<lparr>r_world := with_faults F (r_world rx)\<rparr>))"
| booted: "arrays_ok memory \<Longrightarrow>
    on_boot zcrc (receiver_new dir recv_dir memory (with_faults F w)) = Inr rx \<Longrightarrow>
    step zcrc dir recv_dir traffic (Down why w) (Running rx)"
| boot_raised: "arrays_ok memory \<Longrightarrow>
    on_boot zcrc (receiver_new dir recv_dir memory (with_faults F w)) = Inl (f, w') \<Longrightarrow>
    step zcrc dir recv_dir traffic (Down why w) (Down (Some f) w')"
| boot_killed: "arrays_ok memory \<Longrightarrow>
    crashed (with_faults F w)
      (outcome_world (on_boot zcrc (receiver_new dir recv_dir memory (with_faults F w)))) w' \<Longrightarrow>
    step zcrc dir recv_dir traffic (Down why w) (Down None w')"

inductive_cases step_RunningE: "step zcrc dir recv_dir traffic (Running rx) s"
inductive_cases step_DownE: "step zcrc dir recv_dir traffic (Down why w) s"
inductive_simps step_Running_iff: "step zcrc dir recv_dir traffic (Running rx) (Running rx')"

section \<open>Invariants of a transition system\<close>

locale step_invariant =
  fixes trans :: "'s \<Rightarrow> 's \<Rightarrow> bool" and initial :: "'s \<Rightarrow> bool" and inv :: "'s \<Rightarrow> bool"
  assumes starts: "initial s \<Longrightarrow> inv s"
    and keeps: "inv s \<Longrightarrow> trans s t \<Longrightarrow> inv t"
begin

lemma reached: "initial s \<Longrightarrow> trans\<^sup>*\<^sup>* s t \<Longrightarrow> inv t"
proof -
  assume "initial s" and "trans\<^sup>*\<^sup>* s t"
  from this(2,1) show "inv t"
    by (induction rule: rtranclp_induct) (auto intro: starts keeps)
qed

end

section \<open>Any traffic\<close>

text \<open>
  A fault a machine may be down with when anything can arrive: the process was killed, an
  I/O exception, or the read beyond the name field of a \<open>Metadata\<close> without terminator.
\<close>

definition fault_known :: "fault option \<Rightarrow> bool" where
  "fault_known why \<longleftrightarrow>
     (case why of None \<Rightarrow> True | Some f \<Rightarrow> f \<in> io_faults \<union> {Undefined Unterminated_string})"

fun machine_ok :: "path \<Rightarrow> path \<Rightarrow> machine \<Rightarrow> bool" where
  "machine_ok dir recv_dir (Running rx) = rx_inv dir recv_dir rx"
| "machine_ok dir recv_dir (Down why w) \<longleftrightarrow> fault_known why \<and> journal_ok dir recv_dir w"

definition fresh_machine :: "path \<Rightarrow> path \<Rightarrow> machine \<Rightarrow> bool" where
  "fresh_machine dir recv_dir s \<longleftrightarrow>
     (\<exists>w. s = Down None w \<and> w_log w = [] \<and> w_files w (j_state_path (journal_new dir)) = None)"

lemma journal_ok_with_faults [simp]:
  "journal_ok dir recv_dir (with_faults F w) = journal_ok dir recv_dir w"
  by (simp add: journal_ok_def stored_def)

lemma crashed_effects:
  assumes run: "effects dir recv_dir w w'" and ok: "journal_ok dir recv_dir w" and c: "crashed w w' v"
  shows "journal_ok dir recv_dir v"
proof -
  obtain es es' where es: "ran w es w'" "crash_prefix es es'" "w_files v = replay es' (w_files w)"
    using c by (auto simp: crashed_def)
  from run ok obtain es2 where "ran w es2 w'" "survives (journal_fine dir recv_dir) (w_files w) es2"
    by (auto simp: effects_def)
  with ran_unique [OF es(1)] es show ?thesis by (auto simp: survives_def journal_ok_fine)
qed

lemma rx_inv_faults [simp]:
  "rx_inv dir recv_dir (rx\<lparr>r_world := with_faults F (r_world rx)\<rparr>) = rx_inv dir recv_dir rx"
  by (simp add: rx_inv_def rx_base_def chunk_open_def)

lemma fresh_journal_ok:
  "w_files w (j_state_path (journal_new dir)) = None \<Longrightarrow> journal_ok dir recv_dir w"
  by (simp add: journal_ok_def stored_def stored_in_def)

lemma boot_any:
  assumes dirs: "dirs_ok dir recv_dir" and arr: "arrays_ok memory"
    and w: "journal_ok dir recv_dir w"
  shows "outcome_ok dir recv_dir {Undefined Unterminated_string}
      (on_boot zcrc (receiver_new dir recv_dir memory w))"
    and "effects dir recv_dir w (outcome_world (on_boot zcrc (receiver_new dir recv_dir memory w)))"
proof -
  have inv: "rx_inv dir recv_dir (receiver_new dir recv_dir memory w)"
    by (rule receiver_new_inv [OF dirs arr w])
  show "outcome_ok dir recv_dir {Undefined Unterminated_string}
      (on_boot zcrc (receiver_new dir recv_dir memory w))"
    by (rule outcome_ok_mono [OF on_boot_ok [OF inv]]) (auto simp: receiver_new_def)
  have "rx_base dir recv_dir (receiver_new dir recv_dir memory w)" using inv by (simp add: rx_inv_def)
  from effects_on_boot [OF this, of zcrc]
  show "effects dir recv_dir w (outcome_world (on_boot zcrc (receiver_new dir recv_dir memory w)))"
    by (simp add: receiver_new_def)
qed

lemma machine_ok_step:
  assumes dirs: "dirs_ok dir recv_dir" and ok: "machine_ok dir recv_dir s"
    and st: "step zcrc dir recv_dir traffic s t"
  shows "machine_ok dir recv_dir t"
proof (cases s)
  case (Running rx)
  then have inv: "rx_inv dir recv_dir rx" using ok by simp
  then have w: "journal_ok dir recv_dir (r_world rx)" by (simp add: rx_inv_def rx_base_def)
  have out: "outcome_ok dir recv_dir (io_faults \<union> {Undefined Unterminated_string})
      (on_pdu_received zcrc raw rx)" for raw
    by (rule outcome_ok_mono [OF on_pdu_received_ok [OF inv]]) auto
  from st [unfolded Running] show ?thesis
  proof (rule step_RunningE)
    fix raw rx' assume "t = Running rx'" "on_pdu_received zcrc raw rx = Inr rx'"
    with out [of raw] show ?thesis by simp
  next
    fix raw f w' assume "t = Down (Some f) w'" "on_pdu_received zcrc raw rx = Inl (f, w')"
    with out [of raw] show ?thesis by (simp add: fault_known_def)
  next
    fix raw v assume "t = Down None v"
      "crashed (r_world rx) (outcome_world (on_pdu_received zcrc raw rx)) v"
    with crashed_effects [OF effects_on_pdu_received [OF inv] w] show ?thesis
      by (simp add: fault_known_def)
  next
    fix F assume "t = Running (rx\<lparr>r_world := with_faults F (r_world rx)\<rparr>)"
    with inv show ?thesis by simp
  qed
next
  case (Down why w)
  then have w: "journal_ok dir recv_dir (with_faults F w)" for F using ok by simp
  from st [unfolded Down] show ?thesis
  proof (rule step_DownE)
    fix memory F rx assume "t = Running rx" "arrays_ok memory"
      "on_boot zcrc (receiver_new dir recv_dir memory (with_faults F w)) = Inr rx"
    with boot_any(1) [OF dirs _ w, of memory zcrc F] show ?thesis by simp
  next
    fix memory F f w' assume "t = Down (Some f) w'" "arrays_ok memory"
      "on_boot zcrc (receiver_new dir recv_dir memory (with_faults F w)) = Inl (f, w')"
    with boot_any(1) [OF dirs _ w, of memory zcrc F] show ?thesis by (simp add: fault_known_def)
  next
    fix memory F w' assume "t = Down None w'" "arrays_ok memory" "crashed (with_faults F w)
      (outcome_world (on_boot zcrc (receiver_new dir recv_dir memory (with_faults F w)))) w'"
    with crashed_effects [OF boot_any(2) [OF dirs _ w] w] show ?thesis
      by (simp add: fault_known_def)
  qed
qed

interpretation any_traffic: step_invariant "step zcrc dir recv_dir traffic"
    "\<lambda>s. dirs_ok dir recv_dir \<and> fresh_machine dir recv_dir s"
    "\<lambda>s. dirs_ok dir recv_dir \<and> machine_ok dir recv_dir s"
  for zcrc dir recv_dir traffic
proof
  fix s t
  show "dirs_ok dir recv_dir \<and> machine_ok dir recv_dir s"
    if "dirs_ok dir recv_dir \<and> fresh_machine dir recv_dir s"
    using that by (auto simp: fresh_machine_def fault_known_def fresh_journal_ok)
  show "dirs_ok dir recv_dir \<and> machine_ok dir recv_dir t"
    if "dirs_ok dir recv_dir \<and> machine_ok dir recv_dir s" "step zcrc dir recv_dir traffic s t"
    using that machine_ok_step by blast
qed

section \<open>Honest traffic\<close>

fun machine_honest :: "path \<Rightarrow> path \<Rightarrow> MetadataPdu \<Rightarrow> bytes \<Rightarrow> machine \<Rightarrow> bool" where
  "machine_honest dir recv_dir m file (Running rx) = honest_rx dir recv_dir m file rx"
| "machine_honest dir recv_dir m file (Down why w) \<longleftrightarrow>
     honest_world dir recv_dir m file (w_log w) (w_files w) \<and> (\<forall>f. why = Some f \<longrightarrow> f \<in> io_faults)"

lemma machine_honest_world:
  "machine_honest dir recv_dir m file s \<Longrightarrow>
     honest_world dir recv_dir m file (w_log (world_of s)) (w_files (world_of s))"
  by (cases s) (auto simp: honest_rx_def honest_core_def)

definition fresh_output :: "path \<Rightarrow> path \<Rightarrow> MetadataPdu \<Rightarrow> bytes \<Rightarrow> machine \<Rightarrow> bool" where
  "fresh_output dir recv_dir m file s \<longleftrightarrow>
     fresh_machine dir recv_dir s \<and> not_longer recv_dir m file (w_files (world_of s))"

lemma crashed_good_run:
  assumes run: "good_run P w w'" and c: "crashed w w' v"
  shows "P (w_log v) (w_files v)"
proof -
  obtain es es' where es: "ran w es w'" "crash_prefix es es'"
    "v = w\<lparr>w_files := replay es' (w_files w), w_log := w_log w @ es'\<rparr>"
    using c by (auto simp: crashed_def)
  from run obtain es2 where "ran w es2 w'"
    "\<forall>es'. crash_prefix es2 es' \<longrightarrow> P (w_log w @ es') (replay es' (w_files w))"
    by (auto simp: good_run_def)
  with ran_unique [OF es(1)] es show ?thesis by auto
qed

lemma honest_rx_faults [simp]:
  "honest_rx dir recv_dir m file (rx\<lparr>r_world := with_faults F (r_world rx)\<rparr>) =
     honest_rx dir recv_dir m file rx"
  by (simp add: honest_rx_def honest_core_def)

lemma machine_honest_step:
  assumes dirs: "dirs_ok dir recv_dir" and desc: "describes m file"
    and hon: "machine_honest dir recv_dir m file s"
    and st: "step zcrc dir recv_dir (Collect (honest_pdu m file)) s t"
  shows "machine_honest dir recv_dir m file t"
proof (cases s)
  case (Running rx)
  then have rx: "honest_rx dir recv_dir m file rx" using hon by simp
  note pdu = on_pdu_received_honest [OF dirs desc rx, of _ zcrc]
  from st [unfolded Running] show ?thesis
  proof (rule step_RunningE)
    fix raw rx' assume "t = Running rx'" "raw \<in> Collect (honest_pdu m file)"
      "on_pdu_received zcrc raw rx = Inr rx'"
    with pdu(2) [of raw] show ?thesis by simp
  next
    fix raw f w' assume "t = Down (Some f) w'" "raw \<in> Collect (honest_pdu m file)"
      "on_pdu_received zcrc raw rx = Inl (f, w')"
    with pdu(2) [of raw] good_runD [OF pdu(1) [of raw]] show ?thesis by simp
  next
    fix raw v assume "t = Down None v" "raw \<in> Collect (honest_pdu m file)"
      "crashed (r_world rx) (outcome_world (on_pdu_received zcrc raw rx)) v"
    with crashed_good_run [OF pdu(1) [of raw]] show ?thesis by simp
  next
    fix F assume "t = Running (rx\<lparr>r_world := with_faults F (r_world rx)\<rparr>)"
    with rx show ?thesis by simp
  qed
next
  case (Down why w)
  then have w: "honest_world dir recv_dir m file (w_log (with_faults F w)) (w_files (with_faults F w))" for F
    using hon by simp
  note boot = boot_honest [OF dirs desc w, of _ zcrc]
  from st [unfolded Down] show ?thesis
  proof (rule step_DownE)
    fix memory F rx assume "t = Running rx" "arrays_ok memory"
      "on_boot zcrc (receiver_new dir recv_dir memory (with_faults F w)) = Inr rx"
    with boot [of memory F] show ?thesis by auto
  next
    fix memory F f w' assume "t = Down (Some f) w'" "arrays_ok memory"
      "on_boot zcrc (receiver_new dir recv_dir memory (with_faults F w)) = Inl (f, w')"
    with boot [of memory F] show ?thesis by auto
  next
    fix memory F w' assume c: "t = Down None w'" "arrays_ok memory" "crashed (with_faults F w)
      (outcome_world (on_boot zcrc (receiver_new dir recv_dir memory (with_faults F w)))) w'"
    from boot [OF c(2), of F] obtain rx where
      rx: "on_boot zcrc (receiver_new dir recv_dir memory (with_faults F w)) = Inr rx"
        "good_run (honest_world dir recv_dir m file) (with_faults F w) (r_world rx)" by blast
    from c(3) rx(1) have "crashed (with_faults F w) (r_world rx) w'" by simp
    from crashed_good_run [OF rx(2) this] c(1) show ?thesis by simp
  qed
qed

interpretation honest_traffic: step_invariant "step zcrc dir recv_dir (Collect (honest_pdu m bs))"
    "\<lambda>s. dirs_ok dir recv_dir \<and> describes m bs \<and> fresh_output dir recv_dir m bs s"
    "\<lambda>s. dirs_ok dir recv_dir \<and> describes m bs \<and> machine_honest dir recv_dir m bs s"
  for zcrc dir recv_dir m bs
proof
  fix s t
  show "dirs_ok dir recv_dir \<and> describes m bs \<and> machine_honest dir recv_dir m bs s"
    if "dirs_ok dir recv_dir \<and> describes m bs \<and> fresh_output dir recv_dir m bs s"
    using that by (auto simp: fresh_output_def fresh_machine_def honest_world_def disk_ok_def
        stored_in_def)
  show "dirs_ok dir recv_dir \<and> describes m bs \<and> machine_honest dir recv_dir m bs t"
    if "dirs_ok dir recv_dir \<and> describes m bs \<and> machine_honest dir recv_dir m bs s"
      "step zcrc dir recv_dir (Collect (honest_pdu m bs)) s t"
    using that machine_honest_step by blast
qed

lemma honest_reachable:
  assumes "dirs_ok dir recv_dir" and "describes m file" and "fresh_output dir recv_dir m file s"
    and "(step zcrc dir recv_dir (Collect (honest_pdu m file)))\<^sup>*\<^sup>* s t"
  shows "machine_honest dir recv_dir m file t"
  using honest_traffic.reached [OF _ assms(4)] assms(1-3) by blast

end
