(* ===== verification/Cfdp_Delivery.thy ===== *)
theory Cfdp_Delivery
  imports Cfdp_System
begin

text \<open>
  Progress: an abstract receiver that only counts chunks and packets, and the proof that
  \<open>src/receiver/CfdpReceiver.cpp\<close> implements it when no system call is refused. From it the
  delivery theorem: after losses, damage and repetitions of any kind, one complete pass per
  chunk and an \<open>Eof\<close> leave the source file on disk and the final ACK sent.
\<close>

section \<open>The abstract receiver\<close>

text \<open>
  What a transfer has got so far: all chunks before \<open>k\<close>, of chunk \<open>k\<close> the packets in \<open>S\<close>,
  and whether an \<open>Eof\<close> came; or it is complete.
\<close>

datatype progress = Receiving nat "nat set" bool | Complete

text \<open>
  What arrives: a packet, a packet whose payload was damaged (other bytes, CRC-8 mismatch),
  an \<open>Eof\<close>.
\<close>

datatype item = Arrives u32 nat | Damaged u32 nat bytes u8 | EofMark

fun progress_step :: "MetadataPdu \<Rightarrow> bytes \<Rightarrow> progress \<Rightarrow> item \<Rightarrow> progress" where
  "progress_step m file Complete it = Complete"
| "progress_step m file (Receiving k S e) (Arrives ci i) =
     (if unat ci < k then Receiving k S e
      else if insert i S = {..<packets_in m file ci} then
        if e \<and> Suc k = unat (m_total_chunks m) then Complete else Receiving (Suc k) {} e
      else Receiving k (insert i S) e)"
| "progress_step m file (Receiving k S e) (Damaged ci i d c) =
     (if unat ci < k then Receiving k S e else Receiving k (S - {i}) e)"
| "progress_step m file (Receiving k S e) EofMark =
     (if k = unat (m_total_chunks m) then Complete else Receiving k S True)"

text \<open>The sender goes chunk by chunk: no packet of a later chunk than the one in progress.\<close>

fun item_ok :: "MetadataPdu \<Rightarrow> bytes \<Rightarrow> progress \<Rightarrow> item \<Rightarrow> bool" where
  "item_ok m file p EofMark = True"
| "item_ok m file p (Arrives ci i) \<longleftrightarrow>
     ci < m_total_chunks m \<and> i < packets_in m file ci \<and>
     (case p of Receiving k S e \<Rightarrow> unat ci \<le> k | Complete \<Rightarrow> True)"
| "item_ok m file p (Damaged ci i d c) \<longleftrightarrow>
     ci < m_total_chunks m \<and> i < packets_in m file ci \<and>
     length d = length (packet_of m file ci i) \<and> crc8 d \<noteq> c \<and>
     (case p of Receiving k S e \<Rightarrow> unat ci \<le> k | Complete \<Rightarrow> True)"

text \<open>The PDUs on the wire.\<close>

definition packet_pdu :: "MetadataPdu \<Rightarrow> bytes \<Rightarrow> u32 \<Rightarrow> nat \<Rightarrow> bytes \<Rightarrow> u8 \<Rightarrow> DataPdu" where
  "packet_pdu m file ci i d c =
     \<lparr>d_transaction_id = m_transaction_id m, d_chunk_index = ci, d_packet_index = of_nat i,
      d_total_packets = of_nat (packets_in m file ci), d_data_len = of_nat (length d),
      d_crc8 = c, d_data = d\<rparr>"

definition padded_data_pdu :: "MetadataPdu \<Rightarrow> DataPdu \<Rightarrow> bytes" where
  "padded_data_pdu m d =
     data_pdu d (replicate (unat (m_packet_size m) - length (d_data d)) 0)"

fun item_pdu :: "MetadataPdu \<Rightarrow> bytes \<Rightarrow> item \<Rightarrow> bytes" where
  "item_pdu m file (Arrives ci i) =
     (let d = packet_of m file ci i in padded_data_pdu m (packet_pdu m file ci i d (crc8 d)))"
| "item_pdu m file (Damaged ci i d c) = padded_data_pdu m (packet_pdu m file ci i d c)"
| "item_pdu m file EofMark =
     eof_pdu \<lparr>e_transaction_id = m_transaction_id m, e_checksum = m_checksum m\<rparr>"

text \<open>The abstraction: what a receiver shows of a transfer when no system call is refused.\<close>

definition shows_progress :: "MetadataPdu \<Rightarrow> bytes \<Rightarrow> nat \<Rightarrow> nat set \<Rightarrow> bool \<Rightarrow> CfdpReceiver \<Rightarrow> bool" where
  "shows_progress m file k S e rx \<longleftrightarrow>
     r_transfer_active rx \<and> k \<le> unat (m_total_chunks m) \<and>
     (\<forall>ci < m_total_chunks m. chunk_finished (r_state rx) ci \<longleftrightarrow> unat ci < k) \<and>
     js_eof_received (r_state rx) = e \<and> \<not> (e \<and> k = unat (m_total_chunks m)) \<and>
     (if r_current_chunk_index rx = UINT32_MAX then S = {}
      else unat (r_current_chunk_index rx) = k \<and>
        S = {i. i < length (pl_slots (r_packet_list rx)) \<and> is_good (pl_slots (r_packet_list rx) ! i)})"

fun tracks :: "path \<Rightarrow> path \<Rightarrow> MetadataPdu \<Rightarrow> bytes \<Rightarrow> progress \<Rightarrow> CfdpReceiver \<Rightarrow> bool" where
  "tracks dir recv_dir m file (Receiving k S e) rx \<longleftrightarrow>
     calm (r_world rx) \<and> honest_rx dir recv_dir m file rx \<and> shows_progress m file k S e rx"
| "tracks dir recv_dir m file Complete rx \<longleftrightarrow>
     calm (r_world rx) \<and> honest_rx dir recv_dir m file rx \<and> \<not> r_transfer_active rx \<and>
     acked m UINT32_MAX (w_log (r_world rx)) \<and>
     w_files (r_world rx) (dest_of recv_dir m) = Some file"

section \<open>What arrives is honest\<close>

lemma parse_padded:
  assumes "length d \<le> 4096"
  shows "parse_data (tl (padded_data_pdu m (packet_pdu m file ci i d c))) = Some (packet_pdu m file ci i d c)"
proof -
  have "unat (of_nat (length d) :: u32) = length d" using assms by (simp add: unat_of_nat)
  then show ?thesis
    using assms by (simp add: padded_data_pdu_def data_pdu_def)
      (subst parse_data_image, simp_all add: packet_pdu_def word_le_nat_alt DEFAULT_PACKET_SIZE_def)
qed

lemma padded_data_pdu_Cons:
  "padded_data_pdu m d = pdu_code Data # tl (padded_data_pdu m d)"
  by (simp add: padded_data_pdu_def data_pdu_def)

lemma length_packet_of:
  assumes "describes m file"
  shows "length (packet_of m file ci i) \<le> 4096"
  using describesD(6) [OF assms] by (simp add: packet_of_def length_piece)

lemma packet_of_nonempty:
  assumes "describes m file" and "i < packets_in m file ci"
  shows "packet_of m file ci i \<noteq> []"
  using piece_nonempty [OF describesD(2) [OF assms(1)]] assms(2)
  by (simp add: packet_of_def packets_in_def)

lemma packet_index:
  assumes "describes m file" and "i < packets_in m file ci"
  shows "unat (of_nat i :: u32) = i"
proof -
  have "packets_in m file ci \<le> length (chunk_of m file ci)" by (rule packets_in_le [OF assms(1)])
  also have "\<dots> \<le> unat (m_chunk_size m)" by (simp add: length_chunk_of)
  also have "\<dots> < 2 ^ 32" by simp
  finally have "i < 2 ^ 32" using assms(2) by simp
  then show ?thesis by (simp add: unat_of_nat)
qed

lemma pdu_code_neq [simp]: "pdu_code Data \<noteq> pdu_code Metadata" "pdu_code Eof \<noteq> pdu_code Metadata"
    "pdu_code Eof \<noteq> pdu_code Data" "pdu_code Metadata \<noteq> pdu_code Data"
  by (simp_all add: pdu_code.simps)

text \<open>A data item as the dispatcher sees it.\<close>

definition item_data :: "MetadataPdu \<Rightarrow> bytes \<Rightarrow> item \<Rightarrow> DataPdu option" where
  "item_data m file it =
     (case it of
        Arrives ci i \<Rightarrow> let d = packet_of m file ci i in Some (packet_pdu m file ci i d (crc8 d))
      | Damaged ci i d c \<Rightarrow> Some (packet_pdu m file ci i d c)
      | EofMark \<Rightarrow> None)"

lemma item_pdu_data:
  assumes "describes m file" and "item_ok m file p it" and "item_data m file it = Some d"
  shows "item_pdu m file it = pdu_code Data # tl (item_pdu m file it)"
    and "parse_data (tl (item_pdu m file it)) = Some d"
proof -
  have cons: "x = padded_data_pdu m d \<Longrightarrow> x = pdu_code Data # tl x" for x d
    using padded_data_pdu_Cons by simp
  show "item_pdu m file it = pdu_code Data # tl (item_pdu m file it)"
    by (rule cons) (use assms(3) in \<open>cases it; auto simp: item_data_def Let_def\<close>)
  show "parse_data (tl (item_pdu m file it)) = Some d"
    using assms length_packet_of [OF assms(1)]
    by (cases it) (auto simp: item_data_def Let_def parse_padded)
qed

lemma item_honest:
  assumes "describes m file" and "item_ok m file p it"
  shows "honest_pdu m file (item_pdu m file it)"
proof (cases "item_data m file it")
  case None
  then have "it = EofMark" by (cases it) (auto simp: item_data_def Let_def)
  then show ?thesis by (simp add: honest_pdu_def eof_pdu_def)
next
  case (Some d)
  have "genuine_data m file d"
    using assms Some packet_index [OF assms(1)]
    by (cases it) (auto simp: item_data_def Let_def genuine_data_def packet_pdu_def)
  with item_pdu_data [OF assms Some] show ?thesis
    unfolding honest_pdu_def by (metis list.sel(3) list.inject option.inject pdu_code_neq(1))
qed

section \<open>Simulation\<close>

lemma good_run_calm: "good_run P w w' \<Longrightarrow> calm w \<Longrightarrow> calm w'"
  by (auto simp: good_run_def calm_def ran_faults)

lemma calm_simps [simp]:
  "calm (do_op op w) = calm w" "calm (transmit pdu w) = calm w"
  by (simp_all add: calm_def)

lemma honest_outcome_calm:
  "honest_outcome dir recv_dir m file w (Inr rx) \<Longrightarrow> calm w \<Longrightarrow> calm (r_world rx)"
  by (auto simp: honest_outcome_def dest: good_run_calm)

lemma seekable_small: "unat off < 2 ^ 63 \<Longrightarrow> seekable off"
proof -
  assume "unat off < 2 ^ 63"
  then have "int (unat off) < int (2 ^ 63)" by (simp only: of_nat_less_iff)
  then have "uint off < 2 ^ 63" by simp
  then have "sint off = uint off"
    unfolding sint_uint by (simp, intro signed_take_bit_int_eq_self) (simp_all add: order_trans [of _ 0])
  then show ?thesis by (simp add: seekable_def)
qed

lemma missing_iff_finished:
  assumes "transfer_of recv_dir m s"
  shows "compute_missing_chunks s = [] \<longleftrightarrow> (\<forall>ci < m_total_chunks m. chunk_finished s ci)"
proof
  assume "compute_missing_chunks s = []"
  then show "\<forall>ci < m_total_chunks m. chunk_finished s ci"
    using assms by (auto simp: compute_missing_Nil_iff transfer_of_def chunk_missing_def
        chunk_finished_def word_less_nat_alt not_le)
next
  assume fin: "\<forall>ci < m_total_chunks m. chunk_finished s ci"
  have "\<not> chunk_missing s i" if i: "i < unat (m_total_chunks m)" for i
  proof -
    have "i < 4294967296" using i unat32_less by (rule less_trans)
    then have u: "unat (of_nat i :: u32) = i" by (simp add: unat_of_nat)
    with fin i have "chunk_finished s (of_nat i)" by (simp add: word_less_nat_alt)
    then show ?thesis by (simp add: chunk_finished_def chunk_missing_def u)
  qed
  with assms show "compute_missing_chunks s = []"
    by (simp add: compute_missing_Nil_iff transfer_of_def)
qed

text \<open>The completion check, with no chunk in progress and an \<open>Eof\<close> received.\<close>

lemma check_completion_idle:
  assumes desc: "describes m file" and sum: "crc32_file zcrc (Some file) = m_checksum m"
    and core: "honest_core dir recv_dir m file rx" and act: "r_transfer_active rx"
    and st: "state_ok recv_dir (r_state rx)" and calm: "calm (r_world rx)"
    and cur: "r_current_chunk_index rx = UINT32_MAX" and eof: "js_eof_received (r_state rx)"
  shows "\<exists>rx'. check_completion zcrc rx = Inr rx' \<and>
    (if compute_missing_chunks (r_state rx) = [] then
       \<not> r_transfer_active rx' \<and> acked m UINT32_MAX (w_log (r_world rx'))
     else rx' = rx \<or> (\<exists>pdu. rx' = transport_send pdu rx))"
proof -
  let ?s = "r_state rx" and ?d = "w_files (r_world rx)"
  have t: "transfer_of recv_dir m ?s" and cl: "claims_hold recv_dir m file ?s ?d"
    and nl: "not_longer recv_dir m file ?d"
    using core act by (simp_all add: honest_core_def honest_world_def disk_ok_def)
  show ?thesis
  proof (cases "compute_missing_chunks ?s = []")
    case True
    have "?d (dest_of recv_dir m) = Some file"
      by (rule all_on_disk_file [OF desc claims_all [OF t cl True] nl])
    then have "readable (recv_file_path rx) (r_world rx) = Some file"
      using t calm by (simp add: readable_def recv_file_path_def transfer_of_def calm_def)
    then have "verify_file_checksum zcrc rx"
      using sum t by (simp add: verify_file_checksum_def transfer_of_def)
    then have "check_completion zcrc rx = Inr (in_world (\<lambda>w. snd (journal_remove (r_journal rx) w))
        (send_ack UINT32_MAX (rx\<lparr>r_last_acked_id := js_transaction_id ?s\<rparr>)
          \<lparr>r_transfer_active := False\<rparr>))"
      using True cur eof by (simp add: check_completion_def Let_def)
    moreover have "acked m UINT32_MAX (w_log (snd (journal_remove j (transmit (ack_pdu
        \<lparr>a_transaction_id = js_transaction_id ?s, a_chunk_index = UINT32_MAX\<rparr>) w))))" for j w
      using t by (simp add: journal_remove_def transfer_of_def acked_def)
    ultimately show ?thesis using True by simp
  next
    case False
    show ?thesis
    proof (cases "find (\<lambda>cr. \<not> fst cr > r_max_chunk_seen rx) (compute_missing_chunks ?s)")
      case None
      with False cur eof show ?thesis by (simp add: check_completion_def Let_def)
    next
      case (Some cr)
      with False cur eof expected_packets_some [OF st, of "fst cr"] show ?thesis
        by (auto simp: check_completion_def Let_def)
    qed
  qed
qed

text \<open>Finished below \<open>k\<close>: something is missing until \<open>k\<close> is the number of chunks. Without faults the
  writes of a chunk succeed.\<close>

lemma missing_when_finished_below:
  assumes t: "transfer_of recv_dir m s" and k: "k \<le> unat (m_total_chunks m)"
    and fin: "\<And>cj. cj < m_total_chunks m \<Longrightarrow> chunk_finished s cj \<longleftrightarrow> unat cj < k"
  shows "compute_missing_chunks s = [] \<longleftrightarrow> k = unat (m_total_chunks m)"
proof
  assume "k = unat (m_total_chunks m)"
  then show "compute_missing_chunks s = []"
    using fin by (simp add: missing_iff_finished [OF t] word_less_nat_alt)
next
  assume none: "compute_missing_chunks s = []"
  show "k = unat (m_total_chunks m)"
  proof (rule ccontr)
    assume "k \<noteq> unat (m_total_chunks m)"
    with k have lt: "k < unat (m_total_chunks m)" by simp
    then have "k < 4294967296" using unat32_less by (rule less_trans)
    then have u: "unat (of_nat k :: u32) = k" by (simp only: unat_of_nat) simp
    with lt fin [of "of_nat k"] none show False
      by (simp only: missing_iff_finished [OF t] word_less_nat_alt) simp
  qed
qed

lemma calm_chunk_write:
  assumes desc: "describes m file" and t: "transfer_of recv_dir m s" and ci: "ci < m_total_chunks m"
    and calm: "calm w"
  obtains w1 w2 where "open_output p (m_file_size m) w = Inr w1"
    "write_chunk p (chunk_file_offset s ci) (chunk_of m file ci) w1 = Inr w2"
proof -
  have "m_file_size m > 0"
    using desc describesD(4) [OF desc] by (auto simp: describes_def word_less_nat_alt)
  then have "\<exists>w1. open_output p (m_file_size m) w = Inr w1 \<and> calm w1"
    using calm by (cases "w_files w p") (simp_all add: open_output_def Let_def calm_def)
  then obtain w1 where w1: "open_output p (m_file_size m) w = Inr w1" "calm w1" by blast
  have "unat (chunk_file_offset s ci) < 2 ^ 63"
    using unat_chunk_file_offset [OF t, of ci] describesD(3) [OF desc, of ci] ci desc
    by (simp add: describes_def)
  then have "seekable (chunk_file_offset s ci)" by (rule seekable_small)
  with w1(2) obtain w2 where "write_chunk p (chunk_file_offset s ci) (chunk_of m file ci) w1 = Inr w2"
    by (auto simp: write_chunk_def calm_def)
  with w1(1) show ?thesis by (rule that)
qed

lemma flush_chunk_calm:
  assumes dirs: "dirs_ok dir recv_dir" and desc: "describes m file"
    and sum: "crc32_file zcrc (Some file) = m_checksum m"
    and base: "rx_base dir recv_dir rx" and act: "r_transfer_active rx"
    and ci: "ci < m_total_chunks m" and core: "honest_core dir recv_dir m file rx"
    and asm: "pl_assemble (r_packet_list rx) = Some (chunk_of m file ci)"
    and calm: "calm (r_world rx)"
    and fin: "\<forall>cj < m_total_chunks m. chunk_finished (r_state rx) cj \<longleftrightarrow> unat cj < unat ci"
  shows "\<exists>rx'. flush_chunk zcrc ci rx = Inr rx' \<and>
    (if js_eof_received (r_state rx) \<and> Suc (unat ci) = unat (m_total_chunks m) then
       \<not> r_transfer_active rx' \<and> acked m UINT32_MAX (w_log (r_world rx'))
     else shows_progress m file (Suc (unat ci)) {} (js_eof_received (r_state rx)) rx')"
proof -
  let ?s = "r_state rx" and ?w = "r_world rx" and ?p = "dest_of recv_dir m"
  have st: "state_ok recv_dir ?s" and pl: "pl_inv (r_packet_list rx)"
    using rx_baseD [OF base] act by simp_all
  have t: "transfer_of recv_dir m ?s" using core act by (simp add: honest_core_def)
  have dest: "recv_file_path rx = ?p" and size: "js_file_size ?s = m_file_size m"
    using t by (simp_all add: transfer_of_def recv_file_path_def)
  have len: "unat ci < length (js_chunk_done ?s)"
    using chunk_index_small(1) [OF st, of ci] t ci by (simp add: transfer_of_def)
  obtain pl' where pl': "pl_clear (r_packet_list rx) = Some pl'" "pl_inv pl'" "pl_slots pl' = []"
    using pls.clear_ok [OF pl] by blast
  obtain w1 w2 where w1: "open_output ?p (m_file_size m) ?w = Inr w1"
    and w2: "write_chunk ?p (chunk_file_offset ?s ci) (chunk_of m file ci) w1 = Inr w2"
    by (rule calm_chunk_write [OF desc t ci calm])
  define rx2 where "rx2 = chunk_flushed ci w2 pl' rx"
  note rx2 = rx2_def chunk_flushed_def
  have flush: "flush_chunk zcrc ci rx =
      (if js_eof_received ?s then check_completion zcrc rx2 else Inr rx2)"
    unfolding rx2_def using flush_chunk_done [OF asm pl'(1) _ _ len] w1 w2 by (simp add: dest size)
  have fin2: "chunk_finished (r_state rx2) cj \<longleftrightarrow> unat cj < Suc (unat ci)"
    if "cj < m_total_chunks m" for cj
    using fin that chunk_finished_set_done [OF len, of cj]
    by (auto simp: rx2 less_Suc_eq word_unat_eq_iff)
  have ci': "Suc (unat ci) \<le> unat (m_total_chunks m)" using ci by (simp add: word_less_nat_alt)
  have prog: "shows_progress m file (Suc (unat ci)) {} (js_eof_received ?s) rx2"
    if "\<not> (js_eof_received ?s \<and> Suc (unat ci) = unat (m_total_chunks m))"
    using that act fin2 ci' by (simp add: shows_progress_def) (simp add: rx2)
  show ?thesis
  proof (cases "js_eof_received ?s")
    case False
    with flush prog show ?thesis by simp
  next
    case True
    have core2: "honest_core dir recv_dir m file rx2" and calm2: "calm (r_world rx2)"
      using flush_chunk_core [OF dirs desc base act ci core pl'(3) w1 w2] calm
      by (auto simp: rx2_def dest: good_run_calm)
    have st2: "state_ok recv_dir (r_state rx2)" using st by (simp add: rx2)
    have t2: "transfer_of recv_dir m (r_state rx2)" using t by (simp add: rx2)
    have facts2: "r_transfer_active rx2" "r_current_chunk_index rx2 = UINT32_MAX"
      "js_eof_received (r_state rx2)"
      using act True by (simp_all add: rx2)
    note all = missing_when_finished_below [OF t2 ci' fin2]
    from check_completion_idle [OF desc sum core2 facts2(1) st2 calm2 facts2(2,3)] obtain rx' where
      rx': "check_completion zcrc rx2 = Inr rx'"
        "if compute_missing_chunks (r_state rx2) = [] then
           \<not> r_transfer_active rx' \<and> acked m UINT32_MAX (w_log (r_world rx'))
         else rx' = rx2 \<or> (\<exists>pdu. rx' = transport_send pdu rx2)" by blast
    have "shows_progress m file k S e (transport_send pdu rx2) = shows_progress m file k S e rx2" for k S e pdu
      by (simp add: shows_progress_def)
    with rx' all prog True flush show ?thesis by (auto split: if_splits)
  qed
qed

text \<open>A packet goes into the open chunk.\<close>

lemma good_slots_complete:
  assumes "pl_inv pl" and "length (pl_slots pl) = n" and "0 < n"
  shows "pl_is_complete pl \<longleftrightarrow> {i. i < length (pl_slots pl) \<and> is_good (pl_slots pl ! i)} = {..<n}"
proof -
  have "pl_slots pl \<noteq> []" using assms(2,3) by (metis list.size(3) less_irrefl)
  then have "pl_is_complete pl \<longleftrightarrow> (\<forall>i < n. is_good (pl_slots pl ! i))"
    by (simp only: pls.complete_iff [OF assms(1)] all_set_conv_all_nth assms(2)) simp
  then show ?thesis unfolding assms(2) by auto
qed

lemma store_packet_calm:
  assumes dirs: "dirs_ok dir recv_dir" and desc: "describes m file"
    and sum: "crc32_file zcrc (Some file) = m_checksum m"
    and base: "rx_base dir recv_dir rx" and opn: "chunk_open rx"
    and cur: "r_current_chunk_index rx = ci" and ci: "ci < m_total_chunks m"
    and i: "i < packets_in m file ci"
    and core: "honest_core dir recv_dir m file rx" and calm: "calm (r_world rx)"
    and prog: "shows_progress m file (unat ci) S e rx"
    and d: "crc8 d = c \<longrightarrow> d = packet_of m file ci i"
  defines "S' \<equiv> if crc8 d = c then insert i S else S - {i}"
  shows "\<exists>rx'. store_packet zcrc (packet_pdu m file ci i d c) rx = Inr rx' \<and>
    (if S' = {..<packets_in m file ci} then
       if e \<and> Suc (unat ci) = unat (m_total_chunks m) then
         \<not> r_transfer_active rx' \<and> acked m UINT32_MAX (w_log (r_world rx'))
       else shows_progress m file (Suc (unat ci)) {} e rx'
     else shows_progress m file (unat ci) S' e rx')"
proof -
  let ?n = "packets_in m file ci" and ?pl = "r_packet_list rx"
  have pl: "pl_inv ?pl" using base by (rule rx_baseD)
  have act: "r_transfer_active rx" using opn by (simp add: chunk_open_def)
  have t: "transfer_of recv_dir m (r_state rx)" and gs: "genuine_slots m file ci (pl_slots ?pl)"
    using core act cur by (simp_all add: honest_core_def)
  have nmax: "ci \<noteq> UINT32_MAX"
    using chunk_index_small(2) rx_baseD(4) [OF base act] t ci by (simp add: transfer_of_def)
  have len: "length (pl_slots ?pl) = ?n"
    using opn expected_packets_genuine [OF t desc ci] cur by (auto simp: chunk_open_def)
  have S: "S = {i. i < length (pl_slots ?pl) \<and> is_good (pl_slots ?pl ! i)}"
    and e: "js_eof_received (r_state rx) = e"
    and fin: "\<forall>cj < m_total_chunks m. chunk_finished (r_state rx) cj \<longleftrightarrow> unat cj < unat ci"
    using prog cur nmax by (simp_all add: shows_progress_def)
  have ui: "unat (of_nat i :: u32) = i" by (rule packet_index [OF desc i])
  obtain b pl' where put: "pl_insert (of_nat i) d (crc8 d = c) ?pl = Some (b, pl')" "pl_inv pl'"
      "pl_slots pl' = (pl_slots ?pl)[i := (if crc8 d = c then Good d else Corrupt d)]"
    using pls.put_total [OF pl, of "of_nat i" d "crc8 d = c"] by (auto simp only: ui)
  have len': "length (pl_slots pl') = ?n" using put(3) len by (simp only: length_list_update)
  have S': "S' = {i. i < length (pl_slots pl') \<and> is_good (pl_slots pl' ! i)}"
    unfolding S'_def S put(3) using i len by (auto simp: nth_list_update split: if_splits simp del: length_pl_slots)
  have gs': "genuine_slots m file ci (pl_slots pl')"
    unfolding put(3) by (rule genuine_slots_insert [OF gs]) (use d in simp)
  let ?rx = "rx\<lparr>r_packet_list := pl'\<rparr>"
  have core': "honest_core dir recv_dir m file ?rx" using core gs' cur by (simp add: honest_core_def)
  have base': "rx_base dir recv_dir ?rx" using base put by (simp add: rx_base_def)
  have complete: "pl_is_complete pl' \<longleftrightarrow> S' = {..<?n}"
    unfolding S' using i by (intro good_slots_complete [OF put(2) len']) simp
  show ?thesis
  proof (cases "S' = {..<?n}")
    case True
    then have c: "pl_is_complete pl'" using complete by simp
    have asm: "pl_assemble (r_packet_list ?rx) = Some (chunk_of m file ci)"
      using assemble_genuine [OF desc put(2) c len' gs'] by simp
    from flush_chunk_calm [OF dirs desc sum base' _ ci core' asm] act calm fin e True put(1) c
    show ?thesis by (simp add: store_packet_def packet_pdu_def cong: if_cong)
  next
    case False
    have "shows_progress m file (unat ci) S' e ?rx"
      using prog S' cur nmax unfolding shows_progress_def by simp
    with False put(1) complete show ?thesis by (simp add: store_packet_def packet_pdu_def)
  qed
qed

lemma data_for_item:
  assumes desc: "describes m file" and act: "r_transfer_active rx"
    and t: "transfer_of recv_dir m (r_state rx)"
    and ci: "ci < m_total_chunks m" and i: "i < packets_in m file ci"
    and len: "length d = length (packet_of m file ci i)"
  shows "data_for (packet_pdu m file ci i d c) rx"
proof -
  have "length d \<le> 4096" "d \<noteq> []"
    using length_packet_of [OF desc, of ci i] packet_of_nonempty [OF desc i] len by auto
  then have u: "unat (of_nat (length d) :: u32) = length d" "length d \<noteq> 0" by (simp_all add: unat_of_nat)
  then have "(of_nat (length d) :: u32) \<noteq> 0" by (metis unat_0)
  moreover have "(of_nat (length d) :: u32) \<le> DEFAULT_PACKET_SIZE"
    using \<open>length d \<le> 4096\<close> u by (simp only: word_le_nat_alt DEFAULT_PACKET_SIZE_def) simp
  ultimately have "(of_nat (length d) :: u32) \<noteq> 0" "(of_nat (length d) :: u32) \<le> DEFAULT_PACKET_SIZE"
    by simp_all
  then show ?thesis
    using assms expected_packets_genuine(1) [OF t desc ci]
    by (simp add: data_for_def packet_pdu_def transfer_of_def)
qed

lemma shows_progress_cong:
  "r_transfer_active rx' = r_transfer_active rx \<Longrightarrow> r_state rx' = r_state rx \<Longrightarrow>
     r_current_chunk_index rx' = r_current_chunk_index rx \<Longrightarrow> r_packet_list rx' = r_packet_list rx \<Longrightarrow>
     shows_progress m file k S e rx' = shows_progress m file k S e rx"
  by (simp add: shows_progress_def)

text \<open>The first packet of a chunk opens it.\<close>

lemma switch_chunk_calm:
  assumes inv: "rx_inv dir recv_dir rx" and core: "honest_core dir recv_dir m file rx"
    and calm: "calm (r_world rx)" and prog: "shows_progress m file (unat ci) S e rx"
    and none: "S = {}" "r_current_chunk_index rx = UINT32_MAX" and ci: "ci < m_total_chunks m" "ci \<noteq> UINT32_MAX"
    and exp: "expected_packets (r_state rx) ci = Some n"
  obtains rx' where "switch_chunk ci n rx = Inr rx'" "rx_base dir recv_dir rx'" "chunk_open rx'"
    "r_current_chunk_index rx' = ci" "honest_core dir recv_dir m file rx'" "calm (r_world rx')"
    "shows_progress m file (unat ci) S e rx'"
proof -
  have act: "r_transfer_active rx" using prog by (simp add: shows_progress_def)
  have t: "transfer_of recv_dir m (r_state rx)" using core act by (simp add: honest_core_def)
  have small: "unat ci < length (js_chunk_done (r_state rx))"
    using chunk_index_small [OF rx_inv_active [OF inv act]] t ci by (simp_all add: transfer_of_def)
  have nd: "\<not> js_chunk_done (r_state rx) ! unat ci"
    using prog ci(1) small by (auto simp: shows_progress_def chunk_finished_def)
  from switch_chunk_ok [OF inv act exp small nd] obtain rx' where
    rx': "switch_chunk ci n rx = Inr rx'" "rx_base dir recv_dir rx'" "chunk_open rx'"
      "r_current_chunk_index rx' = ci" "pl_slots (r_packet_list rx') = replicate (unat n) Missing" by auto
  have same: "r_state rx' = r_state rx" "r_transfer_active rx'"
    using effects_switch_chunk [of dir recv_dir rx ci n] rx'(1,3) by (simp_all add: chunk_open_def)
  have "pl_inv (r_packet_list rx)" using inv by (simp add: rx_inv_def rx_base_def)
  from switch_chunk_honest [OF core this rx'(1)]
  have out: "honest_outcome dir recv_dir m file (r_world rx) (Inr rx')" .
  then have core': "honest_core dir recv_dir m file rx'" by (simp add: honest_outcome_def)
  have calm': "calm (r_world rx')" using honest_outcome_calm [OF out] calm by simp
  have "{i. i < length (pl_slots (r_packet_list rx')) \<and> is_good (pl_slots (r_packet_list rx') ! i)} = {}"
    unfolding rx'(5) by auto
  then have "shows_progress m file (unat ci) S e rx'"
    using prog same act rx'(4) ci(2) none unfolding shows_progress_def by simp
  with rx'(1-4) core' calm' show ?thesis by (rule that)
qed

lemma handle_data_calm:
  assumes dirs: "dirs_ok dir recv_dir" and desc: "describes m file"
    and sum: "crc32_file zcrc (Some file) = m_checksum m"
    and hon: "honest_rx dir recv_dir m file rx" and calm: "calm (r_world rx)"
    and prog: "shows_progress m file k S e rx"
    and ci: "ci < m_total_chunks m" "unat ci \<le> k" and i: "i < packets_in m file ci"
    and len: "length d = length (packet_of m file ci i)"
    and d: "crc8 d = c \<longrightarrow> d = packet_of m file ci i"
  defines "S' \<equiv> if crc8 d = c then insert i S else S - {i}"
  shows "\<exists>rx'. handle_data zcrc (packet_pdu m file ci i d c) rx = Inr rx' \<and>
    (if unat ci < k then shows_progress m file k S e rx'
     else if S' = {..<packets_in m file ci} then
       if e \<and> Suc k = unat (m_total_chunks m) then
         \<not> r_transfer_active rx' \<and> acked m UINT32_MAX (w_log (r_world rx'))
       else shows_progress m file (Suc k) {} e rx'
     else shows_progress m file k S' e rx')"
proof -
  let ?d = "packet_pdu m file ci i d c" and ?rx = "note_seen ci rx"
  have inv: "rx_inv dir recv_dir rx" and core: "honest_core dir recv_dir m file rx"
    using hon by (simp_all add: honest_rx_def)
  have act: "r_transfer_active rx" using prog by (simp add: shows_progress_def)
  have t: "transfer_of recv_dir m (r_state rx)" using core act by (simp add: honest_core_def)
  have st: "state_ok recv_dir (r_state rx)" by (rule rx_inv_active [OF inv act])
  have nmax: "ci \<noteq> UINT32_MAX" and small: "unat ci < length (js_chunk_done (r_state rx))"
    using chunk_index_small [OF st] t ci by (simp_all add: transfer_of_def)
  have df: "data_for ?d rx" by (rule data_for_item [OF desc act t ci(1) i len])
  have dci: "d_chunk_index ?d = ci" by (simp add: packet_pdu_def)
  have fin: "chunk_finished (r_state rx) ci \<longleftrightarrow> unat ci < k"
    using prog ci(1) by (simp add: shows_progress_def)
  have prog1: "shows_progress m file k S e ?rx"
    using prog by (subst shows_progress_cong [of ?rx rx]) simp_all
  show ?thesis
  proof (cases rule: handle_data_elim [of ?d rx zcrc])
    case dropped
    with df show ?thesis by simp
  next
    case divide
    with df show ?thesis by (simp add: data_for_def)
  next
    case known
    have "shows_progress m file k S e (send_ack ci ?rx)"
      using prog1 by (subst shows_progress_cong [of _ ?rx]) simp_all
    with prog1 known(3) fin known(2) show ?thesis by (simp add: dci)
  next
    case same
    then have k: "unat ci = k" using fin ci(2) by (simp add: dci)
    have "chunk_open rx" using inv same(3) nmax by (auto simp: rx_inv_def dci split: if_splits)
    then have "chunk_open ?rx" by (simp add: chunk_open_def)
    moreover have "rx_base dir recv_dir ?rx" using inv by (simp add: rx_inv_def rx_base_def)
    ultimately have "\<exists>rx'. store_packet zcrc ?d ?rx = Inr rx' \<and>
      (if S' = {..<packets_in m file ci} then
         if e \<and> Suc (unat ci) = unat (m_total_chunks m) then
           \<not> r_transfer_active rx' \<and> acked m UINT32_MAX (w_log (r_world rx'))
         else shows_progress m file (Suc (unat ci)) {} e rx'
       else shows_progress m file (unat ci) S' e rx')"
      unfolding S'_def using same(3) core calm prog1 k
      by (intro store_packet_calm [OF dirs desc sum _ _ _ ci(1) i _ _ _ d]) (simp_all add: dci)
    with same(4) k show ?thesis by (simp add: dci cong: if_cong)
  next
    case switched
    then have k: "unat ci = k" using fin ci(2) by (simp add: dci)
    have S: "S = {}" "r_current_chunk_index rx = UINT32_MAX"
      using prog switched(3) k by (auto simp: shows_progress_def dci word_unat_eq_iff split: if_splits)
    have start: "rx_inv dir recv_dir ?rx" "honest_core dir recv_dir m file ?rx" "calm (r_world ?rx)"
      "shows_progress m file (unat ci) S e ?rx" "r_current_chunk_index ?rx = UINT32_MAX"
      "expected_packets (r_state ?rx) ci = Some (d_total_packets ?d)"
      using inv core calm prog1 S(2) k df by (simp_all add: data_for_def packet_pdu_def)
    obtain rx' where rx': "switch_chunk ci (d_total_packets ?d) ?rx = Inr rx'" "rx_base dir recv_dir rx'"
        "chunk_open rx'" "r_current_chunk_index rx' = ci" "honest_core dir recv_dir m file rx'"
        "calm (r_world rx')" "shows_progress m file (unat ci) S e rx'"
      by (rule switch_chunk_calm [OF start(1-4) S(1) start(5) ci(1) nmax start(6)])
    from store_packet_calm [OF dirs desc sum rx'(2,3,4) ci(1) i rx'(5-7) d] switched(4) rx'(1) k
    show ?thesis by (simp add: dci S'_def cong: if_cong)
  qed
qed

section \<open>Simulation of items and of item lists\<close>

text \<open>A concrete system that follows an abstract one, input by input.\<close>

locale simulation =
  fixes rel :: "'a \<Rightarrow> 'c \<Rightarrow> bool" and ok :: "'a \<Rightarrow> 'i \<Rightarrow> bool"
    and astep :: "'a \<Rightarrow> 'i \<Rightarrow> 'a" and cstep :: "'i \<Rightarrow> 'c \<Rightarrow> 'c option"
  assumes follows: "rel a c \<Longrightarrow> ok a i \<Longrightarrow> \<exists>c'. cstep i c = Some c' \<and> rel (astep a i) c'"
begin

fun oks :: "'a \<Rightarrow> 'i list \<Rightarrow> bool" where
  "oks a [] = True"
| "oks a (i # is) \<longleftrightarrow> ok a i \<and> oks (astep a i) is"

fun csteps :: "'i list \<Rightarrow> 'c \<Rightarrow> 'c option" where
  "csteps [] c = Some c"
| "csteps (i # is) c = (case cstep i c of None \<Rightarrow> None | Some c' \<Rightarrow> csteps is c')"

lemma follows_all: "rel a c \<Longrightarrow> oks a is \<Longrightarrow> \<exists>c'. csteps is c = Some c' \<and> rel (foldl astep a is) c'"
proof (induction "is" arbitrary: a c)
  case Nil
  then show ?case by simp
next
  case (Cons i "is")
  then obtain c1 where "cstep i c = Some c1" "rel (astep a i) c1" using follows by fastforce
  with Cons show ?case by simp
qed

end

fun items_ok :: "MetadataPdu \<Rightarrow> bytes \<Rightarrow> progress \<Rightarrow> item list \<Rightarrow> bool" where
  "items_ok m file p [] = True"
| "items_ok m file p (it # its) \<longleftrightarrow> item_ok m file p it \<and> items_ok m file (progress_step m file p it) its"

fun deliver :: "zlib_crc32 \<Rightarrow> bytes list \<Rightarrow> CfdpReceiver \<Rightarrow> outcome" where
  "deliver zcrc [] rx = Inr rx"
| "deliver zcrc (raw # raws) rx =
     (case on_pdu_received zcrc raw rx of Inl e \<Rightarrow> Inl e | Inr rx' \<Rightarrow> deliver zcrc raws rx')"

lemma on_pdu_received_data:
  assumes "raw = pdu_code Data # payload" and "parse_data payload = Some d"
  shows "on_pdu_received zcrc raw rx = handle_data zcrc d rx"
  using assms by (simp add: on_pdu_received_def pdu_type_of_Some [THEN iffD2, OF refl])

lemma on_pdu_received_eof:
  "on_pdu_received zcrc (eof_pdu e) rx = handle_eof zcrc e rx"
  using parse_eof_image [of e "[]"]
  by (simp add: on_pdu_received_def eof_pdu_def pdu_type_of_Some [THEN iffD2, OF refl])

lemma on_pdu_received_metadata:
  assumes "metadata_fits m"
  shows "on_pdu_received zcrc (metadata_pdu m) rx = handle_metadata m rx"
  using parse_metadata_image [OF assms, of "[]"]
  by (simp add: on_pdu_received_def metadata_pdu_def pdu_type_of_Some [THEN iffD2, OF refl])

lemma handle_eof_calm:
  assumes dirs: "dirs_ok dir recv_dir" and desc: "describes m file"
    and sum: "crc32_file zcrc (Some file) = m_checksum m"
    and hon: "honest_rx dir recv_dir m file rx" and calm: "calm (r_world rx)"
    and prog: "shows_progress m file k S e rx"
    and eof: "e_transaction_id eof = m_transaction_id m"
  shows "\<exists>rx'. handle_eof zcrc eof rx = Inr rx' \<and>
    (if k = unat (m_total_chunks m) then
       \<not> r_transfer_active rx' \<and> acked m UINT32_MAX (w_log (r_world rx'))
     else shows_progress m file k S True rx')"
proof -
  have inv: "rx_inv dir recv_dir rx" and core: "honest_core dir recv_dir m file rx"
    using hon by (simp_all add: honest_rx_def)
  have act: "r_transfer_active rx" using prog by (simp add: shows_progress_def)
  have t: "transfer_of recv_dir m (r_state rx)" using core act by (simp add: honest_core_def)
  have j: "r_journal rx = journal_new dir" and pl: "pl_inv (r_packet_list rx)"
    using inv by (simp_all add: rx_inv_def rx_base_def)
  have st: "state_ok recv_dir (r_state rx)" by (rule rx_inv_active [OF inv act])
  define rx1 where "rx1 = (if \<not> js_eof_received (r_state rx) then
             in_world (\<lambda>w. snd (mark_eof_received (r_journal rx) w))
               (rx\<lparr>r_state := set_eof (r_state rx)\<rparr>)
           else rx)"
  have run: "handle_eof zcrc eof rx = check_completion zcrc rx1"
    using act t eof by (simp add: handle_eof_def rx1_def Let_def transfer_of_def)
  from handle_eof_core [OF dirs desc hon rx1_def]
  have core1: "honest_core dir recv_dir m file rx1" and calm1: "calm (r_world rx1)"
    using calm by (auto dest: good_run_calm)
  have fields: "r_transfer_active rx1" "r_current_chunk_index rx1 = r_current_chunk_index rx"
    "r_packet_list rx1 = r_packet_list rx" "js_eof_received (r_state rx1)"
    "state_ok recv_dir (r_state rx1)" "transfer_of recv_dir m (r_state rx1)"
    "chunk_finished (r_state rx1) ci = chunk_finished (r_state rx) ci" for ci
    using act st t by (simp_all add: rx1_def chunk_finished_def)
  have prog1: "shows_progress m file k S True rx1" if "k \<noteq> unat (m_total_chunks m)"
    using prog that fields by (simp add: shows_progress_def)
  have sent: "shows_progress m file k S True (transport_send pdu rx1) = shows_progress m file k S True rx1" for pdu
    by (rule shows_progress_cong) simp_all
  have fin: "chunk_finished (r_state rx1) ci \<longleftrightarrow> unat ci < k" if "ci < m_total_chunks m" for ci
    using prog that fields(7) by (simp add: shows_progress_def)
  show ?thesis
  proof (cases "r_current_chunk_index rx = UINT32_MAX")
    case True
    have "k \<le> unat (m_total_chunks m)" using prog by (simp add: shows_progress_def)
    note all = missing_when_finished_below [OF fields(6) this fin]
    from check_completion_idle [OF desc sum core1 fields(1,5) calm1 _ fields(4)] True fields(2) obtain rx' where
      "check_completion zcrc rx1 = Inr rx'"
      "if compute_missing_chunks (r_state rx1) = [] then
         \<not> r_transfer_active rx' \<and> acked m UINT32_MAX (w_log (r_world rx'))
       else rx' = rx1 \<or> (\<exists>pdu. rx' = transport_send pdu rx1)" by auto
    with all prog1 sent run show ?thesis by (auto split: if_splits)
  next
    case False
    then have k: "k \<noteq> unat (m_total_chunks m)"
      and nc: "\<not> pl_is_complete (r_packet_list rx)"
      using inv prog st t
      by (auto simp: rx_inv_def shows_progress_def chunk_open_def state_ok_def transfer_of_def)
    have "check_completion zcrc rx1 = send_nak_packets (r_current_chunk_index rx) rx1"
      using False nc fields by (simp add: check_completion_def)
    moreover obtain rx' where "send_nak_packets (r_current_chunk_index rx) rx1 = Inr rx'"
      "rx' = rx1 \<or> (\<exists>pdu. rx' = transport_send pdu rx1)"
      using send_nak_packets_run [of rx1 "r_current_chunk_index rx"] pl fields(3) by auto
    ultimately show ?thesis using k prog1 sent run by auto
  qed
qed

text \<open>One item: the receiver does what the abstract receiver does.\<close>

lemma inactive_drops:
  assumes "\<not> r_transfer_active rx"
  shows "handle_data zcrc d rx = Inr rx" and "handle_eof zcrc e rx = Inr rx"
  using assms by (simp_all add: handle_data_def handle_eof_def)

definition receive_item :: "zlib_crc32 \<Rightarrow> MetadataPdu \<Rightarrow> bytes \<Rightarrow> item \<Rightarrow> CfdpReceiver \<Rightarrow> CfdpReceiver option" where
  "receive_item zcrc m file it rx =
     (case on_pdu_received zcrc (item_pdu m file it) rx of Inl e \<Rightarrow> None | Inr rx' \<Rightarrow> Some rx')"

lemma tracks_honest: "tracks dir recv_dir m file p rx \<Longrightarrow> calm (r_world rx) \<and> honest_rx dir recv_dir m file rx"
  by (cases p) simp_all

lemma tracks_finished:
  assumes "describes m file" and "calm (r_world rx)" and "honest_rx dir recv_dir m file rx"
    and "\<not> r_transfer_active rx" and "acked m UINT32_MAX (w_log (r_world rx))"
  shows "tracks dir recv_dir m file Complete rx"
  using assms all_on_disk_file [OF assms(1)]
  by (auto simp: honest_rx_def honest_core_def honest_world_def disk_ok_def dest: promises_keptD(2))

lemma item_on_pdu:
  assumes "describes m file" and "item_ok m file p it"
  shows "on_pdu_received zcrc (item_pdu m file it) rx =
    (case item_data m file it of Some d \<Rightarrow> handle_data zcrc d rx
     | None \<Rightarrow> handle_eof zcrc \<lparr>e_transaction_id = m_transaction_id m, e_checksum = m_checksum m\<rparr> rx)"
proof (cases "item_data m file it")
  case None
  then have "it = EofMark" by (cases it) (auto simp: item_data_def Let_def)
  then show ?thesis by (simp add: item_data_def on_pdu_received_eof)
next
  case (Some d)
  from on_pdu_received_data [OF item_pdu_data [OF assms Some]] Some show ?thesis by simp
qed

lemma item_run:
  assumes dirs: "dirs_ok dir recv_dir" and desc: "describes m file"
    and sum: "crc32_file zcrc (Some file) = m_checksum m"
    and tr: "tracks dir recv_dir m file (Receiving k S e) rx"
    and ok: "item_ok m file (Receiving k S e) it"
  shows "\<exists>rx'. on_pdu_received zcrc (item_pdu m file it) rx = Inr rx' \<and>
    (case progress_step m file (Receiving k S e) it of
       Complete \<Rightarrow> \<not> r_transfer_active rx' \<and> acked m UINT32_MAX (w_log (r_world rx'))
     | Receiving k' S' e' \<Rightarrow> shows_progress m file k' S' e' rx')"
proof -
  have calm: "calm (r_world rx)" and hon: "honest_rx dir recv_dir m file rx"
    and prog: "shows_progress m file k S e rx" using tr by simp_all
  note run = item_on_pdu [OF desc ok, of zcrc rx]
  show ?thesis
  proof (cases it)
    case (Arrives ci i)
    let ?d = "packet_of m file ci i"
    have ok': "ci < m_total_chunks m" "unat ci \<le> k" "i < packets_in m file ci"
      using ok Arrives by simp_all
    from handle_data_calm [OF dirs desc sum hon calm prog ok' refl, of "crc8 ?d"] run Arrives
    show ?thesis by (auto simp: item_data_def Let_def split: if_splits)
  next
    case (Damaged ci i d c)
    have ok': "ci < m_total_chunks m" "unat ci \<le> k" "i < packets_in m file ci"
      "length d = length (packet_of m file ci i)" "crc8 d \<noteq> c"
      using ok Damaged by simp_all
    then have "S - {i} \<noteq> {..<packets_in m file ci}" by auto
    with handle_data_calm [OF dirs desc sum hon calm prog ok'(1-4), of c] run Damaged ok'(5)
    show ?thesis by (auto simp: item_data_def split: if_splits)
  next
    case EofMark
    from handle_eof_calm [OF dirs desc sum hon calm prog, of
        "\<lparr>e_transaction_id = m_transaction_id m, e_checksum = m_checksum m\<rparr>"] run EofMark
    show ?thesis by (auto simp: item_data_def split: if_splits)
  qed
qed

lemma item_step:
  assumes dirs: "dirs_ok dir recv_dir" and desc: "describes m file"
    and sum: "crc32_file zcrc (Some file) = m_checksum m"
    and tr: "tracks dir recv_dir m file p rx" and ok: "item_ok m file p it"
  shows "\<exists>rx'. receive_item zcrc m file it rx = Some rx' \<and>
    tracks dir recv_dir m file (progress_step m file p it) rx'"
proof -
  have calm: "calm (r_world rx)" and hon: "honest_rx dir recv_dir m file rx"
    using tracks_honest [OF tr] by simp_all
  note pdu = on_pdu_received_honest [OF dirs desc hon item_honest [OF desc ok], of zcrc]
  have keep: "calm (r_world rx') \<and> honest_rx dir recv_dir m file rx'"
    if "on_pdu_received zcrc (item_pdu m file it) rx = Inr rx'" for rx'
    using pdu that calm by (auto dest: good_run_calm)
  show ?thesis
  proof (cases p)
    case Complete
    then have "\<not> r_transfer_active rx" using tr by simp
    then have "on_pdu_received zcrc (item_pdu m file it) rx = Inr rx"
      using item_on_pdu [OF desc ok] by (auto simp: inactive_drops split: option.split)
    with tr Complete show ?thesis by (simp add: receive_item_def)
  next
    case (Receiving k S e)
    from item_run [OF dirs desc sum tr [unfolded Receiving] ok [unfolded Receiving]] obtain rx' where
      rx': "on_pdu_received zcrc (item_pdu m file it) rx = Inr rx'"
        "case progress_step m file p it of
           Complete \<Rightarrow> \<not> r_transfer_active rx' \<and> acked m UINT32_MAX (w_log (r_world rx'))
         | Receiving k' S' e' \<Rightarrow> shows_progress m file k' S' e' rx'"
      unfolding Receiving by blast
    have "tracks dir recv_dir m file (progress_step m file p it) rx'"
      using keep [OF rx'(1)] rx'(2) tracks_finished [OF desc]
      by (cases "progress_step m file p it") (simp_all del: tracks.simps(2))
    with rx'(1) show ?thesis by (simp add: receive_item_def)
  qed
qed

text \<open>The relation with what stays fixed during a transfer, so that it is a simulation.\<close>

definition follows_transfer :: "zlib_crc32 \<Rightarrow> path \<Rightarrow> path \<Rightarrow> MetadataPdu \<Rightarrow> bytes \<Rightarrow>
    progress \<Rightarrow> CfdpReceiver \<Rightarrow> bool" where
  "follows_transfer zcrc dir recv_dir m file p rx \<longleftrightarrow>
     dirs_ok dir recv_dir \<and> describes m file \<and> crc32_file zcrc (Some file) = m_checksum m \<and>
     tracks dir recv_dir m file p rx"

interpretation rx_sim: simulation "follows_transfer zcrc dir recv_dir m bs" "item_ok m bs"
    "progress_step m bs" "receive_item zcrc m bs"
  for zcrc dir recv_dir m bs
  by unfold_locales (auto simp: follows_transfer_def dest: item_step)

lemma oks_items [simp]: "simulation.oks (item_ok m file) (progress_step m file) p its = items_ok m file p its"
  by (induction its arbitrary: p) simp_all

lemma csteps_deliver:
  "rx_sim.csteps zcrc m file its rx = Some rx' \<Longrightarrow> deliver zcrc (map (item_pdu m file) its) rx = Inr rx'"
  by (induction its arbitrary: rx) (auto simp: receive_item_def split: option.splits sum.splits)

lemma deliver_tracks:
  assumes "dirs_ok dir recv_dir" and "describes m file"
    and "crc32_file zcrc (Some file) = m_checksum m"
    and "tracks dir recv_dir m file p rx" and "items_ok m file p its"
  shows "\<exists>rx'. deliver zcrc (map (item_pdu m file) its) rx = Inr rx' \<and>
    tracks dir recv_dir m file (foldl (progress_step m file) p its) rx'"
proof -
  have "follows_transfer zcrc dir recv_dir m file p rx" using assms(1-4) by (simp add: follows_transfer_def)
  from rx_sim.follows_all [OF this] assms(5) obtain rx' where
    "rx_sim.csteps zcrc m file its rx = Some rx'"
    "follows_transfer zcrc dir recv_dir m file (foldl (progress_step m file) p its) rx'"
    by auto
  then show ?thesis using csteps_deliver by (auto simp: follows_transfer_def)
qed

section \<open>The start of a transfer\<close>

lemma start_tracks:
  assumes dirs: "dirs_ok dir recv_dir" and desc: "describes m file"
    and hon: "honest_rx dir recv_dir m file rx" and calm: "calm (r_world rx)"
    and idle: "\<not> r_transfer_active rx" and new: "r_last_acked_id rx \<noteq> m_transaction_id m"
  shows "\<exists>rx'. on_pdu_received zcrc (metadata_pdu m) rx = Inr rx' \<and>
    tracks dir recv_dir m file (Receiving 0 {} False) rx'"
proof -
  have fits: "metadata_fits m" and acc: "accepted m" "terminated (m_filename m)"
    using desc by (simp_all add: describes_def)
  have pl: "pl_inv (r_packet_list rx)"
    using hon by (simp add: honest_rx_def rx_inv_def rx_base_def)
  have raw: "honest_pdu m file (metadata_pdu m)"
    using parse_metadata_image [OF fits, of "[]"]
    by (auto simp: honest_pdu_def metadata_pdu_def)
  note pdu = on_pdu_received_honest [OF dirs desc hon raw, of zcrc]
  have run: "on_pdu_received zcrc (metadata_pdu m) rx = Inr (start_transfer m rx)"
    unfolding on_pdu_received_metadata [OF fits] handle_metadata_cases [OF pl]
    using idle new acc by simp
  have "0 < m_total_chunks m" using acc by (simp add: accepted_def)
  then have "shows_progress m file 0 {} False (start_transfer m rx)"
    by (auto simp: shows_progress_def start_transfer_def Let_def metadata_state_def chunk_finished_def
        word_less_nat_alt)
  with pdu run calm show ?thesis by (auto dest: good_run_calm)
qed

section \<open>Retransmission ends a transfer\<close>

text \<open>
  A round for a chunk, as the sender makes it: whatever happened to the packets so far (lost,
  damaged, repeated, in any order, with \<open>Eof\<close>s in between), then every packet of the chunk
  at least once, in any order, and an \<open>Eof\<close>.
\<close>

fun upto_chunk :: "MetadataPdu \<Rightarrow> bytes \<Rightarrow> nat \<Rightarrow> item \<Rightarrow> bool" where
  "upto_chunk m file j EofMark = True"
| "upto_chunk m file j (Arrives ci i) \<longleftrightarrow>
     unat ci \<le> j \<and> ci < m_total_chunks m \<and> i < packets_in m file ci"
| "upto_chunk m file j (Damaged ci i d c) \<longleftrightarrow>
     unat ci \<le> j \<and> ci < m_total_chunks m \<and> i < packets_in m file ci \<and>
     length d = length (packet_of m file ci i) \<and> crc8 d \<noteq> c"

definition pass_of :: "u32 \<Rightarrow> nat list \<Rightarrow> item list" where
  "pass_of ci is = map (Arrives ci) is"

definition round_for :: "MetadataPdu \<Rightarrow> bytes \<Rightarrow> u32 \<Rightarrow> item list \<Rightarrow> bool" where
  "round_for m file ci its \<longleftrightarrow>
     (\<exists>before is. its = before @ pass_of ci is @ [EofMark] \<and>
        list_all (upto_chunk m file (unat ci)) before \<and> set is = {..<packets_in m file ci})"

text \<open>Where a transfer may be while the rounds of chunk \<open>ci\<close> go on.\<close>

definition within :: "MetadataPdu \<Rightarrow> bytes \<Rightarrow> u32 \<Rightarrow> progress \<Rightarrow> bool" where
  "within m file ci p \<longleftrightarrow>
     p = Complete \<or> (\<exists>S e. p = Receiving (unat ci) S e \<and> S \<subset> {..<packets_in m file ci}) \<or>
     (\<exists>e. p = Receiving (Suc (unat ci)) {} e)"

definition beyond :: "u32 \<Rightarrow> progress \<Rightarrow> bool" where
  "beyond ci p \<longleftrightarrow> p = Complete \<or> (\<exists>e. p = Receiving (Suc (unat ci)) {} e)"

lemma beyond_within: "beyond ci p \<Longrightarrow> within m file ci p"
  by (auto simp: beyond_def within_def)

lemma items_ok_append:
  "items_ok m file p (xs @ ys) \<longleftrightarrow>
     items_ok m file p xs \<and> items_ok m file (foldl (progress_step m file) p xs) ys"
  by (induction xs arbitrary: p) auto

lemma beyond_item:
  "beyond ci p \<Longrightarrow> upto_chunk m file (unat ci) it \<Longrightarrow> beyond ci (progress_step m file p it)"
proof -
  assume b: "beyond ci p" and up: "upto_chunk m file (unat ci) it"
  show "beyond ci (progress_step m file p it)"
  proof (cases "p = Complete")
    case False
    then obtain e where p: "p = Receiving (Suc (unat ci)) {} e" using b by (auto simp: beyond_def)
    show ?thesis
    proof (cases it)
      case EofMark
      then show ?thesis
        by (cases "Suc (unat ci) = unat (m_total_chunks m)") (auto simp: p beyond_def)
    qed (use up in \<open>simp_all add: p beyond_def\<close>)
  qed (simp add: beyond_def)
qed

lemma within_item:
  assumes "within m file ci p" and "upto_chunk m file (unat ci) it"
  shows "item_ok m file p it" and "within m file ci (progress_step m file p it)"
proof -
  show "item_ok m file p it"
    using assms by (cases it) (auto simp: within_def split: progress.split)
  consider "p = Complete"
    | S e where "p = Receiving (unat ci) S e" "S \<subset> {..<packets_in m file ci}"
    | e where "p = Receiving (Suc (unat ci)) {} e"
    using assms(1) by (auto simp: within_def)
  then show "within m file ci (progress_step m file p it)"
  proof cases
    case 2
    then show ?thesis
    proof (cases it)
      case (Arrives cj i)
      with 2 assms(2) show ?thesis
        by (cases "cj = ci") (auto simp: within_def word_unat_eq_iff)
    next
      case (Damaged cj i d c)
      with 2 show ?thesis by (auto simp: within_def)
    next
      case EofMark
      with 2 show ?thesis by (auto simp: within_def)
    qed
  next
    case 3
    with beyond_item [OF _ assms(2)] beyond_within show ?thesis by (auto simp: beyond_def)
  qed (simp add: within_def)
qed

lemma within_items:
  assumes "within m file ci p" and "list_all (upto_chunk m file (unat ci)) its"
  shows "items_ok m file p its \<and> within m file ci (foldl (progress_step m file) p its)"
  using assms
proof (induction its arbitrary: p)
  case (Cons it its)
  from Cons.prems(2) have it: "upto_chunk m file (unat ci) it" by simp
  from within_item [OF Cons.prems(1) it] Cons show ?case by simp
qed simp

text \<open>A complete pass gets beyond the chunk.\<close>

lemma pass_progress:
  assumes "within m file ci p" and "ci < m_total_chunks m" and "set is \<subseteq> {..<packets_in m file ci}"
    and "\<forall>S e. p = Receiving (unat ci) S e \<longrightarrow> {..<packets_in m file ci} \<subseteq> S \<union> set is"
  shows "beyond ci (foldl (progress_step m file) p (pass_of ci is))"
  using assms
proof (induction "is" arbitrary: p)
  case Nil
  then show ?case by (auto simp: within_def beyond_def pass_of_def)
next
  case (Cons i "is")
  let ?p = "progress_step m file p (Arrives ci i)"
  have up: "upto_chunk m file (unat ci) (Arrives ci i)" using Cons.prems by simp
  have "within m file ci ?p" by (rule within_item(2) [OF Cons.prems(1) up])
  moreover have "{..<packets_in m file ci} \<subseteq> S \<union> set is" if "?p = Receiving (unat ci) S e" for S e
  proof (cases p)
    case Complete
    with that show ?thesis by simp
  next
    case (Receiving k S' e')
    moreover from Receiving Cons.prems(1) have "unat ci \<le> k" by (auto simp: within_def)
    ultimately have "k = unat ci \<and> S = insert i S'" using that by (simp split: if_split_asm)
    then have "k = unat ci" "S = insert i S'" by simp_all
    moreover have "{..<packets_in m file ci} \<subseteq> S' \<union> set (i # is)"
      using Cons.prems(4) Receiving \<open>k = unat ci\<close> by blast
    ultimately show ?thesis by simp
  qed
  ultimately have "beyond ci (foldl (progress_step m file) ?p (pass_of ci is))"
    using Cons.prems(2,3) by (intro Cons.IH) simp_all
  then show ?case by (simp add: pass_of_def)
qed

lemma pass_upto:
  "ci < m_total_chunks m \<Longrightarrow> set is \<subseteq> {..<packets_in m file ci} \<Longrightarrow>
     list_all (upto_chunk m file (unat ci)) (pass_of ci is)"
  by (auto simp: pass_of_def list_all_iff)

lemma round_progress:
  assumes r: "round_for m file ci its" and p: "within m file ci p" and ci: "ci < m_total_chunks m"
  shows "items_ok m file p its" and "beyond ci (foldl (progress_step m file) p its)"
    and "Suc (unat ci) = unat (m_total_chunks m) \<Longrightarrow> foldl (progress_step m file) p its = Complete"
proof -
  obtain before "is" where its: "its = before @ pass_of ci is @ [EofMark]"
    and b: "list_all (upto_chunk m file (unat ci)) before" and s: "set is = {..<packets_in m file ci}"
    using r by (auto simp: round_for_def)
  have all: "list_all (upto_chunk m file (unat ci)) its"
    using b pass_upto [OF ci] s by (simp add: its)
  show "items_ok m file p its" using within_items [OF p all] by blast
  let ?q = "foldl (progress_step m file) p (before @ pass_of ci is)"
  have q: "beyond ci ?q"
    using within_items [OF p b] s ci by (simp add: pass_progress)
  then have "foldl (progress_step m file) p its = progress_step m file ?q EofMark" by (simp add: its)
  with q show "beyond ci (foldl (progress_step m file) p its)"
    using beyond_item [OF q, where it = EofMark] by simp
  show "foldl (progress_step m file) p its = Complete" if "Suc (unat ci) = unat (m_total_chunks m)"
    using q that by (auto simp: its beyond_def)
qed

text \<open>A session: a round for every chunk.\<close>

definition session_for :: "MetadataPdu \<Rightarrow> bytes \<Rightarrow> item list list \<Rightarrow> bool" where
  "session_for m file rounds \<longleftrightarrow>
     length rounds = unat (m_total_chunks m) \<and>
     (\<forall>j < length rounds. round_for m file (of_nat j) (rounds ! j))"

lemma rounds_progress:
  assumes desc: "describes m file" and s: "session_for m file rounds" and j: "0 < j" "j \<le> length rounds"
  shows "items_ok m file (Receiving 0 {} False) (concat (take j rounds)) \<and>
    (\<forall>p. p = foldl (progress_step m file) (Receiving 0 {} False) (concat (take j rounds)) \<longrightarrow>
       beyond (of_nat (j - 1)) p \<and> (j = length rounds \<longrightarrow> p = Complete))"
  using j
proof (induction j)
  case 0
  then show ?case by simp
next
  case (Suc j)
  let ?ci = "of_nat j :: u32"
  have n: "length rounds = unat (m_total_chunks m)" using s by (simp add: session_for_def)
  have "j < unat (m_total_chunks m)" using Suc.prems(2) n by simp
  then have "j < 4294967296" using unat32_less by (rule less_trans)
  then have u: "unat ?ci = j" by (simp add: unat_of_nat)
  have ci: "?ci < m_total_chunks m" using Suc.prems(2) n by (simp add: word_less_nat_alt u)
  have r: "round_for m file ?ci (rounds ! j)" using s Suc.prems(2) by (simp add: session_for_def)
  let ?p = "foldl (progress_step m file) (Receiving 0 {} False) (concat (take j rounds))"
  have ok: "items_ok m file (Receiving 0 {} False) (concat (take j rounds))" and w: "within m file ?ci ?p"
  proof -
    show "items_ok m file (Receiving 0 {} False) (concat (take j rounds))"
      using Suc by (cases "j = 0") simp_all
    show "within m file ?ci ?p"
    proof (cases "j = 0")
      case True
      with packets_in_pos [OF desc ci] show ?thesis by (auto simp: within_def u)
    next
      case False
      have "unat (of_nat (j - 1) :: u32) = j - 1" using \<open>j < 4294967296\<close> by (simp add: unat_of_nat)
      with Suc False have "?p = Complete \<or> (\<exists>e. ?p = Receiving j {} e)" by (simp add: beyond_def)
      with packets_in_pos [OF desc ci] show ?thesis by (auto simp: within_def u)
    qed
  qed
  from round_progress [OF r w ci] ok u n Suc.prems(2) show ?case
    by (simp add: take_Suc_conv_app_nth items_ok_append)
qed

lemma session_completes:
  assumes desc: "describes m file" and s: "session_for m file rounds"
  shows "items_ok m file (Receiving 0 {} False) (concat rounds)"
    and "foldl (progress_step m file) (Receiving 0 {} False) (concat rounds) = Complete"
proof -
  have "0 < length rounds"
    using s desc by (simp add: session_for_def describes_def accepted_def word_less_nat_alt)
  from rounds_progress [OF desc s this] show
    "items_ok m file (Receiving 0 {} False) (concat rounds)"
    "foldl (progress_step m file) (Receiving 0 {} False) (concat rounds) = Complete"
    by simp_all
qed

section \<open>From a new process to the file on disk\<close>

lemma deliver_append:
  "deliver zcrc (xs @ ys) rx = (case deliver zcrc xs rx of Inl e \<Rightarrow> Inl e | Inr rx' \<Rightarrow> deliver zcrc ys rx')"
  by (induction xs arbitrary: rx) (auto split: sum.split)

lemma deliver_session:
  assumes dirs: "dirs_ok dir recv_dir" and desc: "describes m file"
    and sum: "crc32_file zcrc (Some file) = m_checksum m"
    and hon: "honest_rx dir recv_dir m file rx" and calm: "calm (r_world rx)"
    and idle: "\<not> r_transfer_active rx" "r_last_acked_id rx \<noteq> m_transaction_id m"
    and s: "session_for m file rounds"
  shows "\<exists>rx'. deliver zcrc (metadata_pdu m # map (item_pdu m file) (concat rounds)) rx = Inr rx' \<and>
    tracks dir recv_dir m file Complete rx'"
proof -
  from start_tracks [OF dirs desc hon calm idle, of zcrc] obtain rx1 where
    rx1: "on_pdu_received zcrc (metadata_pdu m) rx = Inr rx1"
      "tracks dir recv_dir m file (Receiving 0 {} False) rx1" by blast
  from deliver_tracks [OF dirs desc sum rx1(2) session_completes(1) [OF desc s]] rx1(1)
  show ?thesis by (simp add: session_completes(2) [OF desc s])
qed

lemma new_process_honest:
  assumes dirs: "dirs_ok dir recv_dir" and desc: "describes m file"
    and w: "w_log w = []" "w_files w (j_state_path (journal_new dir)) = None"
      "not_longer recv_dir m file (w_files w)"
    and arr: "arrays_ok memory"
  shows "on_boot zcrc (receiver_new dir recv_dir memory w) = Inr (receiver_new dir recv_dir memory w)"
    and "honest_rx dir recv_dir m file (receiver_new dir recv_dir memory w)"
proof -
  have hw: "honest_world dir recv_dir m file (w_log w) (w_files w)"
    using w by (simp add: honest_world_def disk_ok_def stored_in_def)
  show boot: "on_boot zcrc (receiver_new dir recv_dir memory w) = Inr (receiver_new dir recv_dir memory w)" for zcrc
    using w(2) by (simp add: on_boot_def receiver_new_def journal_exists_def)
  from boot_honest [OF dirs desc hw arr] boot
  show "honest_rx dir recv_dir m file (receiver_new dir recv_dir memory w)" by auto
qed

text \<open>Delivered PDUs are steps of the machine.\<close>

lemma deliver_steps:
  "deliver zcrc raws rx = Inr rx' \<Longrightarrow> set raws \<subseteq> traffic \<Longrightarrow>
     (step zcrc dir recv_dir traffic)\<^sup>*\<^sup>* (Running rx) (Running rx')"
proof (induction raws arbitrary: rx)
  case (Cons raw raws)
  then obtain rx1 where "on_pdu_received zcrc raw rx = Inr rx1" "deliver zcrc raws rx1 = Inr rx'"
    by (auto split: sum.splits)
  moreover from this(1) Cons.prems(2) have "step zcrc dir recv_dir traffic (Running rx) (Running rx1)"
    by (auto intro: step.handled)
  ultimately show ?case using Cons.IH Cons.prems(2) by (auto intro: converse_rtranclp_into_rtranclp)
qed simp

lemma items_honest:
  assumes "describes m file"
  shows "items_ok m file p its \<Longrightarrow> set (map (item_pdu m file) its) \<subseteq> Collect (honest_pdu m file)"
  by (induction its arbitrary: p) (auto simp: item_honest [OF assms])

lemma metadata_honest: "metadata_fits m \<Longrightarrow> honest_pdu m file (metadata_pdu m)"
  using parse_metadata_image [of m "[]"] by (auto simp: honest_pdu_def metadata_pdu_def)

end
