(* ===== verification/Cfdp_Example.thy ===== *)
theory Cfdp_Example
  imports Cfdp_Delivery
begin

text \<open>
  One concrete transfer, at which the theorems are applied: a file of three bytes in two
  chunks of two and one packets, with a damaged packet, a lost packet and two \<open>Eof\<close>s on the
  way.
\<close>

definition ex_file :: bytes where "ex_file = [104, 105, 33]"

definition ex_zcrc :: zlib_crc32 where "ex_zcrc = ieee_crc32"

definition ex_meta :: MetadataPdu where
  "ex_meta = \<lparr>m_transaction_id = 7, m_file_size = 3, m_chunk_size = 2, m_packet_size = 1,
     m_total_chunks = 2, m_checksum = crc32_file ex_zcrc (Some ex_file),
     m_filename = ascii ''hi'' @ replicate 254 0\<rparr>"

definition ex_dir :: path where "ex_dir = ascii ''s''"
definition ex_recv_dir :: path where "ex_recv_dir = ascii ''r''"

definition ex_world :: World where
  "ex_world = \<lparr>w_files = Map.empty, w_faults = no_faults, w_log = []\<rparr>"

definition ex_receiver :: CfdpReceiver where
  "ex_receiver = receiver_new ex_dir ex_recv_dir unset_state ex_world"

definition ex_rounds :: "item list list" where
  "ex_rounds =
     [[Arrives 0 0, Damaged 0 1 [0] 1, EofMark, Arrives 0 1, Arrives 0 0, EofMark],
      [Arrives 0 0, Arrives 1 0, EofMark]]"

definition ex_pdus :: "bytes list" where
  "ex_pdus = metadata_pdu ex_meta # map (item_pdu ex_meta ex_file) (concat ex_rounds)"

lemma ex_dirs_ok: "dirs_ok ex_dir ex_recv_dir"
  by (simp add: dirs_ok_def ex_dir_def ex_recv_dir_def)

lemma ex_cstr: "cstr (m_filename ex_meta) = ascii ''hi''"
  by (simp add: ex_meta_def cstr_def)

lemma ex_terminated: "terminated (m_filename ex_meta)"
  by (simp add: ex_meta_def terminated_def)

lemma ex_describes: "describes ex_meta ex_file"
proof -
  have "accepted ex_meta"
    unfolding accepted_def ex_cstr
    by (simp add: ex_meta_def safe_filename_def DEFAULT_PACKET_SIZE_def)
  then show ?thesis
    unfolding describes_def using ex_terminated ex_cstr
    by (simp add: ex_meta_def ex_file_def metadata_fits_def pieces_def)
qed

lemma ex_checksum: "crc32_file ex_zcrc (Some ex_file) = m_checksum ex_meta"
  by (simp add: ex_meta_def)

lemma ex_packets:
  "chunk_of ex_meta ex_file 0 = [104, 105]" "chunk_of ex_meta ex_file 1 = [33]"
  "packets_in ex_meta ex_file 0 = 2" "packets_in ex_meta ex_file 1 = 1"
  by (simp_all add: chunk_of_def packets_in_def ex_meta_def ex_file_def piece_def pieces_def)

lemma ex_sizes: "m_packet_size ex_meta = 1" "m_total_chunks ex_meta = 2"
  by (simp_all add: ex_meta_def)

lemma ex_crc8: "crc8 [0] = 0"
  by code_simp

lemma ex_session: "session_for ex_meta ex_file ex_rounds"
proof -
  have "round_for ex_meta ex_file 0 (ex_rounds ! 0)"
    unfolding round_for_def
    by (rule exI [of _ "[Arrives 0 0, Damaged 0 1 [0] 1, EofMark]"], rule exI [of _ "[1, 0]"])
      (auto simp: ex_rounds_def pass_of_def ex_packets packet_of_def piece_def ex_crc8 ex_sizes)
  moreover have "round_for ex_meta ex_file 1 (ex_rounds ! 1)"
    unfolding round_for_def
    by (rule exI [of _ "[Arrives 0 0]"], rule exI [of _ "[0]"])
      (auto simp: ex_rounds_def pass_of_def ex_packets ex_sizes)
  ultimately have "round_for ex_meta ex_file (of_nat j) (ex_rounds ! j)" if "j < 2" for j
    using that by (auto simp: less_2_cases_iff)
  then show ?thesis
    by (simp add: session_for_def ex_rounds_def ex_sizes)
qed

lemma ex_fresh:
  "w_log ex_world = []" "w_files ex_world p = None" "not_longer rd ex_meta ex_file (w_files ex_world)"
  "calm ex_world" "arrays_ok unset_state"
  by (simp_all add: ex_world_def not_longer_def calm_def)

lemma ex_boot:
  "on_boot zcrc ex_receiver = Inr ex_receiver" "honest_rx ex_dir ex_recv_dir ex_meta ex_file ex_receiver"
  unfolding ex_receiver_def
  by (rule new_process_honest [OF ex_dirs_ok ex_describes]; simp add: ex_fresh)+

lemma ex_start: "fresh_output ex_dir ex_recv_dir ex_meta ex_file (Down None ex_world)"
  by (simp add: fresh_output_def fresh_machine_def ex_fresh)

text \<open>The transfer runs to its end; every state on the way is reachable.\<close>

lemma ex_run:
  "\<exists>rx. deliver ex_zcrc ex_pdus ex_receiver = Inr rx \<and>
     tracks ex_dir ex_recv_dir ex_meta ex_file Complete rx"
  unfolding ex_pdus_def
  by (rule deliver_session [OF ex_dirs_ok ex_describes ex_checksum ex_boot(2) _ _ _ ex_session])
    (simp_all add: ex_receiver_def receiver_new_def ex_fresh, simp add: ex_meta_def)

lemma ex_booted: "step ex_zcrc ex_dir ex_recv_dir traffic (Down None ex_world) (Running ex_receiver)"
proof -
  have "with_faults (w_faults ex_world) ex_world = ex_world" by (simp add: with_faults_def)
  then show ?thesis
    using step.booted [of unset_state ex_zcrc ex_dir ex_recv_dir "w_faults ex_world" ex_world ex_receiver]
      ex_boot(1) by (simp add: ex_receiver_def)
qed

lemma ex_reachable:
  assumes "deliver ex_zcrc raws ex_receiver = Inr rx" and "set raws \<subseteq> traffic"
  shows "(step ex_zcrc ex_dir ex_recv_dir traffic)\<^sup>*\<^sup>* (Down None ex_world) (Running rx)"
  using ex_booted deliver_steps [OF assms] by (rule converse_rtranclp_into_rtranclp)

lemma ex_pdus_honest: "set ex_pdus \<subseteq> Collect (honest_pdu ex_meta ex_file)"
  using items_honest [OF ex_describes session_completes(1) [OF ex_describes ex_session]]
    metadata_honest [of ex_meta ex_file] ex_describes
  by (simp add: ex_pdus_def describes_def)

end
