(* ===== verification/Cfdp_Ground.thy ===== *)
theory Cfdp_Ground
  imports Cfdp_Example
begin

text \<open>
  The two ends together: the PDUs that \<open>sender/sender.py\<close> builds are the \<open>Metadata\<close>, the
  items and the \<open>Eof\<close> of \<open>Cfdp_Delivery\<close>, byte for byte, with the sizes and counts that the
  receiver computes on its side; and the sender's answer to a NAK is exactly the packets the
  receiver asked for.
\<close>

section \<open>A sender that the receiver accepts\<close>

definition sender_ok :: "CfdpSender \<Rightarrow> bytes \<Rightarrow> string \<Rightarrow> bool" where
  "sender_ok s file name \<longleftrightarrow>
     0 < t_tid s \<and> t_tid s < 2 ^ 32 \<and>
     0 < t_chunk_size s \<and> 0 < t_packet_size s \<and> t_packet_size s \<le> 4096 \<and>
     t_chunk_size s + t_packet_size s \<le> 2 ^ 32 \<and>
     file \<noteq> [] \<and> length file < 2 ^ 63 \<and> total_chunks_of s file \<le> 2 ^ 20 \<and>
     list_all (\<lambda>c. 0 < (of_char c :: nat) \<and> (of_char c :: nat) < 128) name \<and>
     length name < 255 \<and> safe_filename (ascii name)"

definition meta_of :: "CfdpSender \<Rightarrow> bytes \<Rightarrow> string \<Rightarrow> u32 \<Rightarrow> MetadataPdu" where
  "meta_of s file name checksum =
     \<lparr>m_transaction_id = word_of_int (t_tid s), m_file_size = of_nat (length file),
      m_chunk_size = word_of_int (t_chunk_size s), m_packet_size = word_of_int (t_packet_size s),
      m_total_chunks = word_of_int (total_chunks_of s file), m_checksum = checksum,
      m_filename = ljust 256 (ascii name)\<rparr>"

lemma pack_I_ok: "0 \<le> n \<Longrightarrow> n < 2 ^ 32 \<Longrightarrow> pack_I n = Some (le32 (word_of_int n))"
  by (simp add: pack_I_def)

lemma unat_word_of_int32: "0 \<le> n \<Longrightarrow> n < 2 ^ 32 \<Longrightarrow> unat (word_of_int n :: u32) = nat n"
  by (simp add: unsigned_of_int take_bit_int_eq_self nat_take_bit_eq [symmetric])

lemma pieces_int:
  assumes "0 < n"
  shows "(int len + n - 1) div n = int (pieces (nat n) len)"
proof -
  have "int len + n - 1 = int (len + nat n - 1)" using assms by simp
  then show ?thesis using assms by (simp add: pieces_def zdiv_int)
qed

lemma total_chunks_pieces:
  "sender_ok s file name \<Longrightarrow> total_chunks_of s file = int (pieces (nat (t_chunk_size s)) (length file))"
  by (simp add: total_chunks_of_def sender_ok_def pieces_int)

lemma meta_of_fields:
  assumes "sender_ok s file name"
  shows "unat (m_transaction_id (meta_of s file name c)) = nat (t_tid s)"
    "unat (m_chunk_size (meta_of s file name c)) = nat (t_chunk_size s)"
    "unat (m_packet_size (meta_of s file name c)) = nat (t_packet_size s)"
    "unat (m_total_chunks (meta_of s file name c)) = pieces (nat (t_chunk_size s)) (length file)"
    "unat (m_file_size (meta_of s file name c)) = length file"
proof -
  have le: "total_chunks_of s file \<le> 2 ^ 20" using assms by (simp add: sender_ok_def)
  then have "pieces (nat (t_chunk_size s)) (length file) < 4294967296"
    using total_chunks_pieces [OF assms] by simp
  then have "unat (of_nat (pieces (nat (t_chunk_size s)) (length file)) :: u32) =
      pieces (nat (t_chunk_size s)) (length file)" by (simp add: unat_of_nat)
  with assms total_chunks_pieces [OF assms] show
    "unat (m_transaction_id (meta_of s file name c)) = nat (t_tid s)"
    "unat (m_chunk_size (meta_of s file name c)) = nat (t_chunk_size s)"
    "unat (m_packet_size (meta_of s file name c)) = nat (t_packet_size s)"
    "unat (m_total_chunks (meta_of s file name c)) = pieces (nat (t_chunk_size s)) (length file)"
    by (simp_all add: meta_of_def sender_ok_def unat_word_of_int32)
  have "length file < 2 ^ 64" using assms by (simp add: sender_ok_def)
  then show "unat (m_file_size (meta_of s file name c)) = length file"
    by (simp add: meta_of_def unat_of_nat)
qed

lemma ascii_no_zero:
  "list_all (\<lambda>c. 0 < (of_char c :: nat) \<and> (of_char c :: nat) < 128) name \<Longrightarrow> 0 \<notin> set (ascii name)"
proof (induction name)
  case (Cons c name)
  have "(of_char c :: u8) \<noteq> 0" if "0 < (of_char c :: nat)" "(of_char c :: nat) < 128"
  proof
    assume "(of_char c :: u8) = 0"
    then have "unat (of_char c :: u8) = 0" by simp
    moreover have u: "unat (of_nat (of_char c) :: u8) = of_char c"
      using that(2) by (simp add: unat_of_nat del: of_nat_of_char)
    have "unat (of_char c :: u8) = of_char c" using u unfolding of_nat_of_char .
    ultimately show False using that(1) by simp
  qed
  with Cons show ?case by auto
qed simp

lemma cstr_ljust:
  assumes "0 \<notin> set bs" and "length bs < n"
  shows "cstr (ljust n bs) = bs" and "terminated (ljust n bs)" and "length (ljust n bs) = n"
proof -
  have "\<forall>b \<in> set bs. b \<noteq> 0" using assms(1) by auto
  then show "cstr (ljust n bs) = bs"
    using assms(2) by (cases "n - length bs") (simp_all add: cstr_def ljust_def takeWhile_append2)
  show "terminated (ljust n bs)" using assms(2) by (simp add: terminated_def ljust_def)
  show "length (ljust n bs) = n" using assms(2) by (simp add: ljust_def)
qed

lemma describes_meta_of:
  assumes ok: "sender_ok s file name"
  shows "describes (meta_of s file name c) file"
proof -
  let ?m = "meta_of s file name c"
  note f = meta_of_fields [OF ok, of c]
  have "0 \<notin> set (ascii name)" "length (ascii name) < 256"
    using ok ascii_no_zero by (auto simp: sender_ok_def)
  note name = cstr_ljust [OF this]
  have fname: "m_filename ?m = ljust 256 (ascii name)" by (simp add: meta_of_def)
  have pos: "0 < pieces (nat (t_chunk_size s)) (length file)"
    using ok less_pieces [of "nat (t_chunk_size s)" 0 "length file"] by (simp add: sender_ok_def)
  have le: "pieces (nat (t_chunk_size s)) (length file) \<le> 2 ^ 20"
    using ok total_chunks_pieces [OF ok] by (simp add: sender_ok_def)
  have "accepted ?m"
    using ok f pos le name
    by (simp add: accepted_def fname word_less_nat_alt word_le_nat_alt sender_ok_def
        DEFAULT_PACKET_SIZE_def nat_le_iff)
  moreover have "m_transaction_id ?m \<noteq> 0" using f(1) ok by (auto simp: sender_ok_def)
  moreover have "nat (t_chunk_size s) + nat (t_packet_size s) \<le> 2 ^ 32"
    using ok by (simp add: sender_ok_def nat_add_distrib [symmetric] nat_le_iff)
  ultimately show ?thesis
    using ok f name by (simp add: describes_def fname metadata_fits_def sender_ok_def)
qed

lemma meta_name:
  assumes "sender_ok s file name"
  shows "cstr (m_filename (meta_of s file name c)) = ascii name"
  using assms cstr_ljust(1) [OF ascii_no_zero, of name 256] by (simp add: meta_of_def sender_ok_def)

lemma packets_in_bound:
  assumes "describes m file"
  shows "packets_in m file ci < 2 ^ 32"
proof -
  have "packets_in m file ci \<le> length (chunk_of m file ci)" by (rule packets_in_le [OF assms])
  also have "\<dots> \<le> unat (m_chunk_size m)" by (simp add: length_chunk_of)
  also have "\<dots> < 2 ^ 32" by simp
  finally show ?thesis .
qed

section \<open>What it sends is what the receiver expects\<close>

lemma send_metadata_pdu:
  assumes ok: "sender_ok s file name" and c: "0 \<le> c" "c < 2 ^ 32"
  shows "send_metadata s name (int (length file)) (total_chunks_of s file) c =
    Some (metadata_pdu (meta_of s file name (word_of_int c)))"
proof -
  have "encode_ascii name = Some (ascii name)"
    using ok by (auto simp: encode_ascii_def sender_ok_def list_all_iff)
  moreover have "0 \<le> total_chunks_of s file" "total_chunks_of s file < 2 ^ 32"
    using ok total_chunks_pieces [OF ok] by (simp_all add: sender_ok_def)
  moreover have "int (length file) < 2 ^ 64" using ok by (simp add: sender_ok_def)
  ultimately show ?thesis
    using ok c
    by (simp add: send_metadata_def Let_def pack_I_ok pack_Q_def sender_ok_def metadata_pdu_def
        metadata_image_def meta_of_def)
qed

lemma chunk_geometry_pieces:
  assumes ok: "sender_ok s file name" and ci: "ci < m_total_chunks (meta_of s file name c)"
  shows "chunk_geometry s file (uint ci) =
    (uint ci * t_chunk_size s, int (length (chunk_of (meta_of s file name c) file ci)),
     int (packets_in (meta_of s file name c) file ci))"
proof -
  let ?m = "meta_of s file name c"
  note f = meta_of_fields [OF ok, of c]
  have "0 \<le> t_chunk_size s" using ok by (simp add: sender_ok_def)
  then obtain k where k: "t_chunk_size s = int k" using zero_le_imp_eq_int by blast
  have off: "uint ci * int k = int (unat ci * k)" by simp
  have lt: "unat ci * k < length file"
    using describesD(3) [OF describes_meta_of [OF ok]] ci f k by simp
  have "min (int (length file) - uint ci * t_chunk_size s) (t_chunk_size s) =
      int (min k (length file - unat ci * k))"
    unfolding k off of_nat_diff [OF less_imp_le [OF lt], symmetric] of_nat_min [symmetric]
    by (simp add: min.commute)
  then have "min (int (length file) - uint ci * t_chunk_size s) (t_chunk_size s) =
      int (length (chunk_of ?m file ci))"
    by (simp add: length_chunk_of f k)
  moreover have "(int (length (chunk_of ?m file ci)) + t_packet_size s - 1) div t_packet_size s =
      int (packets_in ?m file ci)"
    using ok by (simp add: pieces_int sender_ok_def packets_in_def f)
  ultimately show ?thesis by (simp add: chunk_geometry_def Let_def)
qed

lemma send_packet_item:
  assumes ok: "sender_ok s file name" and ci: "ci < m_total_chunks (meta_of s file name c)"
    and i: "i < packets_in (meta_of s file name c) file ci"
    and g: "chunk_geometry s file (uint ci) = (off, sz, n)"
  shows "send_packet s file (uint ci) (int i) n off sz =
    Some (item_pdu (meta_of s file name c) file (Arrives ci i))"
proof -
  let ?m = "meta_of s file name c"
  let ?chunk = "chunk_of ?m file ci" and ?d = "packet_of ?m file ci i"
  note f = meta_of_fields [OF ok, of c]
  note desc = describes_meta_of [OF ok, of c]
  have "0 \<le> t_chunk_size s" "0 \<le> t_packet_size s" using ok by (simp_all add: sender_ok_def)
  then obtain k p where kp: "t_chunk_size s = int k" "t_packet_size s = int p"
    using zero_le_imp_eq_int by meson
  have ps: "0 < p" and fk: "unat (m_chunk_size ?m) = k" and fp: "unat (m_packet_size ?m) = p"
    using ok f kp by (simp_all add: sender_ok_def)
  have gg: "off = int (unat ci * k)" "sz = int (length ?chunk)" "n = int (packets_in ?m file ci)"
    using g chunk_geometry_pieces [OF ok ci] by (simp_all add: kp)
  have lt: "i * p < length ?chunk"
    using i less_pieces [OF ps] by (simp add: packets_in_def fp)
  have len: "length ?d = min p (length ?chunk - i * p)"
    by (simp add: packet_of_def length_piece fp)
  have data_len: "min (sz - int i * t_packet_size s) (t_packet_size s) = int (length ?d)"
    unfolding gg len kp of_nat_mult [symmetric] of_nat_diff [OF less_imp_le [OF lt], symmetric]
      of_nat_min [symmetric]
    by (simp add: min.commute)
  have pkt_off: "off + int i * t_packet_size s = int (unat ci * k + i * p)"
    unfolding gg kp by simp
  have data: "file_read file (off + int i * t_packet_size s) (int (length ?d)) = ?d"
  proof -
    have "?d = take p (drop (i * p) (take (k) (drop (unat ci * k) file)))"
      by (simp add: packet_of_def chunk_of_def piece_def fk fp)
    then have "\<exists>l. ?d = take l (drop (unat ci * k + i * p) file)"
      by (auto simp: drop_take min_def ac_simps)
    then have "?d = take (length ?d) (drop (unat ci * k + i * p) file)"
      by (metis length_take min.cobounded1 min.absorb1 take_all_iff nat_le_linear take_take)
    then show ?thesis unfolding pkt_off file_read_def Let_def nat_int by simp
  qed
  have small: "length ?d \<le> 4096" by (rule length_packet_of [OF desc])
  have idx: "int i < 2 ^ 32" "int (packets_in ?m file ci) < 2 ^ 32"
  proof -
    have "packets_in ?m file ci < 2 ^ 32"
      by (rule packets_in_bound [OF desc])
    with i show "int i < 2 ^ 32" "int (packets_in ?m file ci) < 2 ^ 32" by simp_all
  qed
  have "uint (crc8 ?d) < 2 ^ LENGTH(8)" by (rule uint_lt2p)
  then have crc: "pack_B (py_crc8 ?d) = Some [crc8 ?d]" by (simp add: py_crc8 pack_B_def)
  have pad: "nat (t_packet_size s - int (length ?d)) = p - length ?d" by (simp add: kp)
  have tid: "pack_I (t_tid s) = Some (le32 (m_transaction_id ?m))"
    using ok by (simp add: pack_I_ok sender_ok_def meta_of_def)
  have "uint ci < 2 ^ LENGTH(32)" by (rule uint_lt2p)
  then have pci: "pack_I (uint ci) = Some (le32 ci)" by (simp add: pack_I_ok)
  have pos: "\<not> uint ci * int k + int i * int p < 0" by (simp add: not_less)
  show ?thesis
    using idx small unfolding send_packet_def Let_def data_len data crc pad tid pci
    by (simp add: gg(3) pack_I_ok padded_data_pdu_def data_pdu_def packet_pdu_def
        data_header_image_def fp Let_def pkt_off pos)
qed

lemma map_int_upt: "map int [m..<n] = [int m..int n - 1]"
proof (induction n)
  case (Suc n)
  then show ?case by (cases "m \<le> n") (simp_all add: upto_rec2 [of "int m" "int n"])
qed simp

lemma send_one_chunk_pass:
  assumes ok: "sender_ok s file name" and ci: "ci < m_total_chunks (meta_of s file name c)"
  shows "send_one_chunk s file (uint ci) =
    (map (item_pdu (meta_of s file name c) file)
       (pass_of ci [0..<packets_in (meta_of s file name c) file ci]), True)"
proof -
  let ?m = "meta_of s file name c"
  obtain off sz n where g: "chunk_geometry s file (uint ci) = (off, sz, n)" by (metis prod_cases3)
  have n: "n = int (packets_in ?m file ci)" using g chunk_geometry_pieces [OF ok ci] by simp
  have upto: "[0..int k - 1] = map int [0..<k]" for k by (simp add: map_int_upt)
  have "map (\<lambda>pi. send_packet s file (uint ci) pi n off sz) [0..n - 1] =
      map Some (map (item_pdu ?m file) (pass_of ci [0..<packets_in ?m file ci]))"
    using send_packet_item [OF ok ci _ g] by (simp add: n upto pass_of_def)
  moreover have "t_packet_size s \<noteq> 0" using ok by (simp add: sender_ok_def)
  ultimately show ?thesis by (simp add: send_one_chunk_def g del: map_map)
qed

lemma send_eof_item:
  assumes ok: "sender_ok s file name" and c: "0 \<le> c" "c < 2 ^ 32"
  shows "send_eof s c = Some (item_pdu (meta_of s file name (word_of_int c)) file EofMark)"
  using ok c by (simp add: send_eof_def pack_I_ok sender_ok_def eof_pdu_def eof_image_def meta_of_def)

text \<open>
  The answer to a NAK: exactly the packets it names, in order. With the ranges that
  \<open>PacketList::compute_nak_ranges\<close> gives these are the packets that are missing.
\<close>

lemma on_nak_resends:
  assumes ok: "sender_ok s file name" and ci: "ci < m_total_chunks (meta_of s file name c)"
    and rs: "\<forall>r \<in> set rs. fst r \<le> snd r \<and> unat (snd r) < packets_in (meta_of s file name c) file ci"
    and few: "length rs < 2 ^ 32"
  shows "on_nak s file (tl (serialize_nak (nak_of_ranges tid ci rs))) =
    (map (item_pdu (meta_of s file name c) file) (pass_of ci (concat (map expand rs))), True)"
proof -
  let ?m = "meta_of s file name c" and ?nak = "nak_of_ranges tid ci rs"
  let ?body = "concat (map range_image (n_missing_packets ?nak))"
  let ?p = "tl (serialize_nak ?nak)"
  obtain off sz n where g: "chunk_geometry s file (uint ci) = (off, sz, n)" by (metis prod_cases3)
  have len: "length (n_missing_packets ?nak) = length rs" by (simp add: nak_of_ranges_def)
  have p: "?p = le32 tid @ le32 (of_nat (length rs)) @ ?body"
    by (simp add: serialize_nak_def nak_of_ranges_def Let_def)
  have body: "length ?body = 12 * length rs" by (simp add: length_range_images len layout)
  have count: "unat (get32 4 ?p) = length rs"
    unfolding p using few by (simp add: get32_skip layout unat_of_nat)
  have load: "range_load (drop (8 + i * 12) ?p) = n_missing_packets ?nak ! i" "12 \<le> length (drop (8 + i * 12) ?p)"
    if i: "i < length rs" for i
  proof -
    have d: "drop (8 + j) ?p = drop j ?body" for j unfolding p by (simp add: drop_append layout)
    have "map (\<lambda>i. range_load (drop (i * sizeof_PacketNakRange) ?body)) [0..<length rs] = n_missing_packets ?nak"
      using nak_range.load_array_images [of "n_missing_packets ?nak" "[]"] len
      by (simp add: nak_range.load_array_def)
    then have "map (\<lambda>i. range_load (drop (i * sizeof_PacketNakRange) ?body)) [0..<length rs] ! i =
        n_missing_packets ?nak ! i" by simp
    then show "range_load (drop (8 + i * 12) ?p) = n_missing_packets ?nak ! i"
      using i by (simp add: d layout)
    show "12 \<le> length (drop (8 + i * 12) ?p)" using i by (simp add: d body)
  qed
  define send where "send = (\<lambda>i. resend_range s file (drop (8 + i * 12) ?p))"
  have one: "send i = map Some (map (item_pdu ?m file) (pass_of ci (expand (rs ! i))))"
    if i: "i < length rs" for i
  proof -
    let ?r = "rs ! i" and ?q = "drop (8 + i * 12) ?p"
    have "n_missing_packets ?nak ! i = \<lparr>r_chunk_index = ci, r_first_packet = fst ?r, r_last_packet = snd ?r\<rparr>"
      using i by (simp add: nak_of_ranges_def case_prod_beta)
    then have q: "get32 0 ?q = ci" "get32 4 ?q = fst ?r" "get32 8 ?q = snd ?r"
      using load(1) [OF i] by (simp_all add: range_load_def)
    have r: "fst ?r \<le> snd ?r" "unat (snd ?r) < packets_in ?m file ci" using rs i by simp_all
    have range: "[uint (fst ?r)..uint (snd ?r)] = map int (expand ?r)"
      using map_int_upt [of "unat (fst ?r)" "Suc (unat (snd ?r))"] by (simp add: expand_def del: upt_Suc)
    have "j < packets_in ?m file ci" if "j \<in> set (expand ?r)" for j
      using that r(2) by (simp add: expand_def del: upt_Suc)
    then have "map (\<lambda>pi. send_packet s file (uint ci) pi n off sz) (map int (expand ?r)) =
        map Some (map (item_pdu ?m file) (pass_of ci (expand ?r)))"
      using send_packet_item [OF ok ci _ g] by (simp add: pass_of_def)
    then show ?thesis
      using load(2) [OF i] ok by (simp add: send_def resend_range_def sender_ok_def Let_def q g range del: map_map)
  qed
  have "concat (map send [0..<length rs]) =
      map Some (map (item_pdu ?m file) (pass_of ci (concat (map expand rs))))"
  proof -
    have "map send [0..<length rs] = map (\<lambda>r. map Some (map (item_pdu ?m file) (pass_of ci (expand r)))) rs"
      using one by (intro nth_equalityI) simp_all
    then show ?thesis by (simp add: pass_of_def map_concat comp_def)
  qed
  moreover have "\<not> length ?p < 8" by (simp add: p layout)
  moreover have "on_nak s file ?p =
      (if length ?p < 8 then ([], False) else send_all (concat (map send [0..<length rs])))"
    unfolding on_nak_def Let_def count send_def by (rule refl)
  ultimately show ?thesis by (simp only: if_False send_all_Some)
qed

text \<open>The example transfer is what a sender with these sizes sends.\<close>

definition ex_sender :: CfdpSender where
  "ex_sender = \<lparr>t_tid = 7, t_chunk_size = 2, t_packet_size = 1\<rparr>"

lemma ex_sender_ok: "sender_ok ex_sender ex_file ''hi''"
  by (simp add: sender_ok_def ex_sender_def ex_file_def total_chunks_of_def safe_filename_def)

end
