(* ===== verification/Cfdp_Rounds.thy ===== *)
theory Cfdp_Rounds
  imports Cfdp_Ground
begin

text \<open>
  Sender and receiver together: what the sender puts on the line when everything is
  acknowledged at once, what a NAK of the receiver makes it send again, and which chunks the
  receiver still asks for.
\<close>

section \<open>PDUs that leave the progress as it is\<close>

lemma tracks_sent:
  assumes tr: "tracks dir recv_dir m file (Receiving k S e) rx"
    and core: "honest_core dir recv_dir m file (transport_send pdu rx)"
  shows "tracks dir recv_dir m file (Receiving k S e) (transport_send pdu rx)"
  using tr core shows_progress_cong [of "transport_send pdu rx" rx] by (simp add: honest_rx_def)

lemma tracks_send:
  assumes tr: "tracks dir recv_dir m file (Receiving k S e) rx"
    and pdu: "promise_kept recv_dir m file (w_files (r_world rx)) pdu"
  shows "tracks dir recv_dir m file (Receiving k S e) (transport_send pdu rx)"
proof (rule tracks_sent [OF tr])
  have "honest_core dir recv_dir m file rx" using tr by (simp add: honest_rx_def)
  from send_outcome [OF this pdu] show "honest_core dir recv_dir m file (transport_send pdu rx)"
    by (simp add: honest_outcome_def)
qed

lemma tracks_resume_query:
  assumes tr: "tracks dir recv_dir m file (Receiving k S e) rx"
  shows "\<exists>i. on_pdu_received zcrc (resume_query_pdu q) rx = Inr (transport_send (resume_info_pdu i) rx) \<and>
    handle_resume_query q rx = Inr (transport_send (resume_info_pdu i) rx) \<and>
    tracks dir recv_dir m file (Receiving k S e) (transport_send (resume_info_pdu i) rx)"
proof -
  obtain i where i: "handle_resume_query q rx = Inr (transport_send (resume_info_pdu i) rx)"
    by (simp add: handle_resume_query_def Let_def)
  have "on_pdu_received zcrc (resume_query_pdu q) rx = handle_resume_query q rx"
    using parse_resume_query_image [of q "[]"] by (simp add: on_pdu_received_def resume_query_pdu_def)
  moreover have "honest_core dir recv_dir m file (transport_send (resume_info_pdu i) rx)"
    using handle_resume_query_honest [of dir recv_dir m _ rx q] tr i
    by (fastforce simp: honest_rx_def honest_outcome_def)
  ultimately show ?thesis using i tracks_sent [OF tr] by auto
qed

lemma resume_query_bytes:
  assumes "sender_ok s file name"
  shows "resume_query s = Some (resume_query_pdu \<lparr>q_transaction_id = word_of_int (t_tid s)\<rparr>)"
  using assms by (simp add: sender_ok_def resume_query_def pack_I_ok resume_query_pdu_def
      resume_query_image_def)

section \<open>The sender's traffic\<close>

text \<open>The PDUs the sender puts on the line when everything it sends is acknowledged at once.\<close>

definition sender_chunks :: "CfdpSender \<Rightarrow> bytes \<Rightarrow> bytes \<Rightarrow> bytes list" where
  "sender_chunks s file eof =
     concat (map (\<lambda>ci. fst (send_one_chunk s file ci) @ [eof]) [0..total_chunks_of s file - 1])"

lemma sender_chunks_items:
  assumes ok: "sender_ok s file name" and c: "0 \<le> c" "c < 2 ^ 32"
    and eof: "send_eof s c = Some eof"
  defines "m \<equiv> meta_of s file name (word_of_int c)"
  shows "sender_chunks s file eof = map (item_pdu m file) (concat (map (\<lambda>j.
    pass_of (of_nat j) [0..<packets_in m file (of_nat j)] @ [EofMark]) [0..<unat (m_total_chunks m)]))"
proof -
  let ?n = "unat (m_total_chunks m)"
  have n: "total_chunks_of s file = int ?n"
    using total_chunks_pieces [OF ok] meta_of_fields(4) [OF ok] by (simp add: m_def)
  have e: "eof = item_pdu m file EofMark"
    using send_eof_item [OF ok c] eof by (simp add: m_def)
  have "fst (send_one_chunk s file (int j)) =
      map (item_pdu m file) (pass_of (of_nat j) [0..<packets_in m file (of_nat j)])" if "j < ?n" for j
  proof -
    have "j < 2 ^ 32" using that by (rule less_trans) simp
    then have u: "unat (of_nat j :: u32) = j" by (simp add: unat_of_nat)
    with that have "of_nat j < m_total_chunks m" by (simp add: word_less_nat_alt)
    from send_one_chunk_pass [OF ok this [unfolded m_def]] u show ?thesis
      by (simp add: m_def uint_nat)
  qed
  note chunk = this
  have "[0..total_chunks_of s file - 1] = map int [0..<?n]"
    unfolding n map_int_upt by simp
  moreover have "map (\<lambda>ci. fst (send_one_chunk s file ci) @ [eof]) (map int [0..<?n]) = map (\<lambda>j.
      map (item_pdu m file) (pass_of (of_nat j) [0..<packets_in m file (of_nat j)]) @ [eof]) [0..<?n]"
    by (simp add: chunk)
  ultimately have "sender_chunks s file eof = concat (map (\<lambda>j. map (item_pdu m file)
      (pass_of (of_nat j) [0..<packets_in m file (of_nat j)]) @ [eof]) [0..<?n])"
    unfolding sender_chunks_def by (simp only:)
  then show ?thesis by (simp add: e map_concat comp_def)
qed

section \<open>A NAK and its answer\<close>

lemma pass_split:
  assumes "distinct (i # is)" and "set (i # is) \<inter> S = {}" and "S \<union> set (i # is) = A"
  shows "distinct is" "set is \<inter> insert i S = {}" "insert i S \<union> set is = A" "i \<in> A"
    "is \<noteq> [] \<longleftrightarrow> insert i S \<noteq> A"
proof -
  show "distinct is" "set is \<inter> insert i S = {}" using assms(1,2) by auto
  show "insert i S \<union> set is = A" "i \<in> A" using assms(3) by auto
  then show "is \<noteq> [] \<longleftrightarrow> insert i S \<noteq> A"
    using \<open>set is \<inter> insert i S = {}\<close> by (cases "is") auto
qed

lemma pass_exact:
  assumes "distinct is" and "set is \<inter> S = {}" and "S \<union> set is = {..<packets_in m file ci}" and "is \<noteq> []"
  shows "foldl (progress_step m file) (Receiving (unat ci) S e) (pass_of ci is) =
    (if e \<and> Suc (unat ci) = unat (m_total_chunks m) then Complete else Receiving (Suc (unat ci)) {} e)"
  using assms
proof (induction "is" arbitrary: S)
  case Nil
  then show ?case by simp
next
  case (Cons i "is")
  note split = pass_split [OF Cons.prems(1-3)]
  show ?case
    using Cons.IH [OF split(1-3)] split(5) by (cases "is = []") (simp_all add: pass_of_def)
qed

lemma pass_exact_ok:
  assumes "distinct is" and "set is \<inter> S = {}" and "S \<union> set is = {..<packets_in m file ci}"
    and "ci < m_total_chunks m"
  shows "items_ok m file (Receiving (unat ci) S e) (pass_of ci is)"
  using assms(1-3)
proof (induction "is" arbitrary: S)
  case Nil
  then show ?case by (simp add: pass_of_def)
next
  case (Cons i "is")
  note split = pass_split [OF Cons.prems(1-3)]
  show ?case
    using Cons.IH [OF split(1-3)] split(4,5) assms(4) by (cases "is = []") (simp_all add: pass_of_def)
qed

lemma expand_nonempty: "fst r \<le> snd r \<Longrightarrow> expand r \<noteq> []"
  by (auto simp: expand_def word_le_nat_alt)

lemma length_le_expand:
  "\<forall>r \<in> set rs. fst r \<le> snd r \<Longrightarrow> length rs \<le> length (concat (map expand rs))"
proof (induction rs)
  case (Cons r rs)
  then have "expand r \<noteq> []" by (simp add: expand_nonempty)
  then have "1 \<le> length (expand r)" by (cases "expand r") simp_all
  with Cons show ?case by simp
qed simp

lemma expand_last: "fst r \<le> snd r \<Longrightarrow> unat (snd r) \<in> set (expand r)"
  by (auto simp: expand_def word_le_nat_alt)

text \<open>What a receiver with a chunk in progress has, and what its NAK asks for.\<close>

lemma chunk_in_progress:
  assumes desc: "describes m file" and tr: "tracks dir recv_dir m file (Receiving k S e) rx"
    and cur: "r_current_chunk_index rx \<noteq> UINT32_MAX"
  defines "ci \<equiv> r_current_chunk_index rx" and "pl \<equiv> r_packet_list rx"
  shows "unat ci = k" "ci < m_total_chunks m" "pl_inv pl" "length (pl_slots pl) = packets_in m file ci"
    "S = {i. i < packets_in m file ci \<and> is_good (pl_slots pl ! i)}" "S \<noteq> {..<packets_in m file ci}"
proof -
  have inv: "rx_inv dir recv_dir rx" and t: "transfer_of recv_dir m (r_state rx)"
    and k: "unat ci = k" and S: "S = {i. i < length (pl_slots pl) \<and> is_good (pl_slots pl ! i)}"
    using tr cur by (auto simp: honest_rx_def honest_core_def shows_progress_def ci_def pl_def)
  have opn: "chunk_open rx" "\<not> pl_is_complete pl" and st: "state_ok recv_dir (r_state rx)"
    and pl: "pl_inv pl"
    using inv cur by (auto simp: rx_inv_def rx_base_def chunk_open_def pl_def)
  have ci: "ci < m_total_chunks m"
    using opn(1) st t by (simp add: chunk_open_def state_ok_def transfer_of_def word_less_nat_alt ci_def)
  have len: "length (pl_slots pl) = packets_in m file ci"
    using opn(1) expected_packets_genuine [OF t desc ci] by (auto simp: chunk_open_def ci_def pl_def)
  show "unat ci = k" "ci < m_total_chunks m" "pl_inv pl" "length (pl_slots pl) = packets_in m file ci"
    by (rule k ci pl len)+
  show "S = {i. i < packets_in m file ci \<and> is_good (pl_slots pl ! i)}" using S len by simp
  show "S \<noteq> {..<packets_in m file ci}"
    using good_slots_complete [OF pl len packets_in_pos [OF desc ci]] opn(2) S by simp
qed

lemma missing_packets:
  assumes S: "S = {i. i < n \<and> good i}" "S \<noteq> {..<n}"
  defines "miss \<equiv> filter (\<lambda>i. \<not> good i) [0..<n]"
  shows "distinct miss" "set miss \<inter> S = {}" "S \<union> set miss = {..<n}" "miss \<noteq> []"
    "length miss = n - card S"
proof -
  show m: "distinct miss" "set miss \<inter> S = {}" "S \<union> set miss = {..<n}"
    unfolding S(1) miss_def by auto
  show "miss \<noteq> []"
  proof
    assume "miss = []"
    with m(3) have "S = {..<n}" by simp
    with S(2) show False by simp
  qed
  have "finite S" using m(3) by (metis finite_Un finite_lessThan)
  with m show "length miss = n - card S"
    using card_Un_disjoint [of S "set miss"] by (simp add: distinct_card Int_commute)
qed

lemma nak_ranges_small:
  assumes desc: "describes m file" and pl: "pl_inv pl"
    and len: "length (pl_slots pl) = packets_in m file ci"
    and rs: "concat (map expand rs) = filter (\<lambda>i. \<not> is_good (pl_slots pl ! i)) [0..<packets_in m file ci]"
      "separated rs"
  shows "length rs < 2 ^ 32"
    and "\<forall>r \<in> set rs. fst r \<le> snd r \<and> unat (snd r) < packets_in m file ci"
proof -
  have le: "\<forall>r \<in> set rs. fst r \<le> snd r" using separated_le [OF rs(2)] by blast
  have "length (concat (map expand rs)) \<le> packets_in m file ci"
    unfolding rs(1) using length_filter_le [of _ "[0..<packets_in m file ci]"] by simp
  then show "length rs < 2 ^ 32"
    using length_le_expand [OF le] packets_in_bound [OF desc, of ci] by simp
  have "unat (snd r) < packets_in m file ci" if "r \<in> set rs" for r
  proof -
    have "unat (snd r) \<in> set (concat (map expand rs))" using that le expand_last [of r] by auto
    then show ?thesis unfolding rs(1) by simp
  qed
  with le show "\<forall>r \<in> set rs. fst r \<le> snd r \<and> unat (snd r) < packets_in m file ci" by blast
qed

lemma nak_answer:
  assumes ok: "sender_ok s file name" and tr: "tracks dir recv_dir (meta_of s file name c) file (Receiving k S e) rx"
    and cur: "r_current_chunk_index rx \<noteq> UINT32_MAX"
  defines "ci \<equiv> r_current_chunk_index rx" and "m \<equiv> meta_of s file name c"
  defines "miss \<equiv> filter (\<lambda>i. \<not> is_good (pl_slots (r_packet_list rx) ! i)) [0..<packets_in m file ci]"
  shows "\<exists>nak. send_nak_packets ci rx = Inr (transport_send (serialize_nak nak) rx) \<and>
    on_nak s file (tl (serialize_nak nak)) = (map (item_pdu m file) (pass_of ci miss), True)"
proof -
  have desc: "describes m file" unfolding m_def by (rule describes_meta_of [OF ok])
  note c = chunk_in_progress [OF desc tr [folded m_def] cur, folded ci_def]
  obtain rs where rs: "pl_compute_nak_ranges (r_packet_list rx) = Some rs"
      "concat (map expand rs) = miss" "separated rs"
    using pl_nak_ranges_inv [OF c(3)] c(4) by (auto simp: miss_def)
  note small = nak_ranges_small [OF desc c(3,4) rs(2) [unfolded miss_def] rs(3)]
  have "rs \<noteq> []" using missing_packets(4) [OF c(5,6)] rs(2) by (auto simp: miss_def)
  with rs(1) on_nak_resends [OF ok c(2) [unfolded m_def] small(2) [unfolded m_def] small(1)]
  show ?thesis
    by (intro exI [of _ "nak_of_ranges (js_transaction_id (r_state rx)) ci rs"])
      (simp add: send_nak_packets_def rs(2) m_def)
qed

section \<open>Missing chunks\<close>

lemma missing_range_starts:
  assumes "cr \<in> set (compute_missing_chunks s)"
  shows "chunk_missing s (unat (fst cr))" and "unat (fst cr) < unat (js_total_chunks s)"
proof -
  have "fst cr \<le> snd cr" by (rule separated_le [OF compute_missing_spec(2) assms])
  then have "unat (fst cr) \<in> set (expand cr)" by (auto simp: expand_def word_le_nat_alt)
  with assms have "unat (fst cr) \<in> set (concat (map expand (compute_missing_chunks s)))" by auto
  then show "chunk_missing s (unat (fst cr))" "unat (fst cr) < unat (js_total_chunks s)"
    unfolding compute_missing_spec(1) by simp_all
qed

lemma missing_set_eof: "compute_missing_chunks (set_eof s) = compute_missing_chunks s"
  by (simp add: compute_missing_chunks_def chunk_missing_def [abs_def])

lemma mark_eof_silent:
  "\<exists>es. ran w es (snd (mark_eof_received (journal_new dir) w)) \<and> sent_pdus es = []"
proof -
  obtain ok s where r: "read_from_disk (journal_new dir) w unset_state = (ok, s)" by fastforce
  obtain ok' w' where a: "atomic_write (journal_new dir) (s\<lparr>js_eof_received := True\<rparr>) w = (ok', w')" by fastforce
  show ?thesis
  proof (cases ok)
    case True
    with r a atomic_write_effects [OF paths_ok_new a] show ?thesis
      by (auto simp: mark_eof_received_def)
  next
    case False
    with r show ?thesis by (intro exI [of _ "[]"]) (simp add: mark_eof_received_def)
  qed
qed

lemma chunk_missing_index:
  assumes "i < unat (m_total_chunks m)"
  shows "of_nat i < m_total_chunks m \<and> unat (of_nat i :: u32) = i"
proof -
  have "i < 2 ^ 32" using assms by (rule less_trans) simp
  then have "unat (of_nat i :: u32) = i" by (simp add: unat_of_nat)
  with assms show ?thesis by (simp add: word_less_nat_alt)
qed
section \<open>Both together\<close>

text \<open>
  The bytes of \<open>sender.py\<close> with every reply at once: \<open>Metadata\<close>, \<open>ResumeQuery\<close>, every chunk in
  order with its \<open>Eof\<close>. They leave the file and the final ACK.
\<close>

lemma sender_delivers_to_receiver:
  assumes "dirs_ok dir recv_dir" and ok: "sender_ok s file name"
    and c: "0 \<le> c" "c < 2 ^ 32" "crc32_file zcrc (Some file) = word_of_int c"
    and w: "calm w" "w_log w = []" "w_files w (j_state_path (journal_new dir)) = None"
      "w_files w (recv_dir @ ascii ''/'' @ ascii name) = None" and "arrays_ok memory"
  shows "\<exists>meta query eof rx.
    send_metadata s name (int (length file)) (total_chunks_of s file) c = Some meta \<and>
    resume_query s = Some query \<and> send_eof s c = Some eof \<and>
    deliver zcrc (meta # query # sender_chunks s file eof) (receiver_new dir recv_dir memory w) = Inr rx \<and>
    w_files (r_world rx) (recv_dir @ ascii ''/'' @ ascii name) = Some file \<and>
    \<not> r_transfer_active rx \<and>
    Sent (ack_pdu \<lparr>a_transaction_id = word_of_int (t_tid s), a_chunk_index = UINT32_MAX\<rparr>)
      \<in> set (w_log (r_world rx))"
proof -
  define m where "m = meta_of s file name (word_of_int c)"
  let ?rounds = "map (\<lambda>j. pass_of (of_nat j) [0..<packets_in m file (of_nat j)] @ [EofMark])
    [0..<unat (m_total_chunks m)]"
  have desc: "describes m file" unfolding m_def by (rule describes_meta_of [OF ok])
  have sum: "crc32_file zcrc (Some file) = m_checksum m" using c by (simp add: m_def meta_of_def)
  have name: "cstr (m_filename m) = ascii name"
    using ok cstr_ljust(1) [OF ascii_no_zero, of name 256] by (simp add: m_def meta_of_def sender_ok_def)
  have session: "session_for m file ?rounds"
    unfolding session_for_def round_for_def
    by (auto intro!: exI [of _ "[] :: item list"] exI [of _ "[0..<packets_in m file ci]" for ci])
  obtain eof where eof: "send_eof s c = Some eof"
    using send_eof_item [OF ok c(1,2)] by blast
  let ?rx = "receiver_new dir recv_dir memory w"
  have "not_longer recv_dir m file (w_files w)" using w(4) by (simp add: not_longer_def dest_of_def name)
  from new_process_honest(2) [OF assms(1) desc w(2,3) this assms(10)]
  have hon: "honest_rx dir recv_dir m file ?rx" .
  obtain rx1 where rx1: "on_pdu_received zcrc (metadata_pdu m) ?rx = Inr rx1"
      "tracks dir recv_dir m file (Receiving 0 {} False) rx1"
    using start_tracks [OF assms(1) desc hon] w(1) desc
    by (auto simp: receiver_new_def describes_def)
  obtain rx2 where rx2: "on_pdu_received zcrc (resume_query_pdu \<lparr>q_transaction_id = word_of_int (t_tid s)\<rparr>) rx1 = Inr rx2"
      "tracks dir recv_dir m file (Receiving 0 {} False) rx2"
    using tracks_resume_query [OF rx1(2)] by blast
  obtain rx where rx: "deliver zcrc (map (item_pdu m file) (concat ?rounds)) rx2 = Inr rx"
      "tracks dir recv_dir m file Complete rx"
    using deliver_tracks [OF assms(1) desc sum rx2(2) session_completes(1) [OF desc session]]
    unfolding session_completes(2) [OF desc session] by blast
  have "deliver zcrc (metadata_pdu m # resume_query_pdu \<lparr>q_transaction_id = word_of_int (t_tid s)\<rparr> #
      sender_chunks s file eof) ?rx = Inr rx"
    using rx1 rx2 rx sender_chunks_items [OF ok c(1,2) eof] by (simp add: m_def)
  moreover have "m_transaction_id m = word_of_int (t_tid s)" by (simp add: m_def meta_of_def)
  ultimately show ?thesis
    using send_metadata_pdu [OF ok c(1,2)] resume_query_bytes [OF ok] eof rx(2)
    by (auto simp: m_def [symmetric] dest_of_def name acked_def)
qed

text \<open>A NAK of a chunk in progress makes the sender send the missing packets, which finish it.\<close>

lemma nak_round_finishes_the_chunk:
  assumes dirs: "dirs_ok dir recv_dir" and ok: "sender_ok s file name"
    and sum: "crc32_file zcrc (Some file) = c"
    and tr: "tracks dir recv_dir (meta_of s file name c) file (Receiving k S e) rx"
    and cur: "r_current_chunk_index rx \<noteq> UINT32_MAX"
  shows "\<exists>nak pdus rx'. send_nak_packets (r_current_chunk_index rx) rx = Inr (transport_send nak rx) \<and>
    on_nak s file (tl nak) = (pdus, True) \<and>
    length pdus = packets_in (meta_of s file name c) file (of_nat k) - card S \<and>
    deliver zcrc pdus (transport_send nak rx) = Inr rx' \<and>
    tracks dir recv_dir (meta_of s file name c) file
      (if e \<and> Suc k = unat (m_total_chunks (meta_of s file name c)) then Complete
       else Receiving (Suc k) {} e) rx'"
proof -
  define m where "m = meta_of s file name c"
  define ci where "ci = r_current_chunk_index rx"
  let ?miss = "filter (\<lambda>i. \<not> is_good (pl_slots (r_packet_list rx) ! i)) [0..<packets_in m file ci]"
  have desc: "describes m file" unfolding m_def by (rule describes_meta_of [OF ok])
  have sum': "crc32_file zcrc (Some file) = m_checksum m" using sum by (simp add: m_def meta_of_def)
  note c = chunk_in_progress [OF desc tr [folded m_def] cur, folded ci_def]
  note miss = missing_packets [OF c(5,6)]
  obtain nak where nak: "send_nak_packets ci rx = Inr (transport_send (serialize_nak nak) rx)"
    "on_nak s file (tl (serialize_nak nak)) = (map (item_pdu m file) (pass_of ci ?miss), True)"
    using nak_answer [OF ok tr cur] unfolding m_def ci_def by blast
  have tr1: "tracks dir recv_dir m file (Receiving (unat ci) S e) (transport_send (serialize_nak nak) rx)"
    unfolding c(1) by (rule tracks_send [OF tr [folded m_def]]) simp
  obtain rx' where rx': "deliver zcrc (map (item_pdu m file) (pass_of ci ?miss))
      (transport_send (serialize_nak nak) rx) = Inr rx'"
    "tracks dir recv_dir m file (foldl (progress_step m file) (Receiving (unat ci) S e) (pass_of ci ?miss)) rx'"
    using deliver_tracks [OF dirs desc sum' tr1 pass_exact_ok [OF miss(1-3) c(2)]] by blast
  have "of_nat k = ci" using c(1) by (metis unat_inverse)
  then have "length (map (item_pdu m file) (pass_of ci ?miss)) = packets_in m file (of_nat k) - card S"
    using miss(5) by (simp add: pass_of_def)
  with nak rx'(1) rx'(2) [unfolded c(1) pass_exact [OF miss(1-4), unfolded c(1)]]
  show ?thesis unfolding m_def [symmetric] ci_def [symmetric] by blast
qed

end
