(* ===== verification/Cfdp_Replies.thy ===== *)
theory Cfdp_Replies
  imports Cfdp_Rounds
begin

text \<open>
  What the receiver answers, PDU for PDU, while a transfer goes on without refused calls: nothing
  to a packet that does not complete its chunk, the ACK of the chunk to the one that does, a NAK to
  an \<open>Eof\<close> that finds a chunk incomplete, the final ACK at the end.
\<close>

section \<open>What was said\<close>

definition said :: "CfdpReceiver \<Rightarrow> bytes list" where
  "said rx = sent_pdus (w_log (r_world rx))"

abbreviation ack_of :: "MetadataPdu \<Rightarrow> u32 \<Rightarrow> bytes" where
  "ack_of m ci \<equiv> ack_pdu \<lparr>a_transaction_id = m_transaction_id m, a_chunk_index = ci\<rparr>"

lemma silent_ops [simp]:
  "sent_pdus (w_log (do_op op w)) = sent_pdus (w_log w)"
  "sent_pdus (w_log (transmit pdu w)) = sent_pdus (w_log w) @ [pdu]"
  by (simp_all add: do_op_def transmit_def)

lemma silent_fs_write: "fs_write p off bs w = (ok, w') \<Longrightarrow> sent_pdus (w_log w') = sent_pdus (w_log w)"
  by (auto simp: fs_write_def Let_def split: option.splits if_splits)

lemma silent_atomic_write [simp]:
  "sent_pdus (w_log (snd (atomic_write j s w))) = sent_pdus (w_log w)"
  by (auto simp: atomic_write_def dest: silent_fs_write split: prod.split)

lemma silent_journal [simp]:
  "sent_pdus (w_log (snd (journal_create j s w))) = sent_pdus (w_log w)"
  "sent_pdus (w_log (snd (mark_chunk_done j ci w))) = sent_pdus (w_log w)"
  "sent_pdus (w_log (snd (mark_eof_received j w))) = sent_pdus (w_log w)"
  "sent_pdus (w_log (snd (journal_remove j w))) = sent_pdus (w_log w)"
  by (simp_all add: journal_create_def mark_chunk_done_def mark_eof_received_def journal_remove_def
      split: prod.split)

lemma silent_output:
  "open_output p n w = Inr w' \<Longrightarrow> sent_pdus (w_log w') = sent_pdus (w_log w)"
  "write_chunk p off bs w = Inr w' \<Longrightarrow> sent_pdus (w_log w') = sent_pdus (w_log w)"
  by (auto simp: open_output_def write_chunk_def Let_def dest: silent_fs_write
      split: if_splits prod.splits)
    (metis silent_fs_write silent_ops(1) surjective_pairing)

section \<open>The completion check and a finished chunk\<close>

lemma check_completion_said:
  assumes "r_current_chunk_index rx = UINT32_MAX" and "js_eof_received (r_state rx)"
    and "\<forall>cr \<in> set (compute_missing_chunks (r_state rx)). r_max_chunk_seen rx < fst cr"
    and run: "check_completion zcrc rx = Inr rx'"
  shows "if compute_missing_chunks (r_state rx) = [] then
      \<not> r_transfer_active rx' \<and> r_current_chunk_index rx' = UINT32_MAX \<and>
      r_max_chunk_seen rx' = r_max_chunk_seen rx \<and>
      (verify_file_checksum zcrc rx \<longrightarrow> said rx' = said rx @ [ack_pdu
         \<lparr>a_transaction_id = js_transaction_id (r_state rx), a_chunk_index = UINT32_MAX\<rparr>])
    else rx' = rx"
proof -
  have none: "find (\<lambda>cr. \<not> fst cr > r_max_chunk_seen rx) (compute_missing_chunks (r_state rx)) = None"
    using assms(3) by (auto simp: find_None_iff)
  show ?thesis
    using run assms(1,2) unfolding check_completion_def Let_def none
    by (auto simp: said_def split: if_splits)
qed

text \<open>If the transfer is complete after the check, the checksum was right before it.\<close>

lemma complete_verifies:
  assumes dirs: "dirs_ok dir recv_dir" and desc: "describes m file"
    and sum: "crc32_file zcrc (Some file) = m_checksum m"
    and t: "transfer_of recv_dir m (r_state rx)" and j: "r_journal rx = journal_new dir"
    and none: "compute_missing_chunks (r_state rx) = []"
    and act: "r_transfer_active rx" and run: "check_completion zcrc rx = Inr rx'"
    and tr: "tracks dir recv_dir m file Complete rx'"
  shows "verify_file_checksum zcrc rx"
proof -
  let ?p = "dest_of recv_dir m"
  have "w_files (r_world rx') ?p = w_files (r_world rx) ?p \<and> w_faults (r_world rx') = w_faults (r_world rx)"
  proof -
    have "w_files (snd (journal_remove (journal_new dir) w)) ?p = w_files w ?p" for w
      by (rule journal_other(4) [OF dest_not_journal(1) [OF dirs desc]])
    moreover have "w_faults (snd (journal_remove (journal_new dir) w)) = w_faults w" for w
      by (simp add: journal_remove_def)
    moreover have "r_transfer_active rx' = r_transfer_active rx" if "send_nak_packets ci rx = Inr rx'" for ci
      using that by (auto simp: send_nak_packets_def throw_def split: option.splits if_splits)
    moreover have "\<not> r_transfer_active rx'" using tr by simp
    ultimately show ?thesis
      using run act unfolding check_completion_def Let_def none
      by (auto simp: j split: if_splits)
  qed
  with tr have "w_files (r_world rx) ?p = Some file" "calm (r_world rx)" by (simp_all add: calm_def)
  then show ?thesis
    using sum t by (simp add: verify_file_checksum_def readable_def recv_file_path_def transfer_of_def calm_def)
qed

text \<open>A chunk that is flushed: its ACK, and then the check if the \<open>Eof\<close> is there.\<close>

lemma flush_chunk_said:
  assumes run: "flush_chunk zcrc ci rx = Inr rx'"
  obtains rx2 where "said rx2 = said rx @ [ack_pdu
      \<lparr>a_transaction_id = js_transaction_id (r_state rx), a_chunk_index = ci\<rparr>]"
    "unat ci < length (js_chunk_done (r_state rx))" "r_state rx2 = set_done ci (r_state rx)"
    "r_current_chunk_index rx2 = UINT32_MAX" "r_max_chunk_seen rx2 = r_max_chunk_seen rx"
    "r_transfer_active rx2 = r_transfer_active rx" "r_journal rx2 = r_journal rx"
    "if js_eof_received (r_state rx) then check_completion zcrc rx2 = Inr rx' else rx' = rx2"
proof -
  obtain data w1 w2 pl where
    f: "pl_assemble (r_packet_list rx) = Some data" "pl_clear (r_packet_list rx) = Some pl"
      "open_output (recv_file_path rx) (js_file_size (r_state rx)) (r_world rx) = Inr w1"
      "write_chunk (recv_file_path rx) (chunk_file_offset (r_state rx) ci) data w1 = Inr w2"
      "unat ci < length (js_chunk_done (r_state rx))"
    using run by (auto simp: flush_chunk_def Let_def throw_def not_le split: option.splits sum.splits if_splits)
  have "said (chunk_flushed ci w2 pl rx) = said rx @ [ack_pdu
      \<lparr>a_transaction_id = js_transaction_id (r_state rx), a_chunk_index = ci\<rparr>]"
    using silent_output(1) [OF f(3)] silent_output(2) [OF f(4)]
    by (simp add: said_def chunk_flushed_def)
  then show ?thesis
    using run f(5) unfolding flush_chunk_done [OF f]
    by (intro that [of "chunk_flushed ci w2 pl rx"]) (simp_all add: chunk_flushed_def split: if_splits)
qed

lemma store_packet_said:
  assumes "store_packet zcrc d rx = Inr rx'"
  obtains (kept) "r_world rx' = r_world rx" "r_state rx' = r_state rx"
      "r_max_chunk_seen rx' = r_max_chunk_seen rx"
      "r_transfer_active rx' = r_transfer_active rx"
      "r_current_chunk_index rx' = r_current_chunk_index rx"
    | (flushed) pl where "flush_chunk zcrc (d_chunk_index d) (rx\<lparr>r_packet_list := pl\<rparr>) = Inr rx'"
  using assms
  by (auto simp: store_packet_def Let_def throw_def split: option.splits if_splits)

lemma switch_chunk_idle:
  assumes "r_current_chunk_index rx = UINT32_MAX" and "switch_chunk ci n rx = Inr rx'"
  shows "r_world rx' = r_world rx" "r_state rx' = r_state rx" "r_journal rx' = r_journal rx"
    "r_max_chunk_seen rx' = r_max_chunk_seen rx" "r_transfer_active rx' = r_transfer_active rx"
    "r_current_chunk_index rx' = ci"
  using assms by (auto simp: switch_chunk_def throw_def split: option.splits)

section \<open>The answer to a packet\<close>

text \<open>What a quiet receiver may find missing lies after every chunk it has seen.\<close>

lemma missing_beyond:
  assumes "transfer_of recv_dir m s"
    and "\<forall>ci < m_total_chunks m. chunk_finished s ci \<longleftrightarrow> unat ci < k"
  shows "\<forall>cr \<in> set (compute_missing_chunks s). k \<le> unat (fst cr)"
proof
  fix cr assume "cr \<in> set (compute_missing_chunks s)"
  note cr = missing_range_starts [OF this]
  have "fst cr < m_total_chunks m" "\<not> chunk_finished s (fst cr)"
    using cr assms(1) by (simp_all add: transfer_of_def word_less_nat_alt chunk_missing_def chunk_finished_def not_less)
  with assms(2) show "k \<le> unat (fst cr)" by (simp add: not_less)
qed

lemma item_data_Arrives:
  "item_data m file (Arrives ci i) =
     Some (packet_pdu m file ci i (packet_of m file ci i) (crc8 (packet_of m file ci i)))"
  by (simp add: item_data_def Let_def)

lemma item_data_said:
  assumes dirs: "dirs_ok dir recv_dir" and desc: "describes m file"
    and tr: "tracks dir recv_dir m file (Receiving k S e) rx"
    and ci: "ci < m_total_chunks m" "unat ci = k" and i: "i < packets_in m file ci"
    and it: "item_data m file it = Some (packet_pdu m file ci i d c)" "item_ok m file (Receiving k S e) it"
      "length d = length (packet_of m file ci i)"
    and seen: "unat (r_max_chunk_seen rx) \<le> k"
    and run: "on_pdu_received zcrc (item_pdu m file it) rx = Inr rx'"
  obtains (kept) "said rx' = said rx" "r_state rx' = r_state rx" "r_transfer_active rx'"
      "r_max_chunk_seen rx' = ci" "r_current_chunk_index rx' = ci"
    | (flushed) rx1 where "flush_chunk zcrc ci rx1 = Inr rx'" "said rx1 = said rx" "r_state rx1 = r_state rx"
      "r_max_chunk_seen rx1 = ci" "r_transfer_active rx1" "r_journal rx1 = r_journal rx"
proof -
  let ?d = "packet_pdu m file ci i d c"
  have act: "r_transfer_active rx" and t: "transfer_of recv_dir m (r_state rx)"
    and nf: "\<not> chunk_finished (r_state rx) ci" and cur: "r_current_chunk_index rx = UINT32_MAX \<or> r_current_chunk_index rx = ci"
    using tr ci by (auto simp: honest_rx_def honest_core_def shows_progress_def word_unat_eq_iff split: if_splits)
  have df: "data_for ?d rx" by (rule data_for_item [OF desc act t ci(1) i it(3)])
  have dci: "d_chunk_index ?d = ci" by (simp add: packet_pdu_def)
  have max: "r_max_chunk_seen (note_seen ci rx) = ci"
    using seen ci(2) by (auto simp: note_seen_def word_less_nat_alt word_unat_eq_iff)
  have world: "r_world (note_seen ci rx) = r_world rx" by (simp add: note_seen_def)
  from item_on_pdu [OF desc it(2)] run have hd: "handle_data zcrc ?d rx = Inr rx'" by (simp add: it(1))
  obtain rx1 where rx1: "store_packet zcrc ?d rx1 = Inr rx'" "r_world rx1 = r_world rx"
    "r_state rx1 = r_state rx" "r_max_chunk_seen rx1 = ci" "r_transfer_active rx1"
    "r_journal rx1 = r_journal rx" "r_current_chunk_index rx1 = ci"
  proof (cases rule: handle_data_elim [of ?d rx zcrc])
    case same
    with hd max act world show ?thesis by (intro that [of "note_seen ci rx"]) (simp_all add: dci)
  next
    case switched
    with cur have "r_current_chunk_index (note_seen ci rx) = UINT32_MAX" by (simp add: dci)
    moreover obtain rx1 where
      "switch_chunk ci (d_total_packets ?d) (note_seen ci rx) = Inr rx1" "store_packet zcrc ?d rx1 = Inr rx'"
      using switched(4) hd by (auto simp: dci split: sum.splits)
    ultimately show ?thesis
      using switch_chunk_idle [of "note_seen ci rx" ci "d_total_packets ?d" rx1] max act world
      by (intro that [of rx1]) simp_all
  qed (use df nf hd in \<open>auto simp: data_for_def dci\<close>)
  from rx1(1) show thesis
  proof (cases rule: store_packet_said)
    case kept
    with rx1 show thesis by (intro that(1)) (simp_all add: said_def)
  next
    case (flushed pl)
    with rx1 show thesis by (intro that(2) [of "rx1\<lparr>r_packet_list := pl\<rparr>"]) (simp_all add: said_def dci)
  qed
qed

lemma flushed_progress:
  assumes tr: "tracks dir recv_dir m file (progress_step m file (Receiving k S e) (Arrives ci i)) rx"
    and ci: "ci < m_total_chunks m" "unat ci = k" and act: "r_transfer_active rx"
  shows "insert i S = {..<packets_in m file ci} \<longleftrightarrow> chunk_finished (r_state rx) ci"
    and "insert i S = {..<packets_in m file ci} \<Longrightarrow> \<not> (e \<and> Suc k = unat (m_total_chunks m))"
  using tr ci act by (auto simp: shows_progress_def split: if_splits)

text \<open>
  A packet of the chunk that is being received: no answer, or the ACK of the chunk, and the final
  one if that was all.
\<close>

lemma arrival_said:
  assumes dirs: "dirs_ok dir recv_dir" and desc: "describes m file"
    and sum: "crc32_file zcrc (Some file) = m_checksum m"
    and tr: "tracks dir recv_dir m file (Receiving k S e) rx"
    and ci: "ci < m_total_chunks m" "unat ci = k" and i: "i < packets_in m file ci"
    and seen: "unat (r_max_chunk_seen rx) \<le> k"
  shows "\<exists>rx'. on_pdu_received zcrc (item_pdu m file (Arrives ci i)) rx = Inr rx' \<and>
    tracks dir recv_dir m file (progress_step m file (Receiving k S e) (Arrives ci i)) rx' \<and>
    r_max_chunk_seen rx' = ci \<and>
    (if insert i S = {..<packets_in m file ci} then
       r_current_chunk_index rx' = UINT32_MAX \<and> said rx' = said rx @ ack_of m ci #
         (if e \<and> Suc k = unat (m_total_chunks m) then [ack_of m UINT32_MAX] else [])
     else said rx' = said rx)"
proof -
  have ok: "item_ok m file (Receiving k S e) (Arrives ci i)" using ci i by simp
  from item_step [OF dirs desc sum tr ok] obtain rx' where
    rx': "on_pdu_received zcrc (item_pdu m file (Arrives ci i)) rx = Inr rx'"
      "tracks dir recv_dir m file (progress_step m file (Receiving k S e) (Arrives ci i)) rx'"
    by (auto simp: receive_item_def simp del: item_pdu.simps progress_step.simps split: sum.splits)
  have t: "transfer_of recv_dir m (r_state rx)" and st: "state_ok recv_dir (r_state rx)"
    and fin: "\<forall>cj < m_total_chunks m. chunk_finished (r_state rx) cj \<longleftrightarrow> unat cj < k"
    and eof: "js_eof_received (r_state rx) = e" and j: "r_journal rx = journal_new dir"
    using tr rx_inv_active by (auto simp: honest_rx_def honest_core_def shows_progress_def rx_inv_def rx_base_def)
  note prog = flushed_progress [OF rx'(2) ci]
  have nf: "\<not> chunk_finished (r_state rx) ci" using fin ci by simp
  show ?thesis
  proof (cases rule: item_data_said [OF dirs desc tr ci i item_data_Arrives ok refl seen rx'(1)])
    case 1
    with rx' prog nf show ?thesis
      by (intro exI [of _ rx']) (simp del: item_pdu.simps progress_step.simps tracks.simps)
  next
    case (2 rx1)
    from 2(1) obtain rx2 where
      rx2: "said rx2 = said rx1 @ [ack_of m ci]" "unat ci < length (js_chunk_done (r_state rx))"
        "r_state rx2 = set_done ci (r_state rx)" "r_current_chunk_index rx2 = UINT32_MAX"
        "r_max_chunk_seen rx2 = ci" "r_transfer_active rx2" "r_journal rx2 = r_journal rx"
        "if e then check_completion zcrc rx2 = Inr rx' else rx' = rx2"
      by (rule flush_chunk_said) (use 2 t eof in \<open>simp add: transfer_of_def\<close>)
    have fin2: "chunk_finished (r_state rx2) cj \<longleftrightarrow> unat cj < Suc k" if "cj < m_total_chunks m" for cj
      using that fin ci chunk_finished_set_done [OF rx2(2), of cj] rx2(3)
      by (auto simp: less_Suc_eq word_unat_eq_iff)
    show ?thesis
    proof (cases "rx' = rx2")
      case True
      then have "insert i S = {..<packets_in m file ci}" using prog(1) rx2(6) fin2 ci by simp
      with prog(2) True rx2 2 rx' show ?thesis
        by (intro exI [of _ rx']) (simp del: item_pdu.simps progress_step.simps tracks.simps)
    next
      case False
      then have e: "e" "check_completion zcrc rx2 = Inr rx'" using rx2(8) by (auto split: if_splits)
      have t2: "transfer_of recv_dir m (r_state rx2)" using t rx2(3) by simp
      from missing_beyond [OF this, of "Suc k"] fin2
      have "\<forall>cr \<in> set (compute_missing_chunks (r_state rx2)). r_max_chunk_seen rx2 < fst cr"
        using rx2(5) ci(2) by (auto simp: word_less_nat_alt)
      from check_completion_said [OF rx2(4) _ this e(2)] rx2(3) e eof False
      have none: "compute_missing_chunks (r_state rx2) = []"
        and fin': "\<not> r_transfer_active rx'" "r_current_chunk_index rx' = UINT32_MAX" "r_max_chunk_seen rx' = ci"
        "verify_file_checksum zcrc rx2 \<longrightarrow> said rx' = said rx2 @ [ack_of m UINT32_MAX]"
        using t rx2(5) by (auto simp: transfer_of_def split: if_splits)
      have comp: "progress_step m file (Receiving k S e) (Arrives ci i) = Complete"
        using rx'(2) fin'(1)
        by (cases "progress_step m file (Receiving k S e) (Arrives ci i)")
          (simp_all add: shows_progress_def del: progress_step.simps)
      with rx'(2) have "tracks dir recv_dir m file Complete rx'" by simp
      from complete_verifies [OF dirs desc sum t2 _ none rx2(6) e(2) this] j rx2(7)
      have s: "said rx' = said rx @ [ack_of m ci, ack_of m UINT32_MAX]"
        using fin'(4) rx2(1) 2(2) by simp
      from comp ci have all: "insert i S = {..<packets_in m file ci}" "Suc k = unat (m_total_chunks m)"
        by (simp_all split: if_split_asm)
      show ?thesis
        using s all e fin' rx' by (intro exI [of _ rx']) (simp del: item_pdu.simps progress_step.simps tracks.simps)
    qed
  qed
qed

text \<open>A damaged packet is not answered, and makes its chunk the current one.\<close>

lemma damaged_said:
  assumes dirs: "dirs_ok dir recv_dir" and desc: "describes m file"
    and sum: "crc32_file zcrc (Some file) = m_checksum m"
    and tr: "tracks dir recv_dir m file (Receiving k S e) rx"
    and ci: "ci < m_total_chunks m" "unat ci = k" and i: "i < packets_in m file ci"
    and d: "length d = length (packet_of m file ci i)" "crc8 d \<noteq> c"
    and seen: "unat (r_max_chunk_seen rx) \<le> k"
  shows "\<exists>rx'. on_pdu_received zcrc (item_pdu m file (Damaged ci i d c)) rx = Inr rx' \<and>
    tracks dir recv_dir m file (Receiving k (S - {i}) e) rx' \<and>
    r_max_chunk_seen rx' = ci \<and> r_current_chunk_index rx' = ci \<and> said rx' = said rx"
proof -
  have ok: "item_ok m file (Receiving k S e) (Damaged ci i d c)" using ci i d by simp
  have prog: "progress_step m file (Receiving k S e) (Damaged ci i d c) = Receiving k (S - {i}) e"
    using ci(2) by simp
  from item_step [OF dirs desc sum tr ok] obtain rx' where
    rx': "on_pdu_received zcrc (item_pdu m file (Damaged ci i d c)) rx = Inr rx'"
      "tracks dir recv_dir m file (Receiving k (S - {i}) e) rx'"
    unfolding prog by (auto simp: receive_item_def simp del: item_pdu.simps tracks.simps split: sum.splits)
  have t: "transfer_of recv_dir m (r_state rx)"
    and fin: "\<forall>cj < m_total_chunks m. chunk_finished (r_state rx) cj \<longleftrightarrow> unat cj < k"
    and eof: "js_eof_received (r_state rx) = e"
    using tr by (auto simp: honest_rx_def honest_core_def shows_progress_def)
  have act: "r_transfer_active rx'" "\<not> chunk_finished (r_state rx') ci"
    using rx'(2) ci by (auto simp: shows_progress_def)
  have it: "item_data m file (Damaged ci i d c) = Some (packet_pdu m file ci i d c)"
    by (simp add: item_data_def)
  show ?thesis
  proof (cases rule: item_data_said [OF dirs desc tr ci i it ok d(1) seen rx'(1)])
    case 1
    with rx' show ?thesis by blast
  next
    case (2 rx1)
    from 2(1) obtain rx2 where
      rx2: "unat ci < length (js_chunk_done (r_state rx))"
        "r_state rx2 = set_done ci (r_state rx)" "r_current_chunk_index rx2 = UINT32_MAX"
        "r_max_chunk_seen rx2 = ci" "if e then check_completion zcrc rx2 = Inr rx' else rx' = rx2"
      by (rule flush_chunk_said) (use 2 t eof in \<open>simp add: transfer_of_def\<close>)
    have fin2: "chunk_finished (r_state rx2) cj \<longleftrightarrow> unat cj < Suc k" if "cj < m_total_chunks m" for cj
      using that fin ci chunk_finished_set_done [OF rx2(1), of cj] rx2(2)
      by (auto simp: less_Suc_eq word_unat_eq_iff)
    have "rx' \<noteq> rx2" using act(2) fin2 [OF ci(1)] ci(2) by auto
    with rx2(5) have e: "e" "check_completion zcrc rx2 = Inr rx'" by (auto split: if_splits)
    have "transfer_of recv_dir m (r_state rx2)" using t rx2(2) by simp
    from missing_beyond [OF this, of "Suc k"] fin2
    have "\<forall>cr \<in> set (compute_missing_chunks (r_state rx2)). r_max_chunk_seen rx2 < fst cr"
      using rx2(4) ci(2) by (auto simp: word_less_nat_alt)
    from check_completion_said [OF rx2(3) _ this e(2)] rx2(2) e(1) eof act(1) \<open>rx' \<noteq> rx2\<close>
    show ?thesis by (auto split: if_splits)
  qed
qed

section \<open>The answer to a pass\<close>

lemma pass_said:
  assumes dirs: "dirs_ok dir recv_dir" and desc: "describes m file"
    and sum: "crc32_file zcrc (Some file) = m_checksum m"
    and ci: "ci < m_total_chunks m" "unat ci = k"
    and "tracks dir recv_dir m file (Receiving k S e) rx"
    and "distinct is" and "set is \<inter> S = {}" and "S \<union> set is = {..<packets_in m file ci}" and "is \<noteq> []"
    and "unat (r_max_chunk_seen rx) \<le> k"
  shows "\<exists>rx'. deliver zcrc (map (item_pdu m file) (pass_of ci is)) rx = Inr rx' \<and>
    tracks dir recv_dir m file (if e \<and> Suc k = unat (m_total_chunks m) then Complete
      else Receiving (Suc k) {} e) rx' \<and>
    r_max_chunk_seen rx' = ci \<and> r_current_chunk_index rx' = UINT32_MAX \<and>
    said rx' = said rx @ ack_of m ci #
      (if e \<and> Suc k = unat (m_total_chunks m) then [ack_of m UINT32_MAX] else [])"
  using assms(6-)
proof (induction "is" arbitrary: S rx)
  case Nil
  then show ?case by simp
next
  case (Cons i "is")
  note split = pass_split [OF Cons.prems(2-4)]
  have i: "i < packets_in m file ci" using split(4) by simp
  from arrival_said [OF dirs desc sum Cons.prems(1) ci i Cons.prems(6)] obtain rx1 where
    rx1: "on_pdu_received zcrc (item_pdu m file (Arrives ci i)) rx = Inr rx1"
      "tracks dir recv_dir m file (progress_step m file (Receiving k S e) (Arrives ci i)) rx1"
      "r_max_chunk_seen rx1 = ci"
      "if insert i S = {..<packets_in m file ci} then
         r_current_chunk_index rx1 = UINT32_MAX \<and> said rx1 = said rx @ ack_of m ci #
           (if e \<and> Suc k = unat (m_total_chunks m) then [ack_of m UINT32_MAX] else [])
       else said rx1 = said rx" by blast
  show ?case
  proof (cases "is = []")
    case True
    with split(5) have "insert i S = {..<packets_in m file ci}" by simp
    with rx1 True ci show ?thesis
      by (intro exI [of _ rx1]) (simp add: pass_of_def del: item_pdu.simps tracks.simps)
  next
    case False
    then have ne: "insert i S \<noteq> {..<packets_in m file ci}" using split(5) by simp
    then have tr1: "tracks dir recv_dir m file (Receiving k (insert i S) e) rx1"
      using rx1(2) ci(2) by (simp del: tracks.simps)
    have s1: "said rx1 = said rx" using rx1(4) ne by simp
    from Cons.IH [OF tr1 split(1-3) False] rx1(1,3) ci(2) s1 show ?thesis
      by (simp add: pass_of_def del: item_pdu.simps tracks.simps)
  qed
qed

lemma part_said:
  assumes dirs: "dirs_ok dir recv_dir" and desc: "describes m file"
    and sum: "crc32_file zcrc (Some file) = m_checksum m"
    and ci: "ci < m_total_chunks m" "unat ci = k"
    and "tracks dir recv_dir m file (Receiving k S e) rx"
    and "set is \<subseteq> {..<packets_in m file ci}" and "\<not> {..<packets_in m file ci} \<subseteq> S \<union> set is"
    and "unat (r_max_chunk_seen rx) \<le> k"
  shows "\<exists>rx'. deliver zcrc (map (item_pdu m file) (pass_of ci is)) rx = Inr rx' \<and>
    tracks dir recv_dir m file (Receiving k (S \<union> set is) e) rx' \<and>
    unat (r_max_chunk_seen rx') \<le> k \<and> said rx' = said rx"
  using assms(6-)
proof (induction "is" arbitrary: S rx)
  case Nil
  then show ?case by (intro exI [of _ rx]) (simp add: pass_of_def del: tracks.simps)
next
  case (Cons i "is")
  have i: "i < packets_in m file ci" and ne: "insert i S \<noteq> {..<packets_in m file ci}"
    using Cons.prems(2,3) by auto
  from arrival_said [OF dirs desc sum Cons.prems(1) ci i Cons.prems(4)] ne ci(2) obtain rx1 where
    rx1: "on_pdu_received zcrc (item_pdu m file (Arrives ci i)) rx = Inr rx1"
      "tracks dir recv_dir m file (Receiving k (insert i S) e) rx1"
      "r_max_chunk_seen rx1 = ci" "said rx1 = said rx"
    by (auto simp del: item_pdu.simps tracks.simps)
  have "set is \<subseteq> {..<packets_in m file ci}" "\<not> {..<packets_in m file ci} \<subseteq> insert i S \<union> set is"
    using Cons.prems(2,3) by auto
  from Cons.IH [OF rx1(2) this] rx1 ci(2) show ?case
    by (simp add: pass_of_def del: item_pdu.simps tracks.simps)
qed

section \<open>The answer to an \<open>Eof\<close>\<close>

definition eof_noted :: "CfdpReceiver \<Rightarrow> CfdpReceiver" where
  "eof_noted rx = (if \<not> js_eof_received (r_state rx) then
      in_world (\<lambda>w. snd (mark_eof_received (r_journal rx) w)) (rx\<lparr>r_state := set_eof (r_state rx)\<rparr>)
    else rx)"

lemma eof_noted_simps [simp]:
  "r_state (eof_noted rx) = set_eof (r_state rx)" "said (eof_noted rx) = said rx"
  "r_current_chunk_index (eof_noted rx) = r_current_chunk_index rx"
  "r_max_chunk_seen (eof_noted rx) = r_max_chunk_seen rx"
  "r_packet_list (eof_noted rx) = r_packet_list rx"
  "r_transfer_active (eof_noted rx) = r_transfer_active rx"
  by (simp_all add: eof_noted_def said_def)

lemma eof_checks:
  assumes "tracks dir recv_dir m file (Receiving k S e) rx"
  shows "on_pdu_received zcrc (item_pdu m file EofMark) rx = check_completion zcrc (eof_noted rx)"
  using assms by (simp add: on_pdu_received_eof handle_eof_def eof_noted_def Let_def shows_progress_def
      honest_rx_def honest_core_def transfer_of_def)

lemma eof_step:
  assumes "dirs_ok dir recv_dir" and "describes m file" and "crc32_file zcrc (Some file) = m_checksum m"
    and "tracks dir recv_dir m file (Receiving k S e) rx"
  shows "\<exists>rx'. on_pdu_received zcrc (item_pdu m file EofMark) rx = Inr rx' \<and>
    check_completion zcrc (eof_noted rx) = Inr rx' \<and>
    tracks dir recv_dir m file (if k = unat (m_total_chunks m) then Complete else Receiving k S True) rx'"
proof -
  have ok: "item_ok m file (Receiving k S e) EofMark" by simp
  from item_step [OF assms(1-4) ok] eof_checks [OF assms(4), of zcrc] show ?thesis
    by (auto simp: receive_item_def simp del: item_pdu.simps tracks.simps split: sum.splits)
qed

text \<open>Between chunks: no answer before the last chunk is there, the final ACK after it.\<close>

lemma eof_idle:
  assumes dirs: "dirs_ok dir recv_dir" and desc: "describes m file"
    and sum: "crc32_file zcrc (Some file) = m_checksum m"
    and tr: "tracks dir recv_dir m file (Receiving k {} e) rx"
    and cur: "r_current_chunk_index rx = UINT32_MAX"
    and seen: "unat (r_max_chunk_seen rx) < k"
  shows "\<exists>rx'. on_pdu_received zcrc (item_pdu m file EofMark) rx = Inr rx' \<and>
    tracks dir recv_dir m file (if k = unat (m_total_chunks m) then Complete else Receiving k {} True) rx' \<and>
    r_max_chunk_seen rx' = r_max_chunk_seen rx \<and> r_current_chunk_index rx' = UINT32_MAX \<and>
    said rx' = said rx @ (if k = unat (m_total_chunks m) then [ack_of m UINT32_MAX] else [])"
proof -
  from eof_step [OF dirs desc sum tr] obtain rx' where
    rx': "on_pdu_received zcrc (item_pdu m file EofMark) rx = Inr rx'"
      "check_completion zcrc (eof_noted rx) = Inr rx'"
      "tracks dir recv_dir m file (if k = unat (m_total_chunks m) then Complete else Receiving k {} True) rx'"
    by blast
  have t: "transfer_of recv_dir m (r_state rx)" and act: "r_transfer_active rx"
    and fin: "\<forall>ci < m_total_chunks m. chunk_finished (r_state rx) ci \<longleftrightarrow> unat ci < k"
    and j: "r_journal (eof_noted rx) = journal_new dir"
    using tr by (auto simp: honest_rx_def honest_core_def shows_progress_def rx_inv_def rx_base_def eof_noted_def)
  have "\<forall>cr \<in> set (compute_missing_chunks (r_state rx)). r_max_chunk_seen rx < fst cr"
    using missing_beyond [OF t fin] seen by (auto simp: word_less_nat_alt)
  from check_completion_said [OF _ _ _ rx'(2)] this cur
  have c: "if compute_missing_chunks (r_state rx) = [] then \<not> r_transfer_active rx' \<and>
      r_current_chunk_index rx' = UINT32_MAX \<and> r_max_chunk_seen rx' = r_max_chunk_seen rx \<and>
      (verify_file_checksum zcrc (eof_noted rx) \<longrightarrow> said rx' = said rx @ [ack_of m UINT32_MAX])
    else rx' = eof_noted rx"
    using t by (simp add: missing_set_eof transfer_of_def cong: if_cong)
  show ?thesis
  proof (cases "k = unat (m_total_chunks m)")
    case True
    with rx'(3) have tr': "tracks dir recv_dir m file Complete rx'" by simp
    then have "\<not> r_transfer_active rx'" by simp
    then have none: "compute_missing_chunks (r_state rx) = []" using c act by (auto split: if_splits)
    have "verify_file_checksum zcrc (eof_noted rx)"
      by (rule complete_verifies [OF dirs desc sum _ j _ _ rx'(2) tr'])
        (use t none act in \<open>simp_all add: missing_set_eof\<close>)
    with True rx' c cur none show ?thesis
      by (intro exI [of _ rx']) (simp del: item_pdu.simps tracks.simps)
  next
    case False
    with rx'(3) have "r_transfer_active rx'" by (simp add: shows_progress_def)
    with False rx' c cur show ?thesis
      by (intro exI [of _ rx']) (simp del: item_pdu.simps tracks.simps split: if_splits)
  qed
qed

lemma in_progress:
  "tracks dir recv_dir m file (Receiving k S e) rx \<Longrightarrow> S \<noteq> {} \<Longrightarrow> r_current_chunk_index rx \<noteq> UINT32_MAX"
  by (auto simp: shows_progress_def)

text \<open>Within a chunk: a NAK, which the sender answers with what is missing.\<close>

lemma send_nak_same:
  assumes "send_nak_packets ci rx = Inr (transport_send pdu rx)"
    and "r_packet_list rx' = r_packet_list rx"
    and "js_transaction_id (r_state rx') = js_transaction_id (r_state rx)"
  shows "send_nak_packets ci rx' = Inr (transport_send pdu rx')"
proof -
  have "transport_send p rx \<noteq> rx" for p
  proof
    assume "transport_send p rx = rx"
    then have "said (transport_send p rx) = said rx" by simp
    then show False by (simp add: said_def)
  qed
  moreover have "p = q" if "transport_send p rx = transport_send q rx" for p q
  proof -
    have "said (transport_send p rx) = said (transport_send q rx)" using that by simp
    then show ?thesis by (simp add: said_def)
  qed
  ultimately show ?thesis
    using assms unfolding send_nak_packets_def
    by (auto simp: throw_def split: option.splits if_splits dest: sym)
qed

lemma eof_asks:
  assumes dirs: "dirs_ok dir recv_dir" and ok: "sender_ok s file name"
    and sum: "crc32_file zcrc (Some file) = c"
    and tr: "tracks dir recv_dir (meta_of s file name c) file (Receiving k S e) rx"
    and cur: "r_current_chunk_index rx \<noteq> UINT32_MAX"
  defines "m \<equiv> meta_of s file name c"
  shows "\<exists>rx' nak is. on_pdu_received zcrc (item_pdu m file EofMark) rx = Inr rx' \<and>
    tracks dir recv_dir m file (Receiving k S True) rx' \<and>
    r_max_chunk_seen rx' = r_max_chunk_seen rx \<and> r_current_chunk_index rx' = r_current_chunk_index rx \<and>
    said rx' = said rx @ [serialize_nak nak] \<and>
    distinct is \<and> set is \<inter> S = {} \<and> S \<union> set is = {..<packets_in m file (of_nat k)} \<and> is \<noteq> [] \<and>
    on_nak s file (tl (serialize_nak nak)) = (map (item_pdu m file) (pass_of (of_nat k) is), True)"
proof -
  have desc: "describes m file" unfolding m_def by (rule describes_meta_of [OF ok])
  have sum': "crc32_file zcrc (Some file) = m_checksum m" using sum by (simp add: m_def meta_of_def)
  note tr' = tr [folded m_def]
  define ci where "ci = r_current_chunk_index rx"
  define miss where "miss = filter (\<lambda>i. \<not> is_good (pl_slots (r_packet_list rx) ! i)) [0..<packets_in m file ci]"
  note c = chunk_in_progress [OF desc tr' cur, folded ci_def]
  note miss = missing_packets [OF c(5,6), folded miss_def]
  have ci: "of_nat k = ci" using c(1) by (metis unat_inverse)
  have k: "k \<noteq> unat (m_total_chunks m)" using c(1,2) by (simp add: word_less_nat_alt)
  from eof_step [OF dirs desc sum' tr'] k obtain rx' where
    rx': "on_pdu_received zcrc (item_pdu m file EofMark) rx = Inr rx'"
      "check_completion zcrc (eof_noted rx) = Inr rx'"
      "tracks dir recv_dir m file (Receiving k S True) rx'"
    by (auto simp del: item_pdu.simps tracks.simps)
  obtain nak where nak: "send_nak_packets ci rx = Inr (transport_send (serialize_nak nak) rx)"
    "on_nak s file (tl (serialize_nak nak)) = (map (item_pdu m file) (pass_of ci miss), True)"
    using nak_answer [OF ok tr cur] unfolding m_def ci_def miss_def by blast
  have "\<not> pl_is_complete (r_packet_list rx)"
    using good_slots_complete [OF c(3,4) packets_in_pos [OF desc c(2)]] c(4-6) by simp
  then have "check_completion zcrc (eof_noted rx) = send_nak_packets ci (eof_noted rx)"
    using cur by (simp add: check_completion_def ci_def)
  also have "\<dots> = Inr (transport_send (serialize_nak nak) (eof_noted rx))"
    by (rule send_nak_same [OF nak(1)]) simp_all
  finally have "rx' = transport_send (serialize_nak nak) (eof_noted rx)" using rx'(2) by simp
  then have "said rx' = said rx @ [serialize_nak nak]" "r_max_chunk_seen rx' = r_max_chunk_seen rx"
    "r_current_chunk_index rx' = r_current_chunk_index rx"
    using eof_noted_simps(2) [of rx] by (simp_all add: said_def)
  with rx'(1,3) miss nak(2) show ?thesis unfolding ci by blast
qed

section \<open>The answer to a pass and its \<open>Eof\<close>\<close>

lemma pass_and_eof_said:
  assumes dirs: "dirs_ok dir recv_dir" and desc: "describes m file"
    and sum: "crc32_file zcrc (Some file) = m_checksum m"
    and ci: "ci < m_total_chunks m" "unat ci = k"
    and tr: "tracks dir recv_dir m file (Receiving k S e) rx"
    and "is": "distinct is" "set is \<inter> S = {}" "S \<union> set is = {..<packets_in m file ci}" "is \<noteq> []"
    and seen: "unat (r_max_chunk_seen rx) \<le> k"
  shows "\<exists>rx'. deliver zcrc (map (item_pdu m file) (pass_of ci is @ [EofMark])) rx = Inr rx' \<and>
    tracks dir recv_dir m file (if Suc k = unat (m_total_chunks m) then Complete
      else Receiving (Suc k) {} True) rx' \<and>
    r_max_chunk_seen rx' = ci \<and> r_current_chunk_index rx' = UINT32_MAX \<and>
    said rx' = said rx @ ack_of m ci #
      (if Suc k = unat (m_total_chunks m) then [ack_of m UINT32_MAX] else [])"
proof -
  from pass_said [OF dirs desc sum ci tr "is" seen] obtain rx1 where
    rx1: "deliver zcrc (map (item_pdu m file) (pass_of ci is)) rx = Inr rx1"
      "tracks dir recv_dir m file (if e \<and> Suc k = unat (m_total_chunks m) then Complete
        else Receiving (Suc k) {} e) rx1"
      "r_max_chunk_seen rx1 = ci" "r_current_chunk_index rx1 = UINT32_MAX"
      "said rx1 = said rx @ ack_of m ci #
        (if e \<and> Suc k = unat (m_total_chunks m) then [ack_of m UINT32_MAX] else [])" by blast
  show ?thesis
  proof (cases "e \<and> Suc k = unat (m_total_chunks m)")
    case True
    with rx1(2) have "on_pdu_received zcrc (item_pdu m file EofMark) rx1 = Inr rx1"
      by (simp add: on_pdu_received_eof inactive_drops)
    with rx1 True show ?thesis by (simp add: deliver_append del: item_pdu.simps tracks.simps)
  next
    case False
    with rx1(2) have tr1: "tracks dir recv_dir m file (Receiving (Suc k) {} e) rx1" by (simp del: tracks.simps)
    have seen1: "unat (r_max_chunk_seen rx1) < Suc k" using rx1(3) ci(2) by simp
    from eof_idle [OF dirs desc sum tr1 rx1(4) seen1] rx1(1,3,5) False show ?thesis
      by (auto simp: deliver_append simp del: item_pdu.simps tracks.simps)
  qed
qed

end
