(* ===== verification/Cfdp_Sender_Loop.thy ===== *)
theory Cfdp_Sender_Loop
  imports Cfdp_Ground
begin

text \<open>
  \<open>sender/sender.py\<close>, \<open>CfdpSender.send\<close> and \<open>_query_resume\<close>: the control loop as a machine
  that stands at a call of \<open>self.t.recv\<close> and goes on with what that call gives. A step gives the
  next place in the program and the PDUs sent on the way to it. The file does not change while it
  is sent; its length and checksum are computed once, before the first step.
\<close>

section \<open>Where the program is\<close>

text \<open>
  In attempt \<open>k\<close> of \<open>_query_resume\<close>; waiting for the ACK of a chunk; waiting for the final ACK
  after the last chunk; returned after the final ACK; ended by an exception.
\<close>

datatype phase = Querying nat | In_chunk int | At_end | Done | Raised

definition ACK_FINAL :: int where "ACK_FINAL = 0xFFFFFFFF"

text \<open>PDUs sent, and whether the statements that send them ended without an exception.\<close>

type_synonym sending = "bytes list \<times> bool"

definition and_then :: "sending \<Rightarrow> sending \<Rightarrow> sending" where
  "and_then p q = (if snd p then (fst p @ fst q, snd q) else p)"

definition go :: "sending \<Rightarrow> phase \<Rightarrow> phase \<times> bytes list" where
  "go p ph = (if snd p then ph else Raised, fst p)"

section \<open>Reading the replies\<close>

text \<open>
  The generator expression inside \<open>any\<close>: it stops at the first match; \<open>p[0]\<close> of an empty PDU
  raises, which is \<open>None\<close>. The transaction id of an ACK is not looked at.
\<close>

fun any_ack :: "int \<Rightarrow> bytes list \<Rightarrow> bool option" where
  "any_ack c [] = Some False"
| "any_ack c ([] # ps) = None"
| "any_ack c ((b # p) # ps) =
     (if b = pdu_code Ack \<and> 9 \<le> length (b # p) \<and> uint (get32 5 (b # p)) = c then Some True
      else any_ack c ps)"

text \<open>Looked for only after \<open>any\<close> has gone through the batch, so no PDU is empty.\<close>

definition latest_nak :: "bytes list \<Rightarrow> bytes option" where
  "latest_nak batch = find (\<lambda>p. hd p = pdu_code Nak) (rev batch)"

definition resume_reply :: "CfdpSender \<Rightarrow> bytes option \<Rightarrow> int option" where
  "resume_reply s reply =
     (case reply of None \<Rightarrow> None
      | Some pdu \<Rightarrow>
          if length pdu < 9 \<or> hd pdu \<noteq> pdu_code ResumeInfo then None
          else if uint (get32 1 pdu) \<noteq> t_tid s then None
          else Some (uint (get32 5 pdu)))"

section \<open>The steps\<close>

text \<open>The head of the loop over the chunks.\<close>

definition enter_chunk :: "CfdpSender \<Rightarrow> bytes \<Rightarrow> int \<Rightarrow> int \<Rightarrow> phase \<times> bytes list" where
  "enter_chunk s file checksum ci =
     (if ci < total_chunks_of s file then
        go (and_then (send_one_chunk s file ci) (send_all [send_eof s checksum])) (In_chunk ci)
      else (At_end, []))"

definition send_start :: "CfdpSender \<Rightarrow> bytes \<Rightarrow> string \<Rightarrow> int \<Rightarrow> phase \<times> bytes list" where
  "send_start s file name checksum =
     (if t_chunk_size s = 0 then (Raised, [])
      else go (send_all [send_metadata s name (int (length file)) (total_chunks_of s file) checksum,
                 resume_query s]) (Querying 0))"

definition query_step :: "CfdpSender \<Rightarrow> bytes \<Rightarrow> int \<Rightarrow> nat \<Rightarrow> bytes option \<Rightarrow> phase \<times> bytes list" where
  "query_step s file checksum attempt reply =
     (case resume_reply s reply of
        None \<Rightarrow>
          if Suc attempt < 3 then go (send_all [resume_query s]) (Querying (Suc attempt))
          else enter_chunk s file checksum 0
      | Some first_missing \<Rightarrow>
          if first_missing = 0xFFFFFFFF then go (send_all [send_eof s checksum]) At_end
          else enter_chunk s file checksum first_missing)"

text \<open>\<open>batch\<close> is what has arrived; it is empty when \<open>recv\<close> timed out.\<close>

definition chunk_step :: "CfdpSender \<Rightarrow> bytes \<Rightarrow> string \<Rightarrow> int \<Rightarrow> int \<Rightarrow> bytes list \<Rightarrow> phase \<times> bytes list" where
  "chunk_step s file name checksum ci batch =
     (if batch = [] then
        go (send_all [send_metadata s name (int (length file)) (total_chunks_of s file) checksum,
              send_eof s checksum]) (In_chunk ci)
      else case any_ack ACK_FINAL batch of
        None \<Rightarrow> (Raised, [])
      | Some True \<Rightarrow> (Done, [])
      | Some False \<Rightarrow>
          (case any_ack ci batch of
             None \<Rightarrow> (Raised, [])
           | Some True \<Rightarrow> enter_chunk s file checksum (ci + 1)
           | Some False \<Rightarrow>
               (case latest_nak batch of
                  None \<Rightarrow> (In_chunk ci, [])
                | Some p \<Rightarrow>
                    go (and_then (on_nak s file (tl p)) (send_all [send_eof s checksum])) (In_chunk ci))))"

definition end_step :: "CfdpSender \<Rightarrow> int \<Rightarrow> bytes list \<Rightarrow> phase \<times> bytes list" where
  "end_step s checksum batch =
     (if batch = [] then go (send_all [send_eof s checksum]) At_end
      else case any_ack ACK_FINAL batch of
        None \<Rightarrow> (Raised, [])
      | Some True \<Rightarrow> (Done, [])
      | Some False \<Rightarrow> (At_end, []))"

text \<open>
  One step on what has arrived so far: the PDUs that \<open>recv\<close> takes, the next place, what is sent.
  \<open>_query_resume\<close> takes one PDU, the loops of \<open>send\<close> everything.
\<close>

fun sender_step :: "CfdpSender \<Rightarrow> bytes \<Rightarrow> string \<Rightarrow> int \<Rightarrow> phase \<Rightarrow> bytes list \<Rightarrow>
    phase \<times> bytes list \<times> bytes list" where
  "sender_step s file name c (Querying k) inbox =
     (case query_step s file c k (case inbox of [] \<Rightarrow> None | p # ps \<Rightarrow> Some p) of
        (ph, out) \<Rightarrow> (ph, out, tl inbox))"
| "sender_step s file name c (In_chunk ci) inbox =
     (case chunk_step s file name c ci inbox of (ph, out) \<Rightarrow> (ph, out, []))"
| "sender_step s file name c At_end inbox =
     (case end_step s c inbox of (ph, out) \<Rightarrow> (ph, out, []))"
| "sender_step s file name c Done inbox = (Done, [], inbox)"
| "sender_step s file name c Raised inbox = (Raised, [], inbox)"

section \<open>Everything it sends is honest\<close>

lemma send_all_sent: "pdu \<in> set (fst (send_all ps)) \<Longrightarrow> Some pdu \<in> set ps"
  by (induction ps rule: send_all.induct) (auto split: prod.splits)

lemma eof_honest [simp]: "honest_pdu m file (eof_pdu e)"
  by (simp add: honest_pdu_def eof_pdu_def)

lemma query_honest [simp]: "honest_pdu m file (resume_query_pdu q)"
  by (simp add: honest_pdu_def resume_query_pdu_def pdu_code.simps)

text \<open>A packet outside the file claims a place that no chunk has.\<close>

lemma send_packet_honest:
  fixes ci i :: u32
  assumes ok: "sender_ok s file name" and g: "chunk_geometry s file (uint ci) = (off, sz, n)"
    and pdu: "send_packet s file (uint ci) (uint i) n off sz = Some pdu"
  shows "honest_pdu (meta_of s file name c) file pdu"
proof (cases "ci < m_total_chunks (meta_of s file name c) \<and>
    unat i < packets_in (meta_of s file name c) file ci")
  case True
  have "send_packet s file (uint ci) (int (unat i)) n off sz =
      Some (item_pdu (meta_of s file name c) file (Arrives ci (unat i)))"
    using send_packet_item [OF ok _ _ g, of c "unat i"] True by simp
  moreover have "item_ok (meta_of s file name c) file Complete (Arrives ci (unat i))"
    using True by simp
  from item_honest [OF describes_meta_of [OF ok] this]
  have "honest_pdu (meta_of s file name c) file (item_pdu (meta_of s file name c) file (Arrives ci (unat i)))" .
  ultimately show ?thesis using pdu by (simp del: item_pdu.simps)
next
  case False
  obtain t rest where pdu': "pdu = pdu_code Data # t @ le32 ci @ le32 i @ rest" "length t = 4"
  proof -
    have "pack_I (uint x) = Some (le32 x)" for x :: u32
      using uint_lt2p [of x] by (simp add: pack_I_ok)
    with pdu show ?thesis
      by (auto simp: send_packet_def Let_def pack_I_def split: if_splits option.splits
          intro!: that [of "le32 (word_of_int (t_tid s))"])
  qed
  have "d_chunk_index d = ci \<and> d_packet_index d = i"
    if "parse_data (tl pdu) = Some d" for d
  proof -
    have d: "d_chunk_index d = get32 4 (tl pdu)" "d_packet_index d = get32 8 (tl pdu)"
      using that by (auto simp: parse_data_def data_header_load_def Let_def split: if_splits)
    show ?thesis unfolding d pdu'(1) by (simp add: get32_skip pdu'(2) layout)
  qed
  with False pdu'(1) show ?thesis by (auto simp: honest_pdu_def genuine_data_def)
qed

lemma upto_word:
  assumes "i \<in> set [uint (lo :: u32)..uint (hi :: u32)]"
  shows "\<exists>j :: u32. i = uint j"
proof -
  have "uint lo \<le> i" "i \<le> uint hi" using assms by simp_all
  then have "0 \<le> i" "i < 2 ^ 32"
    using uint_lt2p [of hi] order_trans [OF unsigned_greater_eq [of lo]] by simp_all
  then have "uint (word_of_int i :: u32) = i" by (simp add: unsigned_of_int take_bit_int_eq_self)
  then show ?thesis by metis
qed

lemma on_nak_honest:
  assumes ok: "sender_ok s file name" and pdu: "pdu \<in> set (fst (on_nak s file payload))"
  shows "honest_pdu (meta_of s file name c) file pdu"
proof -
  obtain i where i: "Some pdu \<in> set (resend_range s file (drop (8 + i * 12) payload))"
    using pdu by (auto simp: on_nak_def Let_def split: if_splits dest!: send_all_sent)
  let ?p = "drop (8 + i * 12) payload"
  obtain off sz n where g: "chunk_geometry s file (uint (get32 0 ?p)) = (off, sz, n)"
    by (metis prod_cases3)
  obtain j where j: "j \<in> set [uint (get32 4 ?p)..uint (get32 8 ?p)]"
    "send_packet s file (uint (get32 0 ?p)) j n off sz = Some pdu"
    using i g by (auto simp: resend_range_def Let_def split: if_splits)
  with upto_word [OF j(1)] send_packet_honest [OF ok g] show ?thesis by auto
qed

text \<open>The parts of a step, for a checksum that fits its field.\<close>

lemma metadata_sent:
  assumes "sender_ok s file name" and "0 \<le> c" and "c < 2 ^ 32"
    and "send_metadata s name (int (length file)) (total_chunks_of s file) c = Some pdu"
  shows "honest_pdu (meta_of s file name (word_of_int c)) file pdu"
  using send_metadata_pdu [OF assms(1-3)] assms(4) describes_meta_of [OF assms(1), of "word_of_int c"]
  by (auto simp: describes_def intro: metadata_honest)

lemma eof_sent: "send_eof s c = Some pdu \<Longrightarrow> honest_pdu m file pdu"
  by (auto simp: send_eof_def honest_pdu_def)

lemma query_sent: "resume_query s = Some pdu \<Longrightarrow> honest_pdu m file pdu"
  by (auto simp: resume_query_def honest_pdu_def pdu_code.simps)

lemma chunk_number:
  assumes ok: "sender_ok s file name" and "0 \<le> ci" and "ci < total_chunks_of s file"
  shows "uint (word_of_int ci :: u32) = ci" "word_of_int ci < m_total_chunks (meta_of s file name c)"
proof -
  have "ci < 2 ^ 32" using assms by (simp add: sender_ok_def)
  with assms(2) show u: "uint (word_of_int ci :: u32) = ci" by (simp add: unsigned_of_int take_bit_int_eq_self)
  have "total_chunks_of s file = uint (m_total_chunks (meta_of s file name c))"
    using total_chunks_pieces [OF ok] meta_of_fields(4) [OF ok, of c] by (simp add: uint_nat)
  with assms(3) u show "word_of_int ci < m_total_chunks (meta_of s file name c)"
    by (simp add: word_less_def)
qed

lemma chunk_sent:
  assumes ok: "sender_ok s file name" and ci: "0 \<le> ci" "ci < total_chunks_of s file"
    and pdu: "pdu \<in> set (fst (send_one_chunk s file ci))"
  shows "honest_pdu (meta_of s file name c) file pdu"
proof -
  let ?m = "meta_of s file name c" and ?ci = "word_of_int ci :: u32"
  note n = chunk_number(1) [OF ok ci] chunk_number(2) [OF ok ci, of c]
  obtain i where "i < packets_in ?m file ?ci" "pdu = item_pdu ?m file (Arrives ?ci i)"
    using pdu send_one_chunk_pass [OF ok n(2)] by (auto simp: n(1) pass_of_def simp del: item_pdu.simps)
  moreover from this(1) n(2) have "item_ok ?m file Complete (Arrives ?ci i)" by simp
  from item_honest [OF describes_meta_of [OF ok] this]
  have "honest_pdu ?m file (item_pdu ?m file (Arrives ?ci i))" .
  ultimately show ?thesis by (simp del: item_pdu.simps)
qed

lemma go_out [simp]: "snd (go p ph) = fst p" "fst (go p ph) = (if snd p then ph else Raised)"
  by (simp_all add: go_def)

lemma and_then_sent: "set (fst (and_then p q)) \<subseteq> set (fst p) \<union> set (fst q)"
  by (simp add: and_then_def)

text \<open>The chunk that is waited for exists.\<close>

fun phase_ok :: "CfdpSender \<Rightarrow> bytes \<Rightarrow> phase \<Rightarrow> bool" where
  "phase_ok s file (In_chunk ci) \<longleftrightarrow> 0 \<le> ci \<and> ci < total_chunks_of s file"
| "phase_ok s file ph = True"

lemma enter_chunk_honest:
  assumes ok: "sender_ok s file name" and "0 \<le> ci"
  shows "set (snd (enter_chunk s file c ci)) \<subseteq> Collect (honest_pdu (meta_of s file name w) file)"
    and "phase_ok s file (fst (enter_chunk s file c ci))"
proof -
  have "honest_pdu (meta_of s file name w) file pdu"
    if "ci < total_chunks_of s file" "pdu \<in> set (fst (and_then (send_one_chunk s file ci) (send_all [send_eof s c])))" for pdu
    using that and_then_sent [of "send_one_chunk s file ci" "send_all [send_eof s c]"]
      chunk_sent [OF ok assms(2)] send_all_sent [of pdu "[send_eof s c]"] eof_sent [of s c pdu] by fastforce
  then show "set (snd (enter_chunk s file c ci)) \<subseteq> Collect (honest_pdu (meta_of s file name w) file)"
    by (auto simp: enter_chunk_def)
  show "phase_ok s file (fst (enter_chunk s file c ci))" using assms(2) by (simp add: enter_chunk_def)
qed

lemma sender_step_honest:
  assumes ok: "sender_ok s file name" and c: "0 \<le> c" "c < 2 ^ 32"
    and ph: "phase_ok s file ph" and st: "sender_step s file name c ph inbox = (ph', out, rest)"
  shows "set out \<subseteq> Collect (honest_pdu (meta_of s file name (word_of_int c)) file) \<and> phase_ok s file ph'"
proof -
  let ?H = "honest_pdu (meta_of s file name (word_of_int c)) file"
  note enter = enter_chunk_honest(1) [OF ok, where w = "word_of_int c" and c = c]
    enter_chunk_honest(2) [OF ok, where c = c]
  have meta: "set (fst (send_all [send_metadata s name (int (length file)) (total_chunks_of s file) c,
      send_eof s c])) \<subseteq> Collect ?H"
    using metadata_sent [OF ok c] eof_sent by (auto dest!: send_all_sent)
  have eof: "set (fst (send_all [send_eof s c])) \<subseteq> Collect ?H"
    using eof_sent by (auto dest!: send_all_sent)
  have query: "set (fst (send_all [resume_query s])) \<subseteq> Collect ?H"
    using query_sent by (auto dest!: send_all_sent)
  have nak: "set (fst (and_then (on_nak s file p) (send_all [send_eof s c]))) \<subseteq> Collect ?H" for p
    using and_then_sent [of "on_nak s file p" "send_all [send_eof s c]"] on_nak_honest [OF ok] eof by blast
  have "0 \<le> uint (get32 5 p)" for p by simp
  then have q: "set (snd (query_step s file c k reply)) \<subseteq> Collect ?H \<and>
      phase_ok s file (fst (query_step s file c k reply))" for k reply
    using enter [of 0] enter [of "uint (get32 5 (the reply))"] query eof
    by (auto simp: query_step_def resume_reply_def split: option.splits)
  have ch: "set (snd (chunk_step s file name c ci batch)) \<subseteq> Collect ?H \<and>
      phase_ok s file (fst (chunk_step s file name c ci batch))" if "phase_ok s file (In_chunk ci)" for ci batch
    using that enter [of "ci + 1"] meta nak
    by (simp add: chunk_step_def split: option.split bool.split)
  have en: "set (snd (end_step s c batch)) \<subseteq> Collect ?H \<and> phase_ok s file (fst (end_step s c batch))" for batch
    using eof by (simp add: end_step_def split: option.split bool.split)
  show ?thesis
  proof (cases ph)
    case (Querying k)
    with st q show ?thesis by (simp only: sender_step.simps case_prod_beta) (metis Pair_inject)
  next
    case (In_chunk ci)
    with st ch [of ci inbox] ph show ?thesis by (simp only: sender_step.simps case_prod_beta) (metis Pair_inject)
  next
    case At_end
    with st en show ?thesis by (simp only: sender_step.simps case_prod_beta) (metis Pair_inject)
  qed (use st in auto)
qed

lemma send_start_honest:
  assumes ok: "sender_ok s file name" and c: "0 \<le> c" "c < 2 ^ 32"
    and st: "send_start s file name c = (ph, out)"
  shows "set out \<subseteq> Collect (honest_pdu (meta_of s file name (word_of_int c)) file) \<and> phase_ok s file ph"
proof -
  have "set (fst (send_all [send_metadata s name (int (length file)) (total_chunks_of s file) c,
      resume_query s])) \<subseteq> Collect (honest_pdu (meta_of s file name (word_of_int c)) file)"
    using metadata_sent [OF ok c] query_sent by (auto dest!: send_all_sent)
  with st show ?thesis by (auto simp: send_start_def go_def split: if_splits)
qed

end
