(* ===== verification/Cfdp_Link.thy ===== *)
theory Cfdp_Link
  imports Cfdp_Sender_Loop
begin

text \<open>
  The whole system: the control loop of \<open>sender.py\<close> and the receiver machine, with crashes and
  reboots, joined by a line that loses, repeats, delays and reorders PDUs in both directions and
  adds noise. An invariant ties what the sender believes to what is on the receiver's disk.
\<close>

section \<open>What the replies prove\<close>

definition sent_by :: "machine \<Rightarrow> bytes set" where
  "sent_by mach = {pdu. Sent pdu \<in> set (w_log (world_of mach))}"

definition assured :: "MetadataPdu \<Rightarrow> bytes set \<Rightarrow> u32 \<Rightarrow> bool" where
  "assured m heard ci \<longleftrightarrow> (\<exists>pdu \<in> heard. assures m pdu ci)"

text \<open>What a sender at a place of its program relies on.\<close>

fun grounds :: "MetadataPdu \<Rightarrow> bytes set \<Rightarrow> phase \<Rightarrow> bool" where
  "grounds m heard (In_chunk k) \<longleftrightarrow> (\<forall>ci < m_total_chunks m. uint ci < k \<longrightarrow> assured m heard ci)"
| "grounds m heard At_end \<longleftrightarrow> (\<forall>ci < m_total_chunks m. assured m heard ci)"
| "grounds m heard Done \<longleftrightarrow> (\<forall>ci < m_total_chunks m. assured m heard ci)"
| "grounds m heard ph \<longleftrightarrow> True"

lemma grounds_mono: "grounds m heard ph \<Longrightarrow> heard \<subseteq> heard' \<Longrightarrow> grounds m heard' ph"
  by (cases ph) (auto simp: assured_def)

lemma any_ack_True:
  "any_ack c batch = Some True \<Longrightarrow>
     \<exists>p \<in> set batch. 9 \<le> length p \<and> hd p = pdu_code Ack \<and> uint (get32 5 p) = c"
  by (induction c batch rule: any_ack.induct) (auto split: if_splits)

lemma total_chunks_uint:
  assumes "sender_ok s file name"
  shows "total_chunks_of s file = uint (m_total_chunks (meta_of s file name c))"
  using total_chunks_pieces [OF assms] meta_of_fields(4) [OF assms, of c] by (simp add: uint_nat)

lemma enter_chunk_grounds:
  assumes ok: "sender_ok s file name"
    and "\<forall>ci < m_total_chunks (meta_of s file name w). uint ci < k \<longrightarrow>
      assured (meta_of s file name w) heard ci"
  shows "grounds (meta_of s file name w) heard (fst (enter_chunk s file c k))"
  using assms(2) total_chunks_uint [OF ok, of w] by (auto simp: enter_chunk_def word_less_def)

lemma final_ack_assures:
  assumes "any_ack ACK_FINAL batch = Some True" and "set batch \<subseteq> heard"
  shows "assured m heard ci"
proof -
  obtain p where p: "p \<in> set batch" "9 \<le> length p" "hd p = pdu_code Ack" "uint (get32 5 p) = ACK_FINAL"
    using any_ack_True [OF assms(1)] by blast
  have "get32 5 p = UINT32_MAX" using p(4) by (simp add: ACK_FINAL_def word_uint_eq_iff)
  with p assms(2) show ?thesis by (auto simp: assured_def assures_def)
qed

lemma chunk_ack_assures:
  assumes "any_ack (uint ci) batch = Some True" and "set batch \<subseteq> heard"
  shows "assured m heard ci"
proof -
  obtain p where p: "p \<in> set batch" "9 \<le> length p" "hd p = pdu_code Ack" "uint (get32 5 p) = uint ci"
    using any_ack_True [OF assms(1)] by blast
  have "get32 5 p = ci" using p(4) by (simp only: word_uint_eq_iff)
  with p assms(2) show ?thesis by (auto simp: assured_def assures_def)
qed

lemma resume_reply_assures:
  assumes ok: "sender_ok s file name" and "resume_reply s (Some pdu) = Some first" and "pdu \<in> heard"
    and "uint ci < first"
  shows "assured (meta_of s file name w) heard ci"
proof -
  have p: "9 \<le> length pdu" "hd pdu = pdu_code ResumeInfo" "uint (get32 1 pdu) = t_tid s"
    "first = uint (get32 5 pdu)"
    using assms(2) by (auto simp: resume_reply_def split: if_splits)
  have "get32 1 pdu = m_transaction_id (meta_of s file name w)"
    using p(3) by (simp add: meta_of_def flip: p(3))
  moreover have "ci < get32 5 pdu" using assms(4) p(4) by (simp add: word_less_def)
  ultimately show ?thesis using p assms(3) by (auto simp: assured_def assures_def)
qed

lemma sender_step_grounds:
  assumes ok: "sender_ok s file name" and ph: "phase_ok s file ph"
    and g: "grounds (meta_of s file name w) heard ph"
    and batch: "set batch \<subseteq> heard"
    and st: "sender_step s file name c ph batch = (ph', out, rest)"
  shows "grounds (meta_of s file name w) heard ph'"
proof -
  let ?m = "meta_of s file name w"
  note enter = enter_chunk_grounds [OF ok, of w, where c = c]
  show ?thesis
  proof (cases ph)
    case (Querying k)
    let ?reply = "case batch of [] \<Rightarrow> None | p # ps \<Rightarrow> Some p"
    have ph': "ph' = fst (query_step s file c k ?reply)"
      using st Querying by (simp add: case_prod_beta)
    show ?thesis
    proof (cases "resume_reply s ?reply")
      case None
      then show ?thesis using enter [of 0] by (simp add: ph' query_step_def)
    next
      case (Some first)
      then obtain pdu where "resume_reply s (Some pdu) = Some first" "pdu \<in> heard"
        using batch by (auto simp: resume_reply_def split: list.splits)
      note known = resume_reply_assures [OF ok this, where w = w]
      have "uint ci < 0xFFFFFFFF" if "ci < m_total_chunks ?m" for ci
      proof -
        have "uint (m_total_chunks ?m) \<le> 2 ^ 20"
          using total_chunks_uint [OF ok, of w] ok by (simp add: sender_ok_def)
        with that show ?thesis by (simp add: word_less_def)
      qed
      with known enter [of first] Some show ?thesis by (auto simp: ph' query_step_def)
    qed
  next
    case (In_chunk k)
    have k: "uint (word_of_int k :: u32) = k" using chunk_number(1) [OF ok] ph In_chunk by simp
    have ph': "ph' = fst (chunk_step s file name c k batch)"
      using st In_chunk by (simp add: case_prod_beta)
    have advance: "grounds ?m heard (fst (enter_chunk s file c (k + 1)))" if "any_ack k batch = Some True"
    proof (rule enter, intro allI impI)
      fix ci assume ci: "ci < m_total_chunks ?m" "uint ci < k + 1"
      show "assured ?m heard ci"
      proof (cases "uint ci = k")
        case True
        with that show ?thesis using chunk_ack_assures [OF _ batch] by metis
      next
        case False
        with ci g In_chunk show ?thesis by simp
      qed
    qed
    from advance g In_chunk final_ack_assures [OF _ batch] show ?thesis
      by (auto simp: ph' chunk_step_def split: option.split bool.split)
  next
    case At_end
    then have "ph' = fst (end_step s c batch)" using st by (simp add: case_prod_beta)
    with g At_end show ?thesis by (auto simp: end_step_def split: option.split bool.split)
  qed (use st g in auto)
qed

section \<open>The system\<close>

text \<open>
  A state: the sender's place, the PDUs it has put on the line so far, the receiver. Any set of
  them, in any order and any number of times, may arrive at the receiver, and so may \<open>noise\<close>;
  the sender may hear any PDUs the receiver has sent, or nothing before its time is out.
\<close>

inductive link_step :: "zlib_crc32 \<Rightarrow> path \<Rightarrow> path \<Rightarrow> bytes set \<Rightarrow>
    CfdpSender \<Rightarrow> bytes \<Rightarrow> string \<Rightarrow> int \<Rightarrow>
    phase \<times> bytes set \<times> machine \<Rightarrow> phase \<times> bytes set \<times> machine \<Rightarrow> bool"
  for zcrc dir recv_dir noise s bs name c where
  sender_moves: "set inbox \<subseteq> sent_by mach \<Longrightarrow>
    sender_step s bs name c ph inbox = (ph', out, rest) \<Longrightarrow>
    link_step zcrc dir recv_dir noise s bs name c (ph, air, mach) (ph', air \<union> set out, mach)"
| receiver_moves: "step zcrc dir recv_dir (air \<union> noise) mach mach' \<Longrightarrow>
    link_step zcrc dir recv_dir noise s bs name c (ph, air, mach) (ph, air, mach')"

definition link_start :: "CfdpSender \<Rightarrow> bytes \<Rightarrow> string \<Rightarrow> int \<Rightarrow> machine \<Rightarrow> phase \<times> bytes set \<times> machine" where
  "link_start s file name c mach =
     (case send_start s file name c of (ph, out) \<Rightarrow> (ph, set out, mach))"

inductive_cases link_stepE: "link_step zcrc dir recv_dir noise s bs name c st st'"

fun link_inv :: "path \<Rightarrow> path \<Rightarrow> CfdpSender \<Rightarrow> bytes \<Rightarrow> MetadataPdu \<Rightarrow>
    phase \<times> bytes set \<times> machine \<Rightarrow> bool" where
  "link_inv dir recv_dir s file m (ph, air, mach) \<longleftrightarrow>
     machine_honest dir recv_dir m file mach \<and> air \<subseteq> Collect (honest_pdu m file) \<and>
     phase_ok s file ph \<and> grounds m (sent_by mach) ph"

section \<open>Its invariant\<close>

lemma step_mono:
  "step zcrc dir recv_dir traffic s t \<Longrightarrow> traffic \<subseteq> traffic' \<Longrightarrow> step zcrc dir recv_dir traffic' s t"
  by (induction rule: step.induct) (auto intro: step.intros)

lemma good_run_log: "good_run P w w' \<Longrightarrow> set (w_log w) \<subseteq> set (w_log w')"
  by (auto simp: good_run_def ran_def)

lemma crashed_log: "crashed w w' v \<Longrightarrow> set (w_log w) \<subseteq> set (w_log v)"
  by (auto simp: crashed_def)

text \<open>What was sent stays sent.\<close>

lemma sent_by_step:
  assumes dirs: "dirs_ok dir recv_dir" and desc: "describes m file"
    and hon: "machine_honest dir recv_dir m file s"
    and st: "step zcrc dir recv_dir (Collect (honest_pdu m file)) s t"
  shows "sent_by s \<subseteq> sent_by t"
proof -
  have "set (w_log (world_of s)) \<subseteq> set (w_log (world_of t))"
    using st hon
  proof (cases rule: step.cases)
    case (handled raw rx rx')
    then show ?thesis
      using on_pdu_received_honest(1) [OF dirs desc, of rx raw zcrc] hon good_run_log by fastforce
  next
    case (raised raw rx f w)
    then show ?thesis
      using on_pdu_received_honest(1) [OF dirs desc, of rx raw zcrc] hon good_run_log by fastforce
  next
    case (killed raw rx w)
    then show ?thesis using crashed_log by auto
  next
    case (booted memory F w rx why)
    with boot_honest [OF dirs desc, of "with_faults F w" memory zcrc] hon show ?thesis
      using good_run_log by fastforce
  next
    case (boot_raised memory F w f w' why)
    with boot_honest [OF dirs desc, of "with_faults F w" memory zcrc] hon show ?thesis by fastforce
  next
    case (boot_killed memory F w w' why)
    then show ?thesis using crashed_log by fastforce
  qed auto
  then show ?thesis by (auto simp: sent_by_def)
qed

lemma link_inv_step:
  assumes dirs: "dirs_ok dir recv_dir" and ok: "sender_ok s file name" and c: "0 \<le> c" "c < 2 ^ 32"
    and noise: "noise \<subseteq> Collect (honest_pdu (meta_of s file name (word_of_int c)) file)"
    and inv: "link_inv dir recv_dir s file (meta_of s file name (word_of_int c)) x"
    and st: "link_step zcrc dir recv_dir noise s file name c x y"
  shows "link_inv dir recv_dir s file (meta_of s file name (word_of_int c)) y"
  using st
proof (cases rule: link_step.cases)
  case (sender_moves inbox mach ph ph' out rest air)
  with inv sender_step_honest [OF ok c _ sender_moves(4)] sender_step_grounds [OF ok _ _ sender_moves(3,4)]
  show ?thesis by auto
next
  case (receiver_moves air mach mach' ph)
  have desc: "describes (meta_of s file name (word_of_int c)) file" by (rule describes_meta_of [OF ok])
  have "step zcrc dir recv_dir (Collect (honest_pdu (meta_of s file name (word_of_int c)) file)) mach mach'"
    using step_mono [OF receiver_moves(3)] inv noise receiver_moves(1) by auto
  with machine_honest_step [OF dirs desc _ this] sent_by_step [OF dirs desc _ this] inv receiver_moves(1,2)
  show ?thesis using grounds_mono by auto
qed

interpretation whole_link: step_invariant "link_step zcrc dir recv_dir noise s bs name c"
    "\<lambda>x. \<exists>mach. dirs_ok dir recv_dir \<and> sender_ok s bs name \<and> 0 \<le> c \<and> c < 2 ^ 32 \<and>
       noise \<subseteq> Collect (honest_pdu (meta_of s bs name (word_of_int c)) bs) \<and>
       fresh_output dir recv_dir (meta_of s bs name (word_of_int c)) bs mach \<and>
       x = link_start s bs name c mach"
    "\<lambda>x. dirs_ok dir recv_dir \<and> sender_ok s bs name \<and> 0 \<le> c \<and> c < 2 ^ 32 \<and>
       noise \<subseteq> Collect (honest_pdu (meta_of s bs name (word_of_int c)) bs) \<and>
       link_inv dir recv_dir s bs (meta_of s bs name (word_of_int c)) x"
  for zcrc dir recv_dir noise s bs name c
proof (unfold_locales, elim exE conjE, intro conjI)
  fix x mach
  assume a: "dirs_ok dir recv_dir" "sender_ok s bs name" "0 \<le> c" "c < 2 ^ 32"
    "fresh_output dir recv_dir (meta_of s bs name (word_of_int c)) bs mach" "x = link_start s bs name c mach"
  let ?m = "meta_of s bs name (word_of_int c)"
  obtain ph out where st: "send_start s bs name c = (ph, out)" by fastforce
  have "machine_honest dir recv_dir ?m bs mach"
    using honest_reachable [OF a(1) describes_meta_of [OF a(2)] a(5)] by blast
  moreover have "grounds ?m heard ph" for heard using st by (auto simp: send_start_def go_def split: if_splits)
  ultimately show "link_inv dir recv_dir s bs ?m x"
    using send_start_honest [OF a(2-4) st] by (simp add: a(6) link_start_def st)
next
  fix x y
  show "dirs_ok dir recv_dir \<and> sender_ok s bs name \<and> 0 \<le> c \<and> c < 2 ^ 32 \<and>
      noise \<subseteq> Collect (honest_pdu (meta_of s bs name (word_of_int c)) bs) \<and>
      link_inv dir recv_dir s bs (meta_of s bs name (word_of_int c)) y"
    if "dirs_ok dir recv_dir \<and> sender_ok s bs name \<and> 0 \<le> c \<and> c < 2 ^ 32 \<and>
      noise \<subseteq> Collect (honest_pdu (meta_of s bs name (word_of_int c)) bs) \<and>
      link_inv dir recv_dir s bs (meta_of s bs name (word_of_int c)) x"
      "link_step zcrc dir recv_dir noise s bs name c x y"
    using that link_inv_step by blast
qed

lemma assured_on_disk:
  assumes "honest_world dir recv_dir m file (w_log (world_of mach)) (w_files (world_of mach))"
    and "assured m (sent_by mach) ci" and "ci < m_total_chunks m"
  shows "on_disk recv_dir m file ci (w_files (world_of mach))"
  using assms by (auto simp: honest_world_def promises_kept_def promise_kept_def assured_def sent_by_def)
lemma link_reachable:
  assumes "dirs_ok dir recv_dir" and "sender_ok s file name" and "0 \<le> c" and "c < 2 ^ 32"
    and "noise \<subseteq> Collect (honest_pdu (meta_of s file name (word_of_int c)) file)"
    and "fresh_output dir recv_dir (meta_of s file name (word_of_int c)) file mach"
    and "(link_step zcrc dir recv_dir noise s file name c)\<^sup>*\<^sup>* (link_start s file name c mach) x"
  shows "link_inv dir recv_dir s file (meta_of s file name (word_of_int c)) x"
  using assms(1-6) whole_link.reached [OF _ assms(7)] by blast

lemma link_receives:
  assumes "(step zcrc dir recv_dir noise)\<^sup>*\<^sup>* mach mach'"
  shows "(link_step zcrc dir recv_dir noise s bs name c)\<^sup>*\<^sup>* (ph, air, mach) (ph, air, mach')"
  using assms
proof (induction rule: rtranclp_induct)
  case (step mach1 mach2)
  have "link_step zcrc dir recv_dir noise s bs name c (ph, air, mach1) (ph, air, mach2)"
    by (rule link_step.receiver_moves [OF step_mono [OF step(2)]]) simp
  with step(3) show ?case by (rule rtranclp.rtrancl_into_rtrancl)
qed simp

end
