(* ===== verification/Cfdp_Sync.thy ===== *)
theory Cfdp_Sync
  imports Cfdp_Effects
begin

text \<open>
  While no system call is refused, the journal on disk is the transfer's state in memory after
  every PDU, so that a process killed between two PDUs and started again has the state of the
  one before it.
\<close>

lemma switch_chunk_world:
  assumes pl: "pl_inv (r_packet_list rx)" and run: "switch_chunk ci n rx = Inr rx'"
  shows "r_state rx' = r_state rx \<and> r_transfer_active rx' = r_transfer_active rx \<and>
    (r_world rx' = r_world rx \<or> (\<exists>pdu. r_world rx' = transmit pdu (r_world rx)))"
proof -
  let ?nak = "if r_current_chunk_index rx \<noteq> UINT32_MAX \<and> \<not> pl_is_complete (r_packet_list rx)
    then send_nak_packets (r_current_chunk_index rx) rx else Inr rx"
  obtain rx1 where rx1: "?nak = Inr rx1" "rx1 = rx \<or> (\<exists>pdu. rx1 = transport_send pdu rx)"
    using send_nak_packets_run [OF pl, of "r_current_chunk_index rx"]
    by (cases "r_current_chunk_index rx \<noteq> UINT32_MAX \<and> \<not> pl_is_complete (r_packet_list rx)") auto
  from run rx1(1) have "\<exists>pl'. rx' = rx1\<lparr>r_packet_list := pl', r_current_chunk_index := ci\<rparr>"
    by (auto simp: switch_chunk_def throw_def split: option.splits)
  with rx1(2) show ?thesis by auto
qed
definition in_sync :: "path \<Rightarrow> CfdpReceiver \<Rightarrow> bool" where
  "in_sync dir rx \<longleftrightarrow>
     (r_transfer_active rx \<longrightarrow> stored (journal_new dir) (r_world rx) = Some (r_state rx))"

definition sync_outcome :: "path \<Rightarrow> outcome \<Rightarrow> bool" where
  "sync_outcome dir out \<longleftrightarrow> (case out of Inl e \<Rightarrow> True | Inr rx \<Rightarrow> in_sync dir rx)"

lemma sync_outcome_simps [simp]:
  "sync_outcome dir (Inl e)" "sync_outcome dir (Inr rx) = in_sync dir rx"
  "sync_outcome dir (throw f rx)"
  by (simp_all add: sync_outcome_def throw_def)

lemma stored_transmit [simp]: "stored j (transmit pdu w) = stored j w"
  by (simp add: stored_def)

lemma in_sync_send [simp]: "in_sync dir (transport_send pdu rx) = in_sync dir rx"
  by (simp add: in_sync_def)

lemma in_sync_inactive [simp]: "\<not> r_transfer_active rx \<Longrightarrow> in_sync dir rx"
  by (simp add: in_sync_def)

lemma stored_do_op:
  "j_state_path j \<notin> touches op \<Longrightarrow> stored j (do_op op w) = stored j w"
  by (simp add: stored_def stored_in_def apply_op_untouched)

lemma stored_fs_write:
  assumes "p \<noteq> j_state_path j"
  shows "stored j (snd (fs_write p off bs w)) = stored j w"
proof -
  obtain bs' where "snd (fs_write p off bs w) = do_op (Pwrite p off bs') w"
    using fs_write_ran [of p off bs w] by blast
  with assms show ?thesis by (simp add: stored_do_op)
qed

lemma fs_write_faults [simp]: "w_faults (snd (fs_write p off bs w)) = w_faults w"
  using fs_write_ran [of p off bs w] by auto

lemma output_stored:
  assumes "p \<noteq> j_state_path j"
  shows "open_output p n w = Inr w' \<Longrightarrow> stored j w' = stored j w \<and> w_faults w' = w_faults w"
    and "write_chunk p off data w = Inr w' \<Longrightarrow> stored j w' = stored j w \<and> w_faults w' = w_faults w"
proof -
  show "stored j w' = stored j w \<and> w_faults w' = w_faults w" if "open_output p n w = Inr w'"
    using that assms
    by (auto simp: open_output_def Let_def stored_do_op stored_fs_write split: if_splits)
  obtain ok w2 where eq: "fs_write p (unat off) data w = (ok, w2)" by fastforce
  with stored_fs_write [OF assms, of "unat off" data w] fs_write_faults [of p "unat off" data w]
  have "stored j w2 = stored j w" "w_faults w2 = w_faults w" by simp_all
  then show "stored j w' = stored j w \<and> w_faults w' = w_faults w" if "write_chunk p off data w = Inr w'"
    using that assms by (auto simp: write_chunk_def eq stored_do_op split: if_splits)
qed

lemma send_nak_sync: "in_sync dir rx \<Longrightarrow> sync_outcome dir (send_nak_packets ci rx)"
  by (auto simp: send_nak_packets_def split: option.splits)

lemma check_completion_sync: "in_sync dir rx \<Longrightarrow> sync_outcome dir (check_completion zcrc rx)"
  unfolding check_completion_def Let_def
  by (auto simp: send_nak_sync split: option.splits)

lemma flush_chunk_sync:
  assumes base: "rx_base dir recv_dir rx" and act: "r_transfer_active rx"
    and calm: "calm (r_world rx)" and sync: "in_sync dir rx"
  shows "sync_outcome dir (flush_chunk zcrc ci rx)"
proof -
  let ?j = "journal_new dir" and ?p = "recv_file_path rx" and ?s = "r_state rx"
  have j: "r_journal rx = ?j" and st: "state_ok recv_dir ?s" and pl: "pl_inv (r_packet_list rx)"
    using rx_baseD [OF base] act by simp_all
  have neq: "?p \<noteq> j_state_path ?j"
    using output_path_neq [OF _ st] base by (simp add: rx_base_def)
  obtain data where data: "pl_assemble (r_packet_list rx) = Some data"
    using pls.assemble_ok [OF pl] by blast
  obtain pl' where pl': "pl_clear (r_packet_list rx) = Some pl'"
    using pls.clear_ok [OF pl] by blast
  show ?thesis
  proof (cases "open_output ?p (js_file_size ?s) (r_world rx)")
    case (Inl e)
    with data show ?thesis by (simp add: flush_chunk_def)
  next
    case w1: (Inr w1)
    show ?thesis
    proof (cases "write_chunk ?p (chunk_file_offset ?s ci) data w1")
      case (Inl e)
      with data w1 show ?thesis by (simp add: flush_chunk_def)
    next
      case w2: (Inr w2)
      have st2: "stored ?j w2 = Some ?s" and calm2: "calm w2"
        using output_stored(1) [OF neq w1] output_stored(2) [OF neq w2] sync act calm
        by (simp_all add: in_sync_def calm_def)
      show ?thesis
      proof (cases "unat ci < length (js_chunk_done ?s)")
        case False
        with data w1 w2 show ?thesis by (simp add: flush_chunk_def Let_def)
      next
        case True
        define rx2 where "rx2 = (send_ack ci (in_world (\<lambda>w. snd (mark_chunk_done (r_journal rx) ci w))
          (rx\<lparr>r_world := w2, r_state := set_done ci ?s\<rparr>)))
          \<lparr>r_packet_list := pl', r_current_chunk_index := UINT32_MAX\<rparr>"
        from mark_chunk_done_stored [OF paths_ok_new calm2 st2 True]
        have "stored ?j (snd (mark_chunk_done ?j ci w2)) = Some (set_done ci ?s)" by auto
        then have "in_sync dir rx2" by (simp add: in_sync_def rx2_def send_ack_def j)
        moreover have "flush_chunk zcrc ci rx =
            (if js_eof_received (r_state rx2) then check_completion zcrc rx2 else Inr rx2)"
          using data w1 w2 True pl' by (simp add: flush_chunk_def Let_def rx2_def send_ack_def)
        ultimately show ?thesis by (simp add: check_completion_sync)
      qed
    qed
  qed
qed

lemma store_packet_sync:
  assumes base: "rx_base dir recv_dir rx" and act: "r_transfer_active rx"
    and calm: "calm (r_world rx)" and sync: "in_sync dir rx"
  shows "sync_outcome dir (store_packet zcrc dpdu rx)"
proof -
  have pl: "pl_inv (r_packet_list rx)" using base by (rule rx_baseD)
  obtain b pl' where put: "pl_insert (d_packet_index dpdu) (d_data dpdu)
        (crc8 (d_data dpdu) = d_crc8 dpdu) (r_packet_list rx) = Some (b, pl')" "pl_inv pl'"
    using pls.put_total [OF pl] by metis
  let ?rx = "rx\<lparr>r_packet_list := pl'\<rparr>"
  have "rx_base dir recv_dir ?rx" using base put by (simp add: rx_base_def)
  moreover have "in_sync dir ?rx" using sync by (simp add: in_sync_def)
  ultimately show ?thesis
    using flush_chunk_sync [of dir recv_dir ?rx zcrc "d_chunk_index dpdu"] act calm put(1)
    by (simp add: store_packet_def Let_def)
qed

lemma handle_data_sync:
  assumes inv: "rx_inv dir recv_dir rx" and calm: "calm (r_world rx)" and sync: "in_sync dir rx"
  shows "sync_outcome dir (handle_data zcrc dpdu rx)"
proof -
  let ?ci = "d_chunk_index dpdu" and ?rx = "note_seen (d_chunk_index dpdu) rx"
  have sync1: "in_sync dir ?rx" using sync by (simp add: in_sync_def)
  show ?thesis
  proof (cases rule: handle_data_elim [of dpdu rx zcrc])
    case known
    with sync1 show ?thesis by (simp add: send_ack_def)
  next
    case same
    have "rx_base dir recv_dir ?rx" using inv by (simp add: rx_inv_def rx_base_def)
    with store_packet_sync [OF this _ _ sync1] same(1) calm show ?thesis
      unfolding same(4) by (simp add: data_for_def)
  next
    case switched
    have inv1: "rx_inv dir recv_dir ?rx" and act: "r_transfer_active ?rx"
      using inv switched(1) by (simp_all add: data_for_def)
    have st: "state_ok recv_dir (r_state rx)" using rx_inv_active [OF inv] act by simp
    have exp: "expected_packets (r_state ?rx) ?ci = Some (d_total_packets dpdu)"
      using switched(1) by (simp add: data_for_def)
    have ci: "unat ?ci < length (js_chunk_done (r_state ?rx))"
      using chunk_index_small(1) [OF st] switched(1) by (simp add: data_for_def)
    with switched(2) have nd: "\<not> js_chunk_done (r_state ?rx) ! unat ?ci" by (simp add: chunk_finished_def)
    from switch_chunk_ok [OF inv1 act exp ci nd] obtain rx' where
      rx': "switch_chunk ?ci (d_total_packets dpdu) ?rx = Inr rx'" "rx_base dir recv_dir rx'"
        "chunk_open rx'" by blast
    have pl1: "pl_inv (r_packet_list ?rx)" using inv1 by (simp add: rx_inv_def rx_base_def)
    from switch_chunk_world [OF pl1 rx'(1)] sync1 calm
    have "in_sync dir rx'" "calm (r_world rx')" by (auto simp: in_sync_def calm_def)
    with store_packet_sync [OF rx'(2), of zcrc dpdu] rx'(1,3) show ?thesis
      unfolding switched(4) by (simp add: chunk_open_def)
  qed (use sync in simp_all)
qed

lemma start_transfer_sync:
  assumes inv: "rx_inv dir recv_dir rx" and len: "length (m_filename meta) = 256"
    and calm: "calm (r_world rx)" and acc: "accepted meta" "terminated (m_filename meta)"
  shows "in_sync dir (start_transfer meta rx)"
proof -
  let ?j = "journal_new dir" and ?s = "metadata_state recv_dir meta (r_state rx)"
  have j: "r_journal rx = ?j" and rd: "r_recv_dir rx = recv_dir"
    and d: "dirs_ok dir recv_dir" "arrays_ok (r_state rx)"
    using inv by (simp_all add: rx_inv_def rx_base_def)
  define w1 where "w1 = (if journal_exists ?j (r_world rx) then snd (journal_remove ?j (r_world rx))
    else r_world rx)"
  have "calm w1" using calm by (simp add: w1_def journal_remove_def calm_def)
  moreover have "js_fits ?s"
    using metadata_state_ok [OF d len acc(2)] acc(1) by (simp add: accepted_def state_ok_def)
  ultimately have "stored ?j (snd (journal_create ?j ?s w1)) = Some ?s"
    using jnl.create_stores [of w1 ?s dir] by auto
  moreover have "start_transfer meta rx = rx\<lparr>r_state := ?s, r_world := snd (journal_create ?j ?s w1),
      r_transfer_active := True, r_current_chunk_index := UINT32_MAX, r_max_chunk_seen := 0,
      r_packet_list := the (pl_clear (r_packet_list rx))\<rparr>"
    unfolding start_transfer_def Let_def j rd w1_def [symmetric] by simp
  ultimately show ?thesis by (simp add: in_sync_def)
qed

lemma handle_metadata_sync:
  assumes inv: "rx_inv dir recv_dir rx" and len: "length (m_filename meta) = 256"
    and calm: "calm (r_world rx)" and sync: "in_sync dir rx"
  shows "sync_outcome dir (handle_metadata meta rx)"
proof -
  have pl: "pl_inv (r_packet_list rx)" using inv by (simp add: rx_inv_def rx_base_def)
  show ?thesis
    using sync start_transfer_sync [OF inv len calm]
    unfolding handle_metadata_cases [OF pl] by (simp add: send_ack_def)
qed

lemma handle_eof_sync:
  assumes inv: "rx_inv dir recv_dir rx" and calm: "calm (r_world rx)" and sync: "in_sync dir rx"
  shows "sync_outcome dir (handle_eof zcrc eof rx)"
proof (cases "r_transfer_active rx \<and> e_transaction_id eof = js_transaction_id (r_state rx)")
  case False
  with sync show ?thesis by (auto simp: handle_eof_def)
next
  case True
  let ?j = "journal_new dir"
  define rx1 where "rx1 = (if \<not> js_eof_received (r_state rx) then
             in_world (\<lambda>w. snd (mark_eof_received (r_journal rx) w))
               (rx\<lparr>r_state := set_eof (r_state rx)\<rparr>)
           else rx)"
  have j: "r_journal rx = ?j" using inv by (simp add: rx_inv_def rx_base_def)
  have "stored ?j (r_world rx) = Some (r_state rx)" using sync True by (simp add: in_sync_def)
  from mark_eof_received_stored [OF paths_ok_new calm this]
  have "stored ?j (snd (mark_eof_received ?j (r_world rx))) = Some (set_eof (r_state rx))" by auto
  with sync have "in_sync dir rx1" by (simp add: rx1_def in_sync_def j)
  with True check_completion_sync show ?thesis
    by (simp add: handle_eof_def Let_def rx1_def)
qed

text \<open>With no system call refused, the journal is the transfer's state in memory, after any PDU.\<close>

lemma on_pdu_received_sync:
  assumes inv: "rx_inv dir recv_dir rx" and calm: "calm (r_world rx)" and sync: "in_sync dir rx"
    and run: "on_pdu_received zcrc raw rx = Inr rx'"
  shows "in_sync dir rx'" and "calm (r_world rx')"
proof -
  have "sync_outcome dir (handle_resume_query q rx)" for q
    using sync by (simp add: handle_resume_query_def Let_def)
  with handle_data_sync [OF inv calm sync] handle_eof_sync [OF inv calm sync]
    handle_metadata_sync [OF inv parse_metadata_filename calm sync] sync
  have "sync_outcome dir (on_pdu_received zcrc raw rx)"
    by (auto simp: on_pdu_received_def pdu_type_of_Some
        split: list.split option.split PduType.split)
  with run show "in_sync dir rx'" by simp
  have "journal_ok dir recv_dir (r_world rx)" using inv by (simp add: rx_inv_def rx_base_def)
  with effects_on_pdu_received [OF inv, of zcrc raw] run calm show "calm (r_world rx')"
    by (auto simp: effects_def calm_def ran_faults)
qed

text \<open>A process killed between two PDUs and started again has the state of the one before.\<close>

lemma boot_restores:
  assumes calm: "calm w" and st: "stored (journal_new dir) w = Some s"
    and arr: "arrays_ok memory"
    and trm: "terminated (js_filename s)"
    and more: "compute_missing_chunks s \<noteq> [] \<or> \<not> js_eof_received s"
  shows "\<exists>rx. on_boot zcrc (receiver_new dir recv_dir memory w) = Inr rx \<and>
    r_state rx = s \<and> r_transfer_active rx \<and> r_world rx = w \<and>
    r_current_chunk_index rx = UINT32_MAX \<and> r_max_chunk_seen rx = 0 \<and>
    pl_slots (r_packet_list rx) = []"
proof -
  obtain pl where pl: "pl_clear pl_new = Some pl" "pl_slots pl = []"
    using pls.clear_ok [of pl_new] by auto
  have "journal_exists (journal_new dir) w" by (rule jnl.stored_exists [OF st])
  moreover have "journal_load (journal_new dir) w memory = (True, s)"
    by (rule jnl.load_stored [OF calm st arr])
  ultimately show ?thesis
    using pl more trm by (auto simp: on_boot_def receiver_new_def Let_def)
qed

end
