(* ===== verification/Cfdp_Talk.thy ===== *)
theory Cfdp_Talk
  imports Cfdp_Replies Cfdp_Link Cfdp_Sync
begin

text \<open>
  Sender and receiver in conversation, in turns: the sender hears what has come back and goes on
  to its next \<open>recv\<close>; of what it sent, the PDUs at given positions arrive. The rounds in which a
  chunk is sent, asked for and acknowledged, the beginnings of a conversation (new receiver,
  rebooted receiver), and the states in which both sides wait for ever.
\<close>

section \<open>Turns\<close>

type_synonym talk = "phase \<times> bytes list \<times> CfdpReceiver"

definition answers :: "CfdpReceiver \<Rightarrow> CfdpReceiver \<Rightarrow> bytes list" where
  "answers rx rx' = drop (length (said rx)) (said rx')"

definition talk_start :: "zlib_crc32 \<Rightarrow> CfdpSender \<Rightarrow> bytes \<Rightarrow> string \<Rightarrow> int \<Rightarrow> CfdpReceiver \<Rightarrow> talk option" where
  "talk_start zcrc s file name c rx =
     (case send_start s file name c of (ph, out) \<Rightarrow>
        (case deliver zcrc out rx of
           Inl e \<Rightarrow> None
         | Inr rx' \<Rightarrow> Some (ph, answers rx rx', rx')))"

text \<open>\<open>arrive\<close> are the positions of the PDUs that are not lost.\<close>

definition turn :: "zlib_crc32 \<Rightarrow> CfdpSender \<Rightarrow> bytes \<Rightarrow> string \<Rightarrow> int \<Rightarrow> nat set \<Rightarrow> talk \<Rightarrow> talk option" where
  "turn zcrc s file name c arrive = (\<lambda>(ph, inbox, rx).
     case sender_step s file name c ph inbox of (ph', out, rest) \<Rightarrow>
       (case deliver zcrc (nths out arrive) rx of
          Inl e \<Rightarrow> None
        | Inr rx' \<Rightarrow> Some (ph', rest @ answers rx rx', rx')))"

fun turns :: "zlib_crc32 \<Rightarrow> CfdpSender \<Rightarrow> bytes \<Rightarrow> string \<Rightarrow> int \<Rightarrow> nat set list \<Rightarrow> talk \<Rightarrow> talk option" where
  "turns zcrc s file name c [] t = Some t"
| "turns zcrc s file name c (arrive # as) t =
     (case turn zcrc s file name c arrive t of None \<Rightarrow> None | Some t' \<Rightarrow> turns zcrc s file name c as t')"

lemma turns_append:
  "turns zcrc s file name c (xs @ ys) t =
     (case turns zcrc s file name c xs t of None \<Rightarrow> None | Some t' \<Rightarrow> turns zcrc s file name c ys t')"
  by (induction xs arbitrary: t) (auto split: option.split)

text \<open>
  The turns of a transfer in which of the first pass of chunk \<open>j\<close> the packets in \<open>K j\<close> arrive,
  with the \<open>Eof\<close>; what a NAK asks for arrives.
\<close>

definition chunk_turns :: "MetadataPdu \<Rightarrow> bytes \<Rightarrow> (nat \<Rightarrow> nat set) \<Rightarrow> nat \<Rightarrow> nat set list" where
  "chunk_turns m file K j =
     (let n = packets_in m file (of_nat j) in
      if {..<n} \<subseteq> K j then [insert n (K j)] else [insert n (K j), UNIV])"

definition transfer_turns :: "MetadataPdu \<Rightarrow> bytes \<Rightarrow> (nat \<Rightarrow> nat set) \<Rightarrow> nat \<Rightarrow> nat set list" where
  "transfer_turns m file K k =
     concat (map (chunk_turns m file K) [k..<unat (m_total_chunks m)]) @ [UNIV]"

section \<open>The sender's side of a turn\<close>

lemma hd_replies [simp]:
  "hd (ack_pdu a) = pdu_code Ack" "hd (serialize_nak nak) = pdu_code Nak"
  by (simp_all add: ack_pdu_def serialize_nak_def Let_def)

lemma ack_pdu_bytes: "ack_pdu a = pdu_code Ack # ack_image a" "length (ack_image a) = 8"
    "get32 5 (ack_pdu a) = a_chunk_index a"
  by (simp_all add: ack_pdu_def ack_image_def layout get32_skip)

lemma any_ack_replies [simp]:
  "any_ack c (ack_pdu a # ps) = (if uint (a_chunk_index a) = c then Some True else any_ack c ps)"
  "any_ack c (serialize_nak nak # ps) = any_ack c ps"
proof -
  show "any_ack c (ack_pdu a # ps) = (if uint (a_chunk_index a) = c then Some True else any_ack c ps)"
    using ack_pdu_bytes(2,3) [of a] unfolding ack_pdu_bytes(1) by simp
  show "any_ack c (serialize_nak nak # ps) = any_ack c ps"
    by (simp add: serialize_nak_def Let_def pdu_code.simps)
qed

lemma nths_upt: "nths [0..<n] K = filter (\<lambda>i. i \<in> K) [0..<n]"
  by (induction n) (simp_all add: nths_append)

lemma nths_pass:
  "nths (map f [0..<n] @ [x]) (insert n K) = map f (filter (\<lambda>i. i \<in> K) [0..<n]) @ [x]"
proof -
  have "filter (\<lambda>i. i \<in> insert n K) [0..<n] = filter (\<lambda>i. i \<in> K) [0..<n]"
    by (rule filter_cong) simp_all
  then show ?thesis by (simp add: nths_append nths_map nths_upt)
qed

text \<open>The head of the loop over the chunks.\<close>

lemma enter_chunk_sends:
  assumes ok: "sender_ok s file name" and c: "0 \<le> c" "c < 2 ^ 32"
    and ci: "ci < m_total_chunks (meta_of s file name (word_of_int c))"
  shows "enter_chunk s file c (uint ci) = (In_chunk (uint ci),
    map (item_pdu (meta_of s file name (word_of_int c)) file)
      (pass_of ci [0..<packets_in (meta_of s file name (word_of_int c)) file ci] @ [EofMark]))"
  using ci send_one_chunk_pass [OF ok ci] send_eof_item [OF ok c] total_chunks_uint [OF ok, of "word_of_int c"]
  by (simp add: enter_chunk_def go_def and_then_def word_less_def del: item_pdu.simps)

lemma sender_checksum:
  assumes "sender_ok s file name" and "zlib_streaming zcrc"
  shows "0 \<le> py_crc32_file zcrc file" "py_crc32_file zcrc file < 2 ^ 32"
    "crc32_file zcrc (Some file) = word_of_int (py_crc32_file zcrc file)"
proof -
  have "py_crc32_file zcrc file = uint (crc32_file zcrc (Some file))"
    using assms by (intro py_crc32_file) (simp_all add: sender_ok_def)
  then show "0 \<le> py_crc32_file zcrc file" "py_crc32_file zcrc file < 2 ^ 32"
    "crc32_file zcrc (Some file) = word_of_int (py_crc32_file zcrc file)"
    using uint_lt2p [of "crc32_file zcrc (Some file)"] by simp_all
qed

text \<open>What a time-out makes it send, and a \<open>Metadata\<close> that is no news.\<close>

lemma sender_timeout:
  assumes ok: "sender_ok s file name" and c: "0 \<le> c" "c < 2 ^ 32"
  shows "sender_step s file name c (In_chunk j) [] = (In_chunk j,
      [metadata_pdu (meta_of s file name (word_of_int c)),
       item_pdu (meta_of s file name (word_of_int c)) file EofMark], [])"
    "sender_step s file name c At_end [] =
      (At_end, [item_pdu (meta_of s file name (word_of_int c)) file EofMark], [])"
  using send_metadata_pdu [OF assms] send_eof_item [OF assms]
  by (simp_all add: chunk_step_def end_step_def go_def del: item_pdu.simps)

lemma metadata_again:
  assumes "describes m file" and "tracks dir recv_dir m file (Receiving k S e) rx"
  shows "on_pdu_received zcrc (metadata_pdu m) rx = Inr rx"
proof -
  have "r_transfer_active rx" "transfer_of recv_dir m (r_state rx)"
    using assms(2) by (auto simp: shows_progress_def honest_rx_def honest_core_def)
  then have "handle_metadata m rx = Inr rx" by (simp add: handle_metadata_def transfer_of_def)
  then show ?thesis using assms(1) by (simp add: on_pdu_received_metadata describes_def)
qed

text \<open>The ACK of chunk \<open>k\<close> is heard, alone or with the final one.\<close>

lemma sender_hears:
  assumes ok: "sender_ok s file name" and c: "0 \<le> c" "c < 2 ^ 32"
  defines "m \<equiv> meta_of s file name (word_of_int c)"
  assumes k: "k < unat (m_total_chunks m)"
  shows "sender_step s file name c (In_chunk (int k)) [ack_of m (of_nat k), ack_of m UINT32_MAX] = (Done, [], [])"
    and "Suc k < unat (m_total_chunks m) \<Longrightarrow>
      sender_step s file name c (In_chunk (int k)) [ack_of m (of_nat k)] = (In_chunk (int (Suc k)),
        map (item_pdu m file) (pass_of (of_nat (Suc k)) [0..<packets_in m file (of_nat (Suc k))] @ [EofMark]), [])"
    and "Suc k = unat (m_total_chunks m) \<Longrightarrow>
      sender_step s file name c (In_chunk (int k)) [ack_of m (of_nat k)] = (At_end, [], [])"
proof -
  have ki: "uint (of_nat k :: u32) = int k" using chunk_missing_index [OF k] by (simp add: uint_nat)
  have "unat (m_total_chunks m) \<le> 2 ^ 20" unfolding m_def by (rule describesD [OF describes_meta_of [OF ok]])
  with k have nf: "int k \<noteq> ACK_FINAL" by (simp add: ACK_FINAL_def)
  show "sender_step s file name c (In_chunk (int k)) [ack_of m (of_nat k), ack_of m UINT32_MAX] = (Done, [], [])"
    by (simp add: chunk_step_def ACK_FINAL_def)
  show "sender_step s file name c (In_chunk (int k)) [ack_of m (of_nat k)] = (In_chunk (int (Suc k)),
      map (item_pdu m file) (pass_of (of_nat (Suc k)) [0..<packets_in m file (of_nat (Suc k))] @ [EofMark]), [])"
    if "Suc k < unat (m_total_chunks m)"
  proof -
    note ci = chunk_missing_index [OF that]
    have "uint (of_nat (Suc k) :: u32) = int k + 1" using ci by (simp only: uint_nat)
    with enter_chunk_sends [OF ok c, of "of_nat (Suc k)"] ci nf ki show ?thesis
      by (simp add: chunk_step_def m_def del: item_pdu.simps of_nat_Suc upt_Suc)
  qed
  show "sender_step s file name c (In_chunk (int k)) [ack_of m (of_nat k)] = (At_end, [], [])"
    if "Suc k = unat (m_total_chunks m)"
  proof -
    have "total_chunks_of s file = int k + 1"
      unfolding total_chunks_uint [OF ok, of "word_of_int c"] uint_nat m_def [symmetric] that [symmetric] by simp
    with nf ki show ?thesis by (simp add: chunk_step_def enter_chunk_def)
  qed
qed

section \<open>A chunk\<close>

text \<open>Both sides at the start of chunk \<open>k\<close>, or with all acknowledged.\<close>

fun about :: "path \<Rightarrow> path \<Rightarrow> CfdpSender \<Rightarrow> bytes \<Rightarrow> string \<Rightarrow> int \<Rightarrow> nat \<Rightarrow> talk \<Rightarrow> bool" where
  "about dir recv_dir s file name c k (ph, inbox, rx) \<longleftrightarrow>
     (let m = meta_of s file name (word_of_int c); ci = of_nat k in
      sender_step s file name c ph inbox = (In_chunk (int k),
        map (item_pdu m file) (pass_of ci [0..<packets_in m file ci] @ [EofMark]), []) \<and>
      (\<exists>e. tracks dir recv_dir m file (Receiving k {} e) rx) \<and>
      r_current_chunk_index rx = UINT32_MAX \<and>
      (r_max_chunk_seen rx = 0 \<or> unat (r_max_chunk_seen rx) < k))"

fun finished :: "path \<Rightarrow> path \<Rightarrow> CfdpSender \<Rightarrow> bytes \<Rightarrow> string \<Rightarrow> int \<Rightarrow> talk \<Rightarrow> bool" where
  "finished dir recv_dir s file name c (ph, inbox, rx) \<longleftrightarrow>
     sender_step s file name c ph inbox = (Done, [], []) \<and>
     tracks dir recv_dir (meta_of s file name (word_of_int c)) file Complete rx"

lemma complete_on_disk:
  assumes "sender_ok s file name"
    and "tracks dir recv_dir (meta_of s file name (word_of_int c)) file Complete rx"
  shows "w_files (r_world rx) (recv_dir @ ascii ''/'' @ ascii name) = Some file \<and> \<not> r_transfer_active rx"
  using assms(2) by (simp add: dest_of_def meta_name [OF assms(1)])

lemma turn_completes:
  assumes dirs: "dirs_ok dir recv_dir" and ok: "sender_ok s file name"
    and c: "0 \<le> c" "c < 2 ^ 32" "crc32_file zcrc (Some file) = word_of_int c"
    and k: "k < unat (m_total_chunks (meta_of s file name (word_of_int c)))"
    and tr: "tracks dir recv_dir (meta_of s file name (word_of_int c)) file (Receiving k S e) rx"
    and "is": "distinct is" "set is \<inter> S = {}" "is \<noteq> []"
      "S \<union> set is = {..<packets_in (meta_of s file name (word_of_int c)) file (of_nat k)}"
    and seen: "unat (r_max_chunk_seen rx) \<le> k"
    and st: "sender_step s file name c ph inbox = (In_chunk (int k), out, [])"
    and out: "nths out arrive = map (item_pdu (meta_of s file name (word_of_int c)) file)
      (pass_of (of_nat k) is @ [EofMark])"
  shows "\<exists>t. turn zcrc s file name c arrive (ph, inbox, rx) = Some t \<and> fst t = In_chunk (int k) \<and>
    (if Suc k = unat (m_total_chunks (meta_of s file name (word_of_int c)))
     then finished dir recv_dir s file name c t else about dir recv_dir s file name c (Suc k) t)"
proof -
  define m where "m = meta_of s file name (word_of_int c)"
  define ci where "ci = (of_nat k :: u32)"
  have desc: "describes m file" unfolding m_def by (rule describes_meta_of [OF ok])
  have sum: "crc32_file zcrc (Some file) = m_checksum m" using c(3) by (simp add: m_def meta_of_def)
  note ci = chunk_missing_index [OF k, folded m_def ci_def]
  from pass_and_eof_said [OF dirs desc sum _ _ tr [folded m_def] "is"(1,2) _ "is"(3) seen, of ci] ci "is"(4)
  obtain rx' where
    rx': "deliver zcrc (nths out arrive) rx = Inr rx'"
      "tracks dir recv_dir m file (if Suc k = unat (m_total_chunks m) then Complete
        else Receiving (Suc k) {} True) rx'"
      "r_max_chunk_seen rx' = ci" "r_current_chunk_index rx' = UINT32_MAX"
      "said rx' = said rx @ ack_of m ci # (if Suc k = unat (m_total_chunks m) then [ack_of m UINT32_MAX] else [])"
    unfolding out m_def [symmetric] ci_def [symmetric] by blast
  note hears = sender_hears [OF ok c(1,2) k, folded m_def ci_def]
  let ?inbox = "ack_of m ci # (if Suc k = unat (m_total_chunks m) then [ack_of m UINT32_MAX] else [])"
  have run: "turn zcrc s file name c arrive (ph, inbox, rx) = Some (In_chunk (int k), ?inbox, rx')"
    using st rx'(1,5) by (simp add: turn_def answers_def)
  show ?thesis
  proof (cases "Suc k = unat (m_total_chunks m)")
    case True
    then have "sender_step s file name c (In_chunk (int k)) ?inbox = (Done, [], [])"
      using hears(1) by (simp only: if_True refl simp_thms)
    moreover have "tracks dir recv_dir m file Complete rx'" using rx'(2) unfolding if_P [OF True] .
    ultimately have "finished dir recv_dir s file name c (In_chunk (int k), ?inbox, rx')"
      unfolding finished.simps m_def [symmetric] by blast
    with run show ?thesis unfolding m_def [symmetric] if_P [OF True] by (metis fst_conv)
  next
    case False
    with k have k1: "Suc k < unat (m_total_chunks m)" by (simp add: m_def)
    have "sender_step s file name c (In_chunk (int k)) ?inbox =
        (In_chunk (int (Suc k)), map (item_pdu m file)
          (pass_of (of_nat (Suc k)) [0..<packets_in m file (of_nat (Suc k))] @ [EofMark]), [])"
      using hears(2) k1 False by (simp only: m_def [symmetric] if_False)
    moreover have "tracks dir recv_dir m file (Receiving (Suc k) {} True) rx'"
      using rx'(2) unfolding if_not_P [OF False] .
    moreover have "unat (r_max_chunk_seen rx') < Suc k" using rx'(3) ci by simp
    moreover note rx'(4)
    ultimately have "about dir recv_dir s file name c (Suc k) (In_chunk (int k), ?inbox, rx')"
      unfolding about.simps Let_def m_def [symmetric] by blast
    with run show ?thesis unfolding m_def [symmetric] if_not_P [OF False] by (metis fst_conv)
  qed
qed

text \<open>A round for chunk \<open>k\<close>: its packets at once, or those that got through, a NAK, and the rest.\<close>

lemma chunk_round:
  assumes dirs: "dirs_ok dir recv_dir" and ok: "sender_ok s file name"
    and c: "0 \<le> c" "c < 2 ^ 32" "crc32_file zcrc (Some file) = word_of_int c"
    and k: "k < unat (m_total_chunks (meta_of s file name (word_of_int c)))"
    and ab: "about dir recv_dir s file name c k t"
    and some: "K k \<inter> {..<packets_in (meta_of s file name (word_of_int c)) file (of_nat k)} \<noteq> {}"
  shows "\<exists>t'. turns zcrc s file name c (chunk_turns (meta_of s file name (word_of_int c)) file K k) t = Some t' \<and>
    fst t' = In_chunk (int k) \<and>
    (if Suc k = unat (m_total_chunks (meta_of s file name (word_of_int c)))
     then finished dir recv_dir s file name c t' else about dir recv_dir s file name c (Suc k) t')"
proof -
  define m where "m = meta_of s file name (word_of_int c)"
  define ci where "ci = (of_nat k :: u32)"
  define n where "n = packets_in m file ci"
  define ks where "ks = filter (\<lambda>i. i \<in> K k) [0..<n]"
  have desc: "describes m file" unfolding m_def by (rule describes_meta_of [OF ok])
  have sum: "crc32_file zcrc (Some file) = m_checksum m" using c(3) by (simp add: m_def meta_of_def)
  note ci = chunk_missing_index [OF k, folded m_def ci_def]
  let ?out = "map (item_pdu m file) (pass_of ci [0..<n] @ [EofMark])"
  obtain ph inbox rx e where t: "t = (ph, inbox, rx)"
    and st: "sender_step s file name c ph inbox = (In_chunk (int k), ?out, [])"
    and tr: "tracks dir recv_dir m file (Receiving k {} e) rx"
    and seen: "unat (r_max_chunk_seen rx) \<le> k"
    using ab by (cases t) (auto simp: Let_def m_def ci_def n_def simp del: tracks.simps)
  have "?out = map (\<lambda>i. item_pdu m file (Arrives ci i)) [0..<n] @ [item_pdu m file EofMark]"
    by (simp add: pass_of_def del: item_pdu.simps)
  then have out: "nths ?out (insert n (K k)) = map (item_pdu m file) (pass_of ci ks @ [EofMark])"
    by (simp add: nths_pass ks_def pass_of_def del: item_pdu.simps)
  have ks: "distinct ks" "set ks = K k \<inter> {..<n}" "ks \<noteq> []"
    using some by (auto simp: ks_def n_def m_def ci_def filter_empty_conv)
  note step = turn_completes [OF dirs ok c k, folded m_def, folded ci_def, folded n_def]
  show ?thesis
  proof (cases "{..<n} \<subseteq> K k")
    case True
    then have all: "{} \<union> set ks = {..<n}" "set ks \<inter> {} = {}" using ks(2) by auto
    from step [OF tr ks(1) all(2) ks(3) all(1) seen st out] obtain t' where
      t': "turn zcrc s file name c (insert n (K k)) (ph, inbox, rx) = Some t'" "fst t' = In_chunk (int k)"
        "if Suc k = unat (m_total_chunks m) then finished dir recv_dir s file name c t'
         else about dir recv_dir s file name c (Suc k) t'" by blast
    have "chunk_turns m file K k = [insert n (K k)]"
      using True by (simp add: chunk_turns_def Let_def n_def [symmetric] ci_def [symmetric])
    with t' show ?thesis unfolding m_def [symmetric] t by simp
  next
    case False
    have "set ks \<subseteq> {..<n}" "\<not> {..<n} \<subseteq> {} \<union> set ks" using ks(2) False by auto
    from part_said [OF dirs desc sum _ _ tr this [unfolded n_def] seen] ci obtain rx1 where
      rx1: "deliver zcrc (map (item_pdu m file) (pass_of ci ks)) rx = Inr rx1"
        "tracks dir recv_dir m file (Receiving k (set ks) e) rx1"
        "unat (r_max_chunk_seen rx1) \<le> k" "said rx1 = said rx" by auto
    from eof_asks [OF dirs ok c(3) rx1(2) [unfolded m_def] in_progress [OF rx1(2)]] ks(3) obtain rx2 nak "is" where
      rx2: "on_pdu_received zcrc (item_pdu m file EofMark) rx1 = Inr rx2"
        "tracks dir recv_dir m file (Receiving k (set ks) True) rx2"
        "r_max_chunk_seen rx2 = r_max_chunk_seen rx1" "said rx2 = said rx1 @ [serialize_nak nak]"
      and "is": "distinct is" "set is \<inter> set ks = {}" "set ks \<union> set is = {..<n}" "is \<noteq> []"
      and nak: "on_nak s file (tl (serialize_nak nak)) = (map (item_pdu m file) (pass_of ci is), True)"
      unfolding m_def [symmetric] ci_def [symmetric] n_def [symmetric] by auto
    let ?t1 = "(In_chunk (int k), [serialize_nak nak], rx2)"
    have t1: "turn zcrc s file name c (insert n (K k)) (ph, inbox, rx) = Some ?t1"
      using st out rx1(1,4) rx2(1,4)
      by (simp add: turn_def answers_def deliver_append del: item_pdu.simps)
    let ?again = "map (item_pdu m file) (pass_of ci is @ [EofMark])"
    have st2: "sender_step s file name c (In_chunk (int k)) [serialize_nak nak] = (In_chunk (int k), ?again, [])"
      using nak send_eof_item [OF ok c(1,2), folded m_def]
      by (simp add: chunk_step_def latest_nak_def go_def and_then_def del: item_pdu.simps)
    have all: "nths ?again UNIV = ?again" by (rule nths_all) simp
    have seen2: "unat (r_max_chunk_seen rx2) \<le> k" using rx2(3) rx1(3) by simp
    obtain t' where
      t': "turn zcrc s file name c UNIV ?t1 = Some t'" "fst t' = In_chunk (int k)"
        "if Suc k = unat (m_total_chunks m) then finished dir recv_dir s file name c t'
         else about dir recv_dir s file name c (Suc k) t'"
      using step [OF rx2(2) "is"(1,2,4,3) seen2 st2 all] by blast
    have "chunk_turns m file K k = [insert n (K k), UNIV]"
      using False by (simp add: chunk_turns_def Let_def n_def [symmetric] ci_def [symmetric])
    with t1 t' show ?thesis unfolding m_def [symmetric] t by simp
  qed
qed

section \<open>A transfer\<close>

lemma chunks_round:
  assumes dirs: "dirs_ok dir recv_dir" and ok: "sender_ok s file name"
    and c: "0 \<le> c" "c < 2 ^ 32" "crc32_file zcrc (Some file) = word_of_int c"
    and k: "k < unat (m_total_chunks (meta_of s file name (word_of_int c)))"
    and ab: "about dir recv_dir s file name c k t"
    and some: "\<forall>j < unat (m_total_chunks (meta_of s file name (word_of_int c))). k \<le> j \<longrightarrow>
      K j \<inter> {..<packets_in (meta_of s file name (word_of_int c)) file (of_nat j)} \<noteq> {}"
  shows "\<exists>rx. turns zcrc s file name c (transfer_turns (meta_of s file name (word_of_int c)) file K k) t =
      Some (Done, [], rx) \<and>
    tracks dir recv_dir (meta_of s file name (word_of_int c)) file Complete rx"
  using k ab some
proof (induction "unat (m_total_chunks (meta_of s file name (word_of_int c))) - k" arbitrary: k t)
  case 0
  then show ?case by simp
next
  case (Suc d)
  let ?m = "meta_of s file name (word_of_int c)"
  have upt: "[k..<unat (m_total_chunks ?m)] = k # [Suc k..<unat (m_total_chunks ?m)]"
    using Suc.prems(1) by (rule upt_conv_Cons)
  from chunk_round [OF dirs ok c Suc.prems(1,2), of K] Suc.prems(1,3) obtain t' where
    t': "turns zcrc s file name c (chunk_turns ?m file K k) t = Some t'"
      "if Suc k = unat (m_total_chunks ?m) then finished dir recv_dir s file name c t'
       else about dir recv_dir s file name c (Suc k) t'" by blast
  have run: "turns zcrc s file name c (transfer_turns ?m file K k) t =
      turns zcrc s file name c (transfer_turns ?m file K (Suc k)) t'"
    unfolding transfer_turns_def upt using t'(1) by (simp add: turns_append)
  show ?case
  proof (cases "Suc k = unat (m_total_chunks ?m)")
    case True
    obtain ph inbox rx where p: "t' = (ph, inbox, rx)" by (cases t')
    have "transfer_turns ?m file K (Suc k) = [UNIV]" using True by (simp add: transfer_turns_def)
    then show ?thesis
      unfolding run using t'(2) unfolding if_P [OF True] p finished.simps
      by (intro exI [of _ rx]) (simp add: turn_def answers_def del: tracks.simps)
  next
    case False
    then have "Suc k < unat (m_total_chunks ?m)" using Suc.prems(1) by simp
    from Suc.hyps(1) [OF _ this t'(2) [unfolded if_not_P [OF False]]] Suc.hyps(2) Suc.prems(3)
    show ?thesis unfolding run by simp
  qed
qed

text \<open>The start: the receiver is new, or has the transfer already, with all chunks before \<open>k\<close>.\<close>

lemma first_missing_answer:
  assumes tr: "tracks dir recv_dir m file (Receiving k {} e) rx" and k: "k < unat (m_total_chunks m)"
  shows "handle_resume_query \<lparr>q_transaction_id = m_transaction_id m\<rparr> rx = Inr (transport_send
    (resume_info_pdu \<lparr>i_transaction_id = m_transaction_id m, i_first_missing_chunk = of_nat k\<rparr>) rx)"
proof -
  let ?s = "r_state rx"
  have t: "transfer_of recv_dir m ?s" and act: "r_transfer_active rx"
    and fin: "\<forall>ci < m_total_chunks m. chunk_finished ?s ci \<longleftrightarrow> unat ci < k"
    using tr by (auto simp: honest_rx_def honest_core_def shows_progress_def)
  have miss: "chunk_missing ?s i \<longleftrightarrow> k \<le> i" if "i < unat (m_total_chunks m)" for i
    using chunk_missing_index [OF that] fin [rule_format, of "of_nat i"]
    by (auto simp: chunk_missing_def chunk_finished_def)
  have total: "js_total_chunks ?s = m_total_chunks m" using t by (simp add: transfer_of_def)
  have "compute_missing_chunks ?s \<noteq> []"
    using miss [OF k] k total by (auto simp: compute_missing_Nil_iff)
  then obtain r rs where r: "compute_missing_chunks ?s = r # rs" by (cases "compute_missing_chunks ?s") auto
  have "k \<le> unat (fst r)" using missing_range_starts [of r ?s] miss total r by simp
  moreover have "\<not> k < unat (fst r)" using miss [OF k] compute_missing_least [OF r, of k] k total by auto
  ultimately have "unat (fst r) = k" by simp
  then have "fst r = of_nat k" by (metis unat_inverse)
  with r act t show ?thesis by (simp add: handle_resume_query_def Let_def transfer_of_def)
qed

lemma talk_begins:
  assumes dirs: "dirs_ok dir recv_dir" and ok: "sender_ok s file name"
    and c: "0 \<le> c" "c < 2 ^ 32"
    and k: "k < unat (m_total_chunks (meta_of s file name (word_of_int c)))"
    and rx1: "on_pdu_received zcrc (metadata_pdu (meta_of s file name (word_of_int c))) rx = Inr rx1"
      "tracks dir recv_dir (meta_of s file name (word_of_int c)) file (Receiving k {} e) rx1"
      "said rx1 = said rx"
    and seen: "r_current_chunk_index rx1 = UINT32_MAX" "r_max_chunk_seen rx1 = 0 \<or> unat (r_max_chunk_seen rx1) < k"
  shows "\<exists>t. talk_start zcrc s file name c rx = Some t \<and> about dir recv_dir s file name c k t"
proof -
  define m where "m = meta_of s file name (word_of_int c)"
  define ci where "ci = (of_nat k :: u32)"
  note ci = chunk_missing_index [OF k, folded m_def ci_def]
  have ki: "uint ci = int k" using ci by (simp add: uint_nat)
  have tid: "word_of_int (t_tid s) = m_transaction_id m" by (simp add: m_def meta_of_def)
  let ?q = "\<lparr>q_transaction_id = m_transaction_id m\<rparr>"
  let ?i = "resume_info_pdu \<lparr>i_transaction_id = m_transaction_id m, i_first_missing_chunk = ci\<rparr>"
  have start: "send_start s file name c = (Querying 0, [metadata_pdu m, resume_query_pdu ?q])"
    using ok send_metadata_pdu [OF ok c] resume_query_bytes [OF ok]
    by (simp add: send_start_def go_def sender_ok_def m_def tid [unfolded m_def])
  note reply = first_missing_answer [OF rx1(2) k, folded m_def ci_def]
  obtain i where i: "on_pdu_received zcrc (resume_query_pdu ?q) rx1 = Inr (transport_send (resume_info_pdu i) rx1)"
    "handle_resume_query ?q rx1 = Inr (transport_send (resume_info_pdu i) rx1)"
    "tracks dir recv_dir m file (Receiving k {} e) (transport_send (resume_info_pdu i) rx1)"
    using tracks_resume_query [OF rx1(2)] unfolding m_def by blast
  have same: "transport_send (resume_info_pdu i) rx1 = transport_send ?i rx1" using i(2) reply by simp
  have said: "said (transport_send ?i rx1) = said rx @ [?i]" using rx1(3) by (simp add: said_def)
  then have run: "talk_start zcrc s file name c rx = Some (Querying 0, [?i], transport_send ?i rx1)"
    using start rx1(1) i(1) same by (simp add: talk_start_def answers_def m_def)
  have "length ?i = 9" "hd ?i = pdu_code ResumeInfo" "get32 1 ?i = m_transaction_id m" "get32 5 ?i = ci"
    by (simp_all add: resume_info_pdu_def resume_info_image_def layout get32_skip)
  moreover have "uint (m_transaction_id m) = t_tid s"
    using ok tid by (simp add: sender_ok_def unsigned_of_int take_bit_int_eq_self flip: tid)
  ultimately have "resume_reply s (Some ?i) = Some (uint ci)" by (simp add: resume_reply_def)
  moreover have "uint ci \<noteq> 0xFFFFFFFF"
  proof -
    have "unat (m_total_chunks m) \<le> 2 ^ 20" unfolding m_def by (rule describesD [OF describes_meta_of [OF ok]])
    with k show ?thesis by (simp add: ki m_def)
  qed
  ultimately have "sender_step s file name c (Querying 0) [?i] = (In_chunk (int k),
      map (item_pdu m file) (pass_of ci [0..<packets_in m file ci] @ [EofMark]), [])"
    using enter_chunk_sends [OF ok c, of ci] ci ki
    by (simp add: query_step_def m_def del: item_pdu.simps)
  then have "about dir recv_dir s file name c k (Querying 0, [?i], transport_send ?i rx1)"
    using i(3) seen unfolding same about.simps Let_def m_def [symmetric] ci_def [symmetric] by auto
  with run show ?thesis by blast
qed

lemma talk_begins_new:
  assumes dirs: "dirs_ok dir recv_dir" and ok: "sender_ok s file name"
    and c: "0 \<le> c" "c < 2 ^ 32"
    and w: "calm w" "w_log w = []" "w_files w (j_state_path (journal_new dir)) = None"
      "w_files w (recv_dir @ ascii ''/'' @ ascii name) = None" and arr: "arrays_ok memory"
  shows "\<exists>t. talk_start zcrc s file name c (receiver_new dir recv_dir memory w) = Some t \<and>
    about dir recv_dir s file name c 0 t"
proof -
  let ?m = "meta_of s file name (word_of_int c)" and ?rx = "receiver_new dir recv_dir memory w"
  have desc: "describes ?m file" by (rule describes_meta_of [OF ok])
  have fits: "metadata_fits ?m" and acc: "accepted ?m" "terminated (m_filename ?m)" "m_transaction_id ?m \<noteq> 0"
    using desc by (simp_all add: describes_def)
  have "not_longer recv_dir ?m file (w_files w)"
    using w(4) by (simp add: not_longer_def dest_of_def meta_name [OF ok])
  from new_process_honest(2) [OF dirs desc w(2,3) this arr]
  have hon: "honest_rx dir recv_dir ?m file ?rx" .
  have calm: "calm (r_world ?rx)" using w(1) by (simp add: receiver_new_def)
  have idle: "\<not> r_transfer_active ?rx" "r_last_acked_id ?rx \<noteq> m_transaction_id ?m"
    using acc(3) by (simp_all add: receiver_new_def)
  from start_tracks [OF dirs desc hon calm idle, of zcrc] obtain rx1 where
    rx1: "on_pdu_received zcrc (metadata_pdu ?m) ?rx = Inr rx1"
      "tracks dir recv_dir ?m file (Receiving 0 {} False) rx1" by blast
  have pl: "pl_inv (r_packet_list ?rx)" using hon by (simp add: honest_rx_def rx_inv_def rx_base_def)
  have "rx1 = start_transfer ?m ?rx"
    using rx1(1) idle acc by (simp add: on_pdu_received_metadata [OF fits] handle_metadata_cases [OF pl])
  then have rest: "said rx1 = said ?rx" "r_current_chunk_index rx1 = UINT32_MAX" "r_max_chunk_seen rx1 = 0"
    by (simp_all add: start_transfer_def Let_def said_def)
  have "0 < unat (m_total_chunks ?m)" using acc(1) by (simp add: accepted_def word_less_nat_alt)
  from talk_begins [OF dirs ok c this rx1 rest(1,2) disjI1 [OF rest(3)]] show ?thesis .
qed

text \<open>A receiver that was started again on the disk of a transfer.\<close>

lemma boot_tracks:
  assumes dirs: "dirs_ok dir recv_dir" and desc: "describes m file"
    and tr: "tracks dir recv_dir m file (Receiving k S e) rx" and sync: "in_sync dir rx"
    and k: "k < unat (m_total_chunks m)" and arr: "arrays_ok memory"
  shows "\<exists>rx'. on_boot zcrc (receiver_new dir recv_dir memory (r_world rx)) = Inr rx' \<and>
    tracks dir recv_dir m file (Receiving k {} e) rx' \<and>
    r_current_chunk_index rx' = UINT32_MAX \<and> r_max_chunk_seen rx' = 0"
proof -
  have h: "calm (r_world rx)" "stored (journal_new dir) (r_world rx) = Some (r_state rx)"
    "terminated (js_filename (r_state rx))" "transfer_of recv_dir m (r_state rx)"
    "honest_world dir recv_dir m file (w_log (r_world rx)) (w_files (r_world rx))"
    "\<forall>ci < m_total_chunks m. chunk_finished (r_state rx) ci \<longleftrightarrow> unat ci < k"
    using tr sync by (auto simp: in_sync_def shows_progress_def honest_rx_def honest_core_def transfer_of_def)
  have "compute_missing_chunks (r_state rx) \<noteq> []"
    using h(6) chunk_missing_index [OF k] by (auto simp: missing_iff_finished [OF h(4)])
  then obtain rx' where rx': "on_boot zcrc (receiver_new dir recv_dir memory (r_world rx)) = Inr rx'"
    "r_state rx' = r_state rx" "r_transfer_active rx'" "r_world rx' = r_world rx"
    "r_current_chunk_index rx' = UINT32_MAX" "r_max_chunk_seen rx' = 0"
    using boot_restores [OF h(1,2) arr h(3) disjI1] by blast
  have "honest_rx dir recv_dir m file rx'"
    using boot_honest [OF dirs desc h(5) arr, of zcrc] rx'(1) by auto
  with rx' tr show ?thesis by (simp add: shows_progress_def)
qed

lemma talk_begins_again:
  assumes dirs: "dirs_ok dir recv_dir" and ok: "sender_ok s file name"
    and c: "0 \<le> c" "c < 2 ^ 32"
    and tr: "tracks dir recv_dir (meta_of s file name (word_of_int c)) file (Receiving k {} e) rx"
    and k: "k < unat (m_total_chunks (meta_of s file name (word_of_int c)))"
    and rx: "r_current_chunk_index rx = UINT32_MAX" "r_max_chunk_seen rx = 0"
  shows "\<exists>t. talk_start zcrc s file name c rx = Some t \<and> about dir recv_dir s file name c k t"
  by (rule talk_begins [OF dirs ok c k metadata_again [OF describes_meta_of [OF ok] tr] tr refl rx(1)])
    (simp add: rx(2))

lemma deliver_sync:
  assumes "rx_inv dir recv_dir rx" and "calm (r_world rx)" and "in_sync dir rx"
    and "deliver zcrc raws rx = Inr rx'"
  shows "in_sync dir rx' \<and> rx_inv dir recv_dir rx' \<and> calm (r_world rx')"
  using assms
proof (induction raws arbitrary: rx)
  case Nil
  then show ?case by simp
next
  case (Cons raw raws)
  then obtain rx1 where rx1: "on_pdu_received zcrc raw rx = Inr rx1" "deliver zcrc raws rx1 = Inr rx'"
    by (auto split: sum.splits)
  have "rx_inv dir recv_dir rx1" using on_pdu_received_ok [OF Cons.prems(1), of raw zcrc] rx1 by simp
  with on_pdu_received_sync [OF Cons.prems(1-3) rx1(1)] rx1(2) Cons.IH show ?case by blast
qed

text \<open>A session cut off at some point by the end of the receiver's process.\<close>

lemma session_cut_off:
  assumes dirs: "dirs_ok dir recv_dir" and desc: "describes m file"
    and sum: "crc32_file zcrc (Some file) = m_checksum m"
    and w: "calm w" "w_log w = []" "w_files w (j_state_path (journal_new dir)) = None"
      "w_files w (recv_dir @ ascii ''/'' @ cstr (m_filename m)) = None"
    and arr: "arrays_ok memory" "arrays_ok memory'"
    and its: "items_ok m file (Receiving 0 {} False) items"
      "foldl (progress_step m file) (Receiving 0 {} False) items = Receiving k S e"
    and k: "k < unat (m_total_chunks m)"
  shows "\<exists>rx rx'. deliver zcrc (metadata_pdu m # map (item_pdu m file) items)
      (receiver_new dir recv_dir memory w) = Inr rx \<and>
    on_boot zcrc (receiver_new dir recv_dir memory' (r_world rx)) = Inr rx' \<and>
    tracks dir recv_dir m file (Receiving k {} e) rx' \<and>
    r_current_chunk_index rx' = UINT32_MAX \<and> r_max_chunk_seen rx' = 0"
proof -
  let ?rx = "receiver_new dir recv_dir memory w"
  have "not_longer recv_dir m file (w_files w)" using w(4) by (simp add: not_longer_def dest_of_def)
  from new_process_honest(2) [OF dirs desc w(2,3) this arr(1)]
  have hon: "honest_rx dir recv_dir m file ?rx" .
  obtain rx0 where rx0: "on_pdu_received zcrc (metadata_pdu m) ?rx = Inr rx0"
      "tracks dir recv_dir m file (Receiving 0 {} False) rx0"
    using start_tracks [OF dirs desc hon] w(1) desc by (auto simp: receiver_new_def describes_def)
  from deliver_tracks [OF dirs desc sum rx0(2) its(1)] rx0(1) obtain rx where
    rx: "deliver zcrc (metadata_pdu m # map (item_pdu m file) items) ?rx = Inr rx"
      "tracks dir recv_dir m file (Receiving k S e) rx"
    unfolding its(2) by (auto simp del: tracks.simps item_pdu.simps)
  have "rx_inv dir recv_dir ?rx" "calm (r_world ?rx)" "in_sync dir ?rx"
    using hon w(1) by (simp_all add: honest_rx_def) (simp_all add: receiver_new_def)
  from deliver_sync [OF this rx(1)] have "in_sync dir rx" by blast
  from boot_tracks [OF dirs desc rx(2) this k arr(2)] rx(1) show ?thesis by blast
qed

section \<open>Waiting for ever\<close>

text \<open>
  The receiver stands between two chunks and has seen no packet of the next one; the sender waits
  for the ACK of some chunk. Each time-out sends \<open>Metadata\<close> and \<open>Eof\<close>, and changes nothing.
\<close>

definition at_rest :: "path \<Rightarrow> path \<Rightarrow> MetadataPdu \<Rightarrow> bytes \<Rightarrow> nat \<Rightarrow> CfdpReceiver \<Rightarrow> bool" where
  "at_rest dir recv_dir m file k rx \<longleftrightarrow>
     (\<exists>e. tracks dir recv_dir m file (Receiving k {} e) rx) \<and> k < unat (m_total_chunks m) \<and>
     r_current_chunk_index rx = UINT32_MAX \<and> unat (r_max_chunk_seen rx) < k"

lemma eof_at_rest:
  assumes "dirs_ok dir recv_dir" and "describes m file" and "crc32_file zcrc (Some file) = m_checksum m"
    and rest: "at_rest dir recv_dir m file k rx"
  shows "\<exists>rx'. on_pdu_received zcrc (item_pdu m file EofMark) rx = Inr rx' \<and>
    at_rest dir recv_dir m file k rx' \<and> said rx' = said rx"
proof -
  obtain e where tr: "tracks dir recv_dir m file (Receiving k {} e) rx"
    using rest by (auto simp: at_rest_def)
  have r: "r_current_chunk_index rx = UINT32_MAX" "unat (r_max_chunk_seen rx) < k"
    "k < unat (m_total_chunks m)"
    using rest by (simp_all add: at_rest_def)
  from eof_idle [OF assms(1-3) tr r(1,2)] r(3) obtain rx' where
    "on_pdu_received zcrc (item_pdu m file EofMark) rx = Inr rx'"
    "tracks dir recv_dir m file (Receiving k {} True) rx'" "r_max_chunk_seen rx' = r_max_chunk_seen rx"
    "r_current_chunk_index rx' = UINT32_MAX" "said rx' = said rx"
    by (auto simp del: item_pdu.simps tracks.simps)
  with r show ?thesis unfolding at_rest_def by auto
qed

lemma timeout_at_rest:
  assumes dirs: "dirs_ok dir recv_dir" and ok: "sender_ok s file name"
    and c: "0 \<le> c" "c < 2 ^ 32" "crc32_file zcrc (Some file) = word_of_int c"
    and rest: "at_rest dir recv_dir (meta_of s file name (word_of_int c)) file k rx"
  shows "\<exists>rx'. turn zcrc s file name c UNIV (In_chunk j, [], rx) = Some (In_chunk j, [], rx') \<and>
    at_rest dir recv_dir (meta_of s file name (word_of_int c)) file k rx' \<and> said rx' = said rx"
proof -
  define m where "m = meta_of s file name (word_of_int c)"
  have desc: "describes m file" unfolding m_def by (rule describes_meta_of [OF ok])
  have sum: "crc32_file zcrc (Some file) = m_checksum m" using c(3) by (simp add: m_def meta_of_def)
  have meta: "on_pdu_received zcrc (metadata_pdu m) rx = Inr rx"
    using rest metadata_again [OF desc] unfolding at_rest_def m_def by blast
  from eof_at_rest [OF dirs desc sum rest [folded m_def]] obtain rx' where
    rx': "on_pdu_received zcrc (item_pdu m file EofMark) rx = Inr rx'"
      "at_rest dir recv_dir m file k rx'" "said rx' = said rx" by blast
  have "turn zcrc s file name c UNIV (In_chunk j, [], rx) = Some (In_chunk j, [], rx')"
    using sender_timeout(1) [OF ok c(1,2), folded m_def] meta rx'(1,3)
    by (simp add: turn_def answers_def nths_all del: item_pdu.simps sender_step.simps)
  with rx'(2,3) show ?thesis unfolding m_def by blast
qed

lemma timeouts_at_rest:
  assumes "dirs_ok dir recv_dir" and "sender_ok s file name"
    and "0 \<le> c" and "c < 2 ^ 32" and "crc32_file zcrc (Some file) = word_of_int c"
    and "at_rest dir recv_dir (meta_of s file name (word_of_int c)) file k rx"
  shows "\<exists>rx'. turns zcrc s file name c (replicate n UNIV) (In_chunk j, [], rx) = Some (In_chunk j, [], rx') \<and>
    said rx' = said rx"
  using assms(6)
proof (induction n arbitrary: rx)
  case (Suc n)
  from timeout_at_rest [OF assms(1-5) Suc.prems] obtain rx1 where
    rx1: "turn zcrc s file name c UNIV (In_chunk j, [], rx) = Some (In_chunk j, [], rx1)"
      "at_rest dir recv_dir (meta_of s file name (word_of_int c)) file k rx1" "said rx1 = said rx" by blast
  from Suc.IH [OF rx1(2)] rx1(1,3) show ?case by simp
qed simp

text \<open>Up to a chunk; and a first pass of which only the \<open>Eof\<close> arrives.\<close>

lemma chunks_before:
  assumes dirs: "dirs_ok dir recv_dir" and ok: "sender_ok s file name"
    and c: "0 \<le> c" "c < 2 ^ 32" "crc32_file zcrc (Some file) = word_of_int c"
    and ab: "about dir recv_dir s file name c 0 t"
    and some: "\<forall>j < k. K j \<inter> {..<packets_in (meta_of s file name (word_of_int c)) file (of_nat j)} \<noteq> {}"
    and k: "k < unat (m_total_chunks (meta_of s file name (word_of_int c)))"
  shows "\<exists>t'. turns zcrc s file name c
      (concat (map (chunk_turns (meta_of s file name (word_of_int c)) file K) [0..<k])) t = Some t' \<and>
    about dir recv_dir s file name c k t' \<and> (0 < k \<longrightarrow> fst t' = In_chunk (int k - 1))"
  using some k
proof (induction k)
  case (Suc k)
  then obtain t1 where t1: "turns zcrc s file name c
      (concat (map (chunk_turns (meta_of s file name (word_of_int c)) file K) [0..<k])) t = Some t1"
      "about dir recv_dir s file name c k t1" by auto
  have k: "k < unat (m_total_chunks (meta_of s file name (word_of_int c)))" using Suc.prems(2) by simp
  from chunk_round [OF dirs ok c k t1(2), of K] Suc.prems t1(1) show ?case
    by (auto simp: turns_append)
qed (use ab in simp)

lemma pass_lost:
  assumes dirs: "dirs_ok dir recv_dir" and ok: "sender_ok s file name"
    and c: "0 \<le> c" "c < 2 ^ 32" "crc32_file zcrc (Some file) = word_of_int c"
    and k: "0 < k" "k < unat (m_total_chunks (meta_of s file name (word_of_int c)))"
    and ab: "about dir recv_dir s file name c k t"
  shows "\<exists>rx. turn zcrc s file name c {packets_in (meta_of s file name (word_of_int c)) file (of_nat k)} t =
      Some (In_chunk (int k), [], rx) \<and>
    at_rest dir recv_dir (meta_of s file name (word_of_int c)) file k rx"
proof -
  define m where "m = meta_of s file name (word_of_int c)"
  define ci where "ci = (of_nat k :: u32)"
  define n where "n = packets_in m file ci"
  have desc: "describes m file" unfolding m_def by (rule describes_meta_of [OF ok])
  have sum: "crc32_file zcrc (Some file) = m_checksum m" using c(3) by (simp add: m_def meta_of_def)
  let ?out = "map (item_pdu m file) (pass_of ci [0..<n] @ [EofMark])"
  obtain ph inbox rx where t: "t = (ph, inbox, rx)"
    and st: "sender_step s file name c ph inbox = (In_chunk (int k), ?out, [])"
    and rest: "at_rest dir recv_dir m file k rx"
    using ab k by (cases t) (auto simp: Let_def m_def ci_def n_def at_rest_def simp del: tracks.simps)
  have "?out = map (\<lambda>i. item_pdu m file (Arrives ci i)) [0..<n] @ [item_pdu m file EofMark]"
    by (simp add: pass_of_def del: item_pdu.simps)
  then have "nths ?out (insert n {}) = [item_pdu m file EofMark]"
    by (simp only: nths_pass) simp
  with eof_at_rest [OF dirs desc sum rest] st show ?thesis
    unfolding m_def [symmetric] ci_def [symmetric] n_def [symmetric] t
    by (auto simp: turn_def answers_def simp del: item_pdu.simps)
qed
lemma at_rest_about:
  assumes "about dir recv_dir s file name c k (ph, inbox, rx)" and "0 < k"
    and "k < unat (m_total_chunks (meta_of s file name (word_of_int c)))"
  shows "at_rest dir recv_dir (meta_of s file name (word_of_int c)) file k rx"
  using assms by (auto simp: at_rest_def Let_def simp del: tracks.simps)

lemma chunk_on_disk_about:
  assumes "about dir recv_dir s file name c (Suc k) (ph, inbox, rx)"
    and "Suc k < unat (m_total_chunks (meta_of s file name (word_of_int c)))"
  shows "chunk_finished (r_state rx) (of_nat k)"
proof -
  have "k < unat (m_total_chunks (meta_of s file name (word_of_int c)))" using assms(2) by simp
  from chunk_missing_index [OF this] assms(1) show ?thesis by (auto simp: Let_def shows_progress_def)
qed

text \<open>
  When the ACK of a chunk is lost, the retransmission on a time-out, \<open>Metadata\<close> and \<open>Eof\<close>, is
  answered with nothing.
\<close>

lemma lost_chunk_ack_is_not_repeated:
  assumes "describes m file" and tr: "tracks dir recv_dir m file (Receiving k {} e) rx"
    and "k < unat (m_total_chunks m)" and "r_current_chunk_index rx = UINT32_MAX"
    and "unat (r_max_chunk_seen rx) < k"
  shows "\<exists>rx' es. deliver zcrc [metadata_pdu m, item_pdu m file EofMark] rx = Inr rx' \<and>
    ran (r_world rx) es (r_world rx') \<and> sent_pdus es = []"
proof -
  let ?eof = "\<lparr>e_transaction_id = m_transaction_id m, e_checksum = m_checksum m\<rparr>"
  have act: "r_transfer_active rx" and t: "transfer_of recv_dir m (r_state rx)"
    and inv: "rx_inv dir recv_dir rx"
    and fin: "\<forall>ci < m_total_chunks m. chunk_finished (r_state rx) ci \<longleftrightarrow> unat ci < k"
    using tr by (auto simp: honest_rx_def honest_core_def shows_progress_def)
  have missing: "chunk_missing (r_state rx) i \<longleftrightarrow> k \<le> i" if "i < unat (m_total_chunks m)" for i
    using chunk_missing_index [OF that] fin [rule_format, of "of_nat i"]
    by (auto simp: chunk_missing_def chunk_finished_def)
  have later: "r_max_chunk_seen rx < fst cr" if "cr \<in> set (compute_missing_chunks (r_state rx))" for cr
    using missing_range_starts [OF that] missing t assms(5)
    by (auto simp: transfer_of_def word_less_nat_alt)
  have some: "compute_missing_chunks (r_state rx) \<noteq> []"
    using missing [OF assms(3)] assms(3) t by (auto simp: compute_missing_Nil_iff transfer_of_def)
  define rx1 where "rx1 = (if \<not> js_eof_received (r_state rx) then
      in_world (\<lambda>w. snd (mark_eof_received (r_journal rx) w)) (rx\<lparr>r_state := set_eof (r_state rx)\<rparr>) else rx)"
  have none: "find (\<lambda>cr. \<not> fst cr > r_max_chunk_seen rx) (compute_missing_chunks (r_state rx)) = None"
    using later by (auto simp: find_None_iff)
  have rx1: "js_eof_received (r_state rx1)" "r_current_chunk_index rx1 = UINT32_MAX"
    "r_max_chunk_seen rx1 = r_max_chunk_seen rx"
    "compute_missing_chunks (r_state rx1) = compute_missing_chunks (r_state rx)"
    using assms(4) by (simp_all add: rx1_def missing_set_eof)
  have "check_completion zcrc rx1 = Inr rx1"
    unfolding check_completion_def Let_def rx1(3,4) none using rx1(1,2) some by simp
  then have "handle_eof zcrc ?eof rx = Inr rx1"
    using act t by (simp add: handle_eof_def rx1_def transfer_of_def)
  moreover have "handle_metadata m rx = Inr rx"
    using act t by (simp add: handle_metadata_def transfer_of_def)
  moreover have "metadata_fits m" using assms(1) by (simp add: describes_def)
  ultimately have "deliver zcrc [metadata_pdu m, item_pdu m file EofMark] rx = Inr rx1"
    by (simp add: on_pdu_received_metadata on_pdu_received_eof)
  moreover have "\<exists>es. ran (r_world rx) es (r_world rx1) \<and> sent_pdus es = []"
    using mark_eof_silent [of "r_world rx" dir] rx_baseD(2) [of dir recv_dir rx] inv
    by (auto simp: rx1_def rx_inv_def intro: exI [of _ "[]"])
  ultimately show ?thesis by blast
qed

text \<open>
  When the final ACK of a sender that waits in its last loop is lost (or the file was empty, which
  the receiver never accepts), the sender repeats its \<open>Eof\<close>, which an idle receiver drops.
\<close>

lemma idle_receiver_ignores_eof:
  assumes "send_eof s c = Some eof" and "\<not> r_transfer_active rx"
  shows "turns zcrc s file name c (replicate n UNIV) (At_end, [], rx) = Some (At_end, [], rx)"
proof (induction n)
  case (Suc n)
  obtain rest where "eof = pdu_code Eof # rest" using assms(1) by (auto simp: send_eof_def)
  then have "on_pdu_received zcrc eof rx = Inr rx"
    using assms(2) by (simp add: on_pdu_received_def inactive_drops split: option.split)
  moreover have "sender_step s file name c At_end [] = (At_end, [eof], [])"
    using assms(1) by (simp add: end_step_def go_def)
  ultimately have "turn zcrc s file name c UNIV (At_end, [], rx) = Some (At_end, [], rx)"
    by (simp add: turn_def answers_def nths_all del: sender_step.simps)
  with Suc show ?case by simp
qed simp

end
