(* ===== verification/Cfdp_Noise.thy ===== *)
theory Cfdp_Noise
  imports Cfdp_Replies Cfdp_Main
begin

text \<open>
  \<open>sender/sender.py\<close>, the class \<open>Transport\<close>. \<open>send\<close>: the sender puts its PDUs on the line in the receiver's
  frames, and to try out the protocol it loses some and flips a byte of others. What \<open>random\<close>
  decides is a parameter. A flipped byte of a packet's payload or of its CRC-8 is noticed.
  \<open>recv\<close>, and the loop in which \<open>CfdpSender.send\<close> calls it: the replies of the receiver are heard,
  however the line cuts them.
\<close>

section \<open>The noisy line\<close>

text \<open>What the draws for one PDU decide: lose it, flip the byte at a position, or neither.\<close>

datatype roll = Lost | Garbled nat | Intact

definition garble :: "nat \<Rightarrow> bytes \<Rightarrow> bytes" where
  "garble j pdu = pdu[j := pdu ! j XOR 0xFF]"

text \<open>The PDU the receiver will find in the frame, if there is one.\<close>

fun arrival :: "roll \<Rightarrow> bytes \<Rightarrow> bytes list" where
  "arrival Lost pdu = []"
| "arrival (Garbled j) pdu = [garble j pdu]"
| "arrival Intact pdu = [pdu]"

text \<open>The bytes written; \<open>None\<close> is the exception of \<open>struct.pack\<close> for a length beyond 32 bits.\<close>

definition line_send :: "roll \<Rightarrow> bytes \<Rightarrow> bytes option" where
  "line_send roll pdu =
     (case roll of Lost \<Rightarrow> Some []
      | Garbled j \<Rightarrow> map_option (\<lambda>len. len @ garble j pdu) (pack_I (int (length (garble j pdu))))
      | Intact \<Rightarrow> map_option (\<lambda>len. len @ pdu) (pack_I (int (length pdu))))"

lemma length_garble [simp]: "length (garble j pdu) = length pdu"
  by (simp add: garble_def)

lemma line_send_frames:
  "length pdu < 2 ^ 32 \<Longrightarrow> line_send roll pdu = Some (concat (map frame (arrival roll pdu)))"
  by (cases roll) (simp_all add: line_send_def frame_def pack_I_def)

fun arrivals :: "(nat \<Rightarrow> roll) \<Rightarrow> bytes list \<Rightarrow> bytes list" where
  "arrivals rolls [] = []"
| "arrivals rolls (p # ps) = arrival (rolls 0) p @ arrivals (\<lambda>n. rolls (Suc n)) ps"

lemma arrivals_append:
  "arrivals rolls (ps @ qs) = arrivals rolls ps @ arrivals (\<lambda>n. rolls (n + length ps)) qs"
  by (induction ps arbitrary: rolls) simp_all

lemma arrivals_intact: "(\<And>i. i < length ps \<Longrightarrow> rolls i = Intact) \<Longrightarrow> arrivals rolls ps = ps"
proof (induction ps arbitrary: rolls)
  case (Cons p ps)
  have "arrivals (\<lambda>n. rolls (Suc n)) ps = ps" by (rule Cons.IH) (simp add: Cons.prems)
  with Cons.prems [of 0] show ?case by simp
qed simp

section \<open>Damage that is noticed\<close>

text \<open>
  Only packets are garbled, and only from their CRC-8 (position 21) to the end of their payload.
\<close>

definition benign_roll :: "roll \<Rightarrow> bytes \<Rightarrow> bool" where
  "benign_roll roll pdu =
     (case roll of Garbled j \<Rightarrow> hd pdu = pdu_code Data \<and> 21 \<le> j \<and> j < 22 + unat (get32 17 pdu)
      | _ \<Rightarrow> True)"

definition benign :: "(nat \<Rightarrow> roll) \<Rightarrow> bytes list \<Rightarrow> bool" where
  "benign rolls ps \<longleftrightarrow> (\<forall>i < length ps. benign_roll (rolls i) (ps ! i))"

lemma benign_Nil [simp]: "benign rolls []"
  by (simp add: benign_def)

lemma benign_Cons [simp]:
  "benign rolls (p # ps) \<longleftrightarrow> benign_roll (rolls 0) p \<and> benign (\<lambda>n. rolls (Suc n)) ps"
  by (auto simp: benign_def nth_Cons' less_Suc_eq_0_disj)

lemma benign_append [simp]:
  "benign rolls (ps @ qs) \<longleftrightarrow> benign rolls ps \<and> benign (\<lambda>n. rolls (n + length ps)) qs"
  by (induction ps arbitrary: rolls) simp_all

lemma benign_eof: "benign_roll roll (item_pdu m file EofMark) \<Longrightarrow> roll = Lost \<or> roll = Intact"
  by (cases roll) (simp_all add: benign_roll_def eof_pdu_def)

lemma benign_metadata: "benign_roll roll (metadata_pdu m) \<Longrightarrow> roll = Lost \<or> roll = Intact"
  by (cases roll) (simp_all add: benign_roll_def metadata_pdu_def)

lemma xor_0xFF_neq: "(x :: u8) XOR 0xFF \<noteq> x"
proof
  assume "x XOR 0xFF = x"
  then have "x XOR (x XOR 0xFF) = x XOR x" by simp
  then have "(x XOR x) XOR 0xFF = 0" by (simp add: xor.assoc)
  then show False by simp
qed

lemma crc8_garbled:
  assumes "q < length d"
  shows "crc8 (d[q := d ! q XOR 0xFF]) \<noteq> crc8 d"
proof -
  have "d = take q d @ d ! q # drop (Suc q) d" using assms by (rule id_take_nth_drop)
  moreover have "d[q := d ! q XOR 0xFF] = take q d @ (d ! q XOR 0xFF) # drop (Suc q) d"
    using assms by (rule upd_conv_take_nth_drop)
  ultimately show ?thesis using crc8_single_byte xor_0xFF_neq by metis
qed

text \<open>A garbled packet is a damaged packet of the simulation.\<close>

lemma garbled_packet:
  assumes desc: "describes m file" and i: "i < packets_in m file ci"
    and j: "benign_roll (Garbled j) (item_pdu m file (Arrives ci i))"
  shows "\<exists>d c. garble j (item_pdu m file (Arrives ci i)) = item_pdu m file (Damaged ci i d c) \<and>
    length d = length (packet_of m file ci i) \<and> crc8 d \<noteq> c"
proof -
  let ?d = "packet_of m file ci i"
  let ?p = "packet_pdu m file ci i ?d (crc8 ?d)"
  define a where "a = pdu_code Data # le32 (d_transaction_id ?p) @ le32 (d_chunk_index ?p) @
    le32 (d_packet_index ?p) @ le32 (d_total_packets ?p)"
  define h where "h = a @ le32 (d_data_len ?p)"
  define pad where "pad n = (replicate (unat (m_packet_size m) - n) 0 :: bytes)" for n
  have a: "length a = 17" and h: "length h = 21" by (simp_all add: a_def h_def layout)
  have pdu: "padded_data_pdu m (packet_pdu m file ci i d c) = h @ c # d @ pad (length d)"
    if "length d = length ?d" for d c
    using that by (simp add: padded_data_pdu_def data_pdu_def data_header_image_def packet_pdu_def h_def a_def pad_def)
  have arr: "item_pdu m file (Arrives ci i) = h @ crc8 ?d # ?d @ pad (length ?d)"
    using pdu [OF refl] by (simp add: Let_def)
  have "get32 17 (item_pdu m file (Arrives ci i)) = of_nat (length ?d)"
    unfolding arr h_def by (simp add: get32_skip a layout packet_pdu_def)
  moreover have "unat (of_nat (length ?d) :: u32) = length ?d"
    using length_packet_of [OF desc, of ci i] by (simp add: unat_of_nat)
  ultimately have j: "21 \<le> j" "j < 22 + length ?d" using j by (simp_all add: benign_roll_def)
  show ?thesis
  proof (cases "j = 21")
    case True
    have "garble j (item_pdu m file (Arrives ci i)) = h @ (crc8 ?d XOR 0xFF) # ?d @ pad (length ?d)"
      unfolding arr True garble_def using h by (simp add: list_update_append nth_append)
    then have "garble j (item_pdu m file (Arrives ci i)) =
        item_pdu m file (Damaged ci i ?d (crc8 ?d XOR 0xFF))"
      using pdu [OF refl] by simp
    with xor_0xFF_neq show ?thesis by metis
  next
    case False
    define q where "q = j - 22"
    have q: "q < length ?d" "j = 22 + q" using j False by (simp_all add: q_def)
    let ?e = "?d[q := ?d ! q XOR 0xFF]"
    have "garble j (item_pdu m file (Arrives ci i)) = h @ crc8 ?d # ?e @ pad (length ?d)"
      unfolding arr garble_def using h q by (simp add: list_update_append nth_append)
    then have "garble j (item_pdu m file (Arrives ci i)) = item_pdu m file (Damaged ci i ?e (crc8 ?d))"
      using pdu [of ?e] by simp
    with crc8_garbled [OF q(1)] show ?thesis by (metis length_list_update)
  qed
qed

section \<open>A pass over the noisy line\<close>

text \<open>The packets that get through unharmed.\<close>

fun intact :: "(nat \<Rightarrow> roll) \<Rightarrow> nat list \<Rightarrow> nat set" where
  "intact rolls [] = {}"
| "intact rolls (i # is) = (if rolls 0 = Intact then {i} else {}) \<union> intact (\<lambda>n. rolls (Suc n)) is"

lemma intact_subset: "intact rolls is \<subseteq> set is"
  by (induction rolls "is" rule: intact.induct) auto

lemma all_intact:
  "distinct is \<Longrightarrow> set is \<subseteq> intact rolls is \<Longrightarrow> i < length is \<Longrightarrow> rolls i = Intact"
proof (induction rolls "is" arbitrary: i rule: intact.induct)
  case (2 rolls x "is")
  have "x \<notin> intact (\<lambda>n. rolls (Suc n)) is" using 2(2) intact_subset [of "\<lambda>n. rolls (Suc n)" "is"] by auto
  then have "rolls 0 = Intact" using 2(3) by (auto split: if_splits)
  moreover have "set is \<subseteq> intact (\<lambda>n. rolls (Suc n)) is" using 2(2,3) by (auto split: if_splits)
  ultimately show ?case using 2(1,2,4) by (cases i) auto
qed simp

text \<open>One packet over the noisy line.\<close>

lemma noisy_packet_said:
  assumes dirs: "dirs_ok dir recv_dir" and desc: "describes m file"
    and sum: "crc32_file zcrc (Some file) = m_checksum m"
    and ci: "ci < m_total_chunks m" "unat ci = k" and i: "i < packets_in m file ci" "i \<notin> S"
    and tr: "tracks dir recv_dir m file (Receiving k S e) rx" and seen: "unat (r_max_chunk_seen rx) \<le> k"
    and more: "roll = Intact \<Longrightarrow> insert i S \<noteq> {..<packets_in m file ci}"
    and ben: "benign_roll roll (item_pdu m file (Arrives ci i))"
  shows "\<exists>rx'. deliver zcrc (arrival roll (item_pdu m file (Arrives ci i))) rx = Inr rx' \<and>
    tracks dir recv_dir m file (Receiving k (S \<union> (if roll = Intact then {i} else {})) e) rx' \<and>
    unat (r_max_chunk_seen rx') \<le> k \<and> said rx' = said rx \<and>
    (r_current_chunk_index rx \<noteq> UINT32_MAX \<or> roll \<noteq> Lost \<longrightarrow> r_current_chunk_index rx' \<noteq> UINT32_MAX)"
proof (cases roll)
  case Lost
  with tr seen show ?thesis by (intro exI [of _ rx]) (simp_all del: tracks.simps)
next
  case (Garbled j)
  have "unat (m_total_chunks m) \<le> 2 ^ 20" by (rule describesD [OF desc])
  then have max: "ci \<noteq> UINT32_MAX" using ci(1) by (auto simp: word_less_nat_alt)
  from garbled_packet [OF desc i(1) ben [unfolded Garbled]] obtain d c where
    g: "garble j (item_pdu m file (Arrives ci i)) = item_pdu m file (Damaged ci i d c)"
    and d: "length d = length (packet_of m file ci i)" "crc8 d \<noteq> c" by blast
  from damaged_said [OF dirs desc sum tr ci i(1) d seen] obtain rx1 where
    "on_pdu_received zcrc (item_pdu m file (Damaged ci i d c)) rx = Inr rx1"
    "tracks dir recv_dir m file (Receiving k (S - {i}) e) rx1"
    "r_max_chunk_seen rx1 = ci" "r_current_chunk_index rx1 = ci" "said rx1 = said rx" by blast
  moreover have "S - {i} = S" using i(2) by simp
  ultimately show ?thesis using Garbled ci(2) max
    by (intro exI [of _ rx1]) (simp_all add: g del: tracks.simps item_pdu.simps)
next
  case Intact
  with arrival_said [OF dirs desc sum tr ci i(1) seen] more ci(2) obtain rx1 where
    rx1: "on_pdu_received zcrc (item_pdu m file (Arrives ci i)) rx = Inr rx1"
    "tracks dir recv_dir m file (Receiving k (insert i S) e) rx1"
    "r_max_chunk_seen rx1 = ci" "said rx1 = said rx"
    by (auto simp del: item_pdu.simps tracks.simps)
  with in_progress [OF rx1(2)] Intact ci(2) show ?thesis
    by (intro exI [of _ rx1]) (simp_all del: tracks.simps item_pdu.simps)
qed

text \<open>A pass that does not complete its chunk: nothing is answered.\<close>

lemma noisy_part_said:
  assumes dirs: "dirs_ok dir recv_dir" and desc: "describes m file"
    and sum: "crc32_file zcrc (Some file) = m_checksum m"
    and ci: "ci < m_total_chunks m" "unat ci = k"
    and "tracks dir recv_dir m file (Receiving k S e) rx"
    and "distinct is" and "set is \<inter> S = {}" and "set is \<subseteq> {..<packets_in m file ci}"
    and "\<not> {..<packets_in m file ci} \<subseteq> S \<union> intact rolls is"
    and "benign rolls (map (item_pdu m file) (pass_of ci is))"
    and "unat (r_max_chunk_seen rx) \<le> k"
  shows "\<exists>rx'. deliver zcrc (arrivals rolls (map (item_pdu m file) (pass_of ci is))) rx = Inr rx' \<and>
    tracks dir recv_dir m file (Receiving k (S \<union> intact rolls is) e) rx' \<and>
    unat (r_max_chunk_seen rx') \<le> k \<and> said rx' = said rx \<and>
    (r_current_chunk_index rx \<noteq> UINT32_MAX \<or> (\<exists>i < length is. rolls i \<noteq> Lost) \<longrightarrow>
       r_current_chunk_index rx' \<noteq> UINT32_MAX)"
  using assms(6-)
proof (induction "is" arbitrary: S rx rolls)
  case Nil
  then show ?case by (intro exI [of _ rx]) (simp add: pass_of_def del: tracks.simps)
next
  case (Cons i "is")
  let ?rest = "\<lambda>n. rolls (Suc n)"
  let ?S = "S \<union> (if rolls 0 = Intact then {i} else {})"
  have i: "i < packets_in m file ci" "i \<notin> S" using Cons.prems(3,4) by auto
  have pdus: "map (item_pdu m file) (pass_of ci (i # is)) =
      item_pdu m file (Arrives ci i) # map (item_pdu m file) (pass_of ci is)"
    by (simp add: pass_of_def del: item_pdu.simps)
  have ben: "benign_roll (rolls 0) (item_pdu m file (Arrives ci i))"
    "benign ?rest (map (item_pdu m file) (pass_of ci is))"
    using Cons.prems(6) unfolding pdus by simp_all
  have more: "insert i S \<noteq> {..<packets_in m file ci}" if "rolls 0 = Intact"
    using Cons.prems(5) that by auto
  from noisy_packet_said [OF dirs desc sum ci i Cons.prems(1,7) more ben(1)] obtain rx1 where
    rx1: "deliver zcrc (arrival (rolls 0) (item_pdu m file (Arrives ci i))) rx = Inr rx1"
      "tracks dir recv_dir m file (Receiving k ?S e) rx1" "unat (r_max_chunk_seen rx1) \<le> k" "said rx1 = said rx"
      "r_current_chunk_index rx \<noteq> UINT32_MAX \<or> rolls 0 \<noteq> Lost \<longrightarrow> r_current_chunk_index rx1 \<noteq> UINT32_MAX"
    by blast
  have "distinct is" "set is \<inter> ?S = {}" "set is \<subseteq> {..<packets_in m file ci}"
    "\<not> {..<packets_in m file ci} \<subseteq> ?S \<union> intact ?rest is"
    using Cons.prems(2-5) by (auto split: if_splits)
  from Cons.IH [OF rx1(2) this ben(2) rx1(3)] obtain rx' where
    rx': "deliver zcrc (arrivals ?rest (map (item_pdu m file) (pass_of ci is))) rx1 = Inr rx'"
      "tracks dir recv_dir m file (Receiving k (?S \<union> intact ?rest is) e) rx'"
      "unat (r_max_chunk_seen rx') \<le> k" "said rx' = said rx1"
      "r_current_chunk_index rx1 \<noteq> UINT32_MAX \<or> (\<exists>i < length is. ?rest i \<noteq> Lost) \<longrightarrow>
         r_current_chunk_index rx' \<noteq> UINT32_MAX" by blast
  have "?S \<union> intact ?rest is = S \<union> intact rolls (i # is)" by auto
  with rx' rx1(1,4,5) show ?case
    unfolding pdus by (intro exI [of _ rx']) (auto simp: deliver_append less_Suc_eq_0_disj simp del: tracks.simps item_pdu.simps)
qed

section \<open>What the sender hears\<close>

text \<open>
  \<open>recv\<close>: \<open>Quiet\<close> is a \<open>select\<close> that times out, and so is a line on which nothing comes any more.
  Within a frame the reads block, as the receiver's do.
\<close>

fun py_recv :: "line \<Rightarrow> bytes option received" where
  "py_recv [] = Received None []"
| "py_recv (Quiet # line) = Received None line"
| "py_recv (Got bs # line) =
     (case uart_recv (Got bs # line) of
        Received pdu line' \<Rightarrow> Received (Some pdu) line' | Read_error \<Rightarrow> Read_error | Blocked \<Rightarrow> Blocked)"
| "py_recv (Failed # line) =
     (case uart_recv (Failed # line) of
        Received pdu line' \<Rightarrow> Received (Some pdu) line' | Read_error \<Rightarrow> Read_error | Blocked \<Rightarrow> Blocked)"

lemma py_recv_size: "py_recv line = Received (Some pdu) line' \<Longrightarrow> line_size line' < line_size line"
  by (cases line rule: py_recv.cases)
    (auto split: received.splits simp del: line_size_simps dest: uart_recv_size)

text \<open>The inner loop: \<open>recv(0)\<close> until it gives \<open>None\<close>.\<close>

function py_drain :: "bytes list \<Rightarrow> line \<Rightarrow> bytes list received" where
  "py_drain batch line =
     (case py_recv line of
        Received None line' \<Rightarrow> Received batch line'
      | Received (Some p) line' \<Rightarrow> py_drain (batch @ [p]) line'
      | Read_error \<Rightarrow> Read_error
      | Blocked \<Rightarrow> Blocked)"
  by pat_completeness auto
termination
  by (relation "measure (\<lambda>(batch, line). line_size line)") (auto simp: py_recv_size)

declare py_drain.simps [simp del]

text \<open>The batch that \<open>chunk_step\<close> and \<open>end_step\<close> look at; it is empty when the first \<open>recv\<close> times out.\<close>

definition py_batch :: "line \<Rightarrow> bytes list received" where
  "py_batch line =
     (case py_recv line of
        Received None line' \<Rightarrow> Received [] line'
      | Received (Some p) line' \<Rightarrow> py_drain [p] line'
      | Read_error \<Rightarrow> Read_error
      | Blocked \<Rightarrow> Blocked)"

lemma py_batch_drain: "py_batch line = py_drain [] line"
  by (subst py_drain.simps) (simp only: py_batch_def append_Nil)

lemma read_exact_append:
  "read_exact got n line = Received bs line' \<Longrightarrow>
     read_exact got n (line @ later) = Received bs (line' @ later)"
  by (induction got n line rule: read_exact.induct) (auto split: if_splits)

lemma uart_recv_append:
  "uart_recv line = Received pdu line' \<Longrightarrow> uart_recv (line @ later) = Received pdu (line' @ later)"
  by (auto simp: uart_recv_def Let_def read_exact_append split: received.splits)

lemma py_drain_delivers:
  "delivers line pdus \<Longrightarrow> py_drain batch (line @ Quiet # later) = Received (batch @ pdus) later"
proof (induction pdus arbitrary: line batch)
  case Nil
  then show ?case by (simp add: py_drain.simps)
next
  case (Cons pdu pdus)
  from delivers_Cons [OF Cons.prems] obtain line' where
    line': "uart_recv line = Received pdu line'" "delivers line' pdus" and busy: "poll line" by blast
  have "py_recv (line @ Quiet # later) = Received (Some pdu) (line' @ Quiet # later)"
    using uart_recv_append [OF line'(1), of "Quiet # later"] busy by (cases line rule: poll.cases) simp_all
  with Cons.IH [OF line'(2)] show ?case by (subst py_drain.simps) simp
qed

section \<open>Properties\<close>

text \<open>C28: The sender hears what the receiver sends: the PDUs that the receiver's \<open>UartTransport::send\<close>
  writes in full are the batch that the sender's loop collects, in order and however the line cuts
  the bytes, up to the first pause.\<close>

theorem replies_are_heard:
  assumes "clean line" and "Quiet \<notin> set line"
    and "line_bytes line = concat (map (\<lambda>pdu. uart_send 4 (length pdu) pdu) pdus)"
    and "list_all (\<lambda>pdu. length pdu < 2 ^ 32) pdus"
  shows "py_batch (line @ Quiet # later) = Received pdus later"
proof -
  have "delivers line pdus" using assms by (simp add: delivers_def uart_send_frame list_all_iff)
  from py_drain_delivers [OF this, of "[]" later] show ?thesis by (simp add: py_batch_drain)
qed

theorem replies_are_heard_witness:
  "py_batch [Got [1, 0, 0], Got [0, 5, 1, 0], Got [0, 0, 4], Quiet, Failed] = Received [[5], [4]] [Failed]"
proof -
  have "line_bytes [Got [1, 0, 0], Got [0, 5, 1, 0], Got [0, 0, 4]] =
      concat (map (\<lambda>pdu. uart_send 4 (length pdu) pdu) [[5], [4]])"
    by code_simp
  from replies_are_heard [OF _ _ this, of "[Failed]"] show ?thesis by simp
qed

end
