(* ===== verification/Cfdp_Losses.thy ===== *)
theory Cfdp_Losses
  imports Cfdp_Talk Cfdp_Noise
begin

text \<open>
  The conversation over the sender's noisy line: in every turn, any PDUs are lost and any packets
  garbled on the way to the receiver. The only conditions, \<open>fair\<close>, are that the damage is such as
  CRC-8 covers, and that at least one packet of the first pass of each chunk is not lost.
  \<open>underway\<close> holds in every state of such a conversation, and from each of them a bounded number
  of turns without noise leads to the end.
\<close>

section \<open>Noise at will\<close>

text \<open>A turn of \<open>Cfdp_Talk\<close> in which the draws of \<open>Transport.send\<close> decide what arrives.\<close>

definition noisy_turn :: "zlib_crc32 \<Rightarrow> CfdpSender \<Rightarrow> bytes \<Rightarrow> string \<Rightarrow> int \<Rightarrow> (nat \<Rightarrow> roll) \<Rightarrow>
    talk \<Rightarrow> talk option" where
  "noisy_turn zcrc s file name c rolls = (\<lambda>(ph, inbox, rx).
     case sender_step s file name c ph inbox of (ph', out, rest) \<Rightarrow>
       (case deliver zcrc (arrivals rolls out) rx of
          Inl e \<Rightarrow> None
        | Inr rx' \<Rightarrow> Some (ph', rest @ answers rx rx', rx')))"

fun noisy_turns :: "zlib_crc32 \<Rightarrow> CfdpSender \<Rightarrow> bytes \<Rightarrow> string \<Rightarrow> int \<Rightarrow> (nat \<Rightarrow> roll) list \<Rightarrow>
    talk \<Rightarrow> talk option" where
  "noisy_turns zcrc s file name c [] t = Some t"
| "noisy_turns zcrc s file name c (rolls # rs) t =
     (case noisy_turn zcrc s file name c rolls t of
        None \<Rightarrow> None | Some t' \<Rightarrow> noisy_turns zcrc s file name c rs t')"

lemma noisy_turns_append:
  "noisy_turns zcrc s file name c (xs @ ys) t =
     (case noisy_turns zcrc s file name c xs t of
        None \<Rightarrow> None | Some t' \<Rightarrow> noisy_turns zcrc s file name c ys t')"
  by (induction xs arbitrary: t) (auto split: option.split)

text \<open>Without noise it is a turn in which everything arrives.\<close>

lemma quiet_turn:
  assumes "sender_step s file name c ph inbox = (ph', out, rest)"
    and "\<And>i. i < length out \<Longrightarrow> rolls i = Intact"
  shows "noisy_turn zcrc s file name c rolls (ph, inbox, rx) = turn zcrc s file name c UNIV (ph, inbox, rx)"
  by (simp add: noisy_turn_def turn_def assms(1) arrivals_intact [OF assms(2)] nths_all)

lemma noiseless_turn: "noisy_turn zcrc s file name c (\<lambda>_. Intact) t = turn zcrc s file name c UNIV t"
proof -
  obtain ph inbox rx where t: "t = (ph, inbox, rx)" by (cases t)
  obtain ph' out rest where "sender_step s file name c ph inbox = (ph', out, rest)" by (rule prod_cases3)
  then show ?thesis unfolding t by (rule quiet_turn) simp
qed

lemma quiet_turns:
  "noisy_turns zcrc s file name c (replicate n (\<lambda>_. Intact)) t = turns zcrc s file name c (replicate n UNIV) t"
  by (induction n arbitrary: t) (simp_all add: noiseless_turn split: option.split)

text \<open>Does the sender go on to a chunk it has not sent before?\<close>

fun first_pass :: "phase \<Rightarrow> phase \<Rightarrow> bool" where
  "first_pass ph (In_chunk k) \<longleftrightarrow> ph \<noteq> In_chunk k"
| "first_pass ph ph' \<longleftrightarrow> False"

text \<open>All but the last PDU of such a turn are packets, the last is the \<open>Eof\<close>.\<close>

definition gets_through :: "CfdpSender \<Rightarrow> bytes \<Rightarrow> string \<Rightarrow> int \<Rightarrow> (nat \<Rightarrow> roll) \<Rightarrow> talk \<Rightarrow> bool" where
  "gets_through s file name c rolls = (\<lambda>(ph, inbox, rx).
     case sender_step s file name c ph inbox of (ph', out, rest) \<Rightarrow>
       benign rolls out \<and> (first_pass ph ph' \<longrightarrow> (\<exists>i < length out - 1. rolls i \<noteq> Lost)))"

fun fair :: "zlib_crc32 \<Rightarrow> CfdpSender \<Rightarrow> bytes \<Rightarrow> string \<Rightarrow> int \<Rightarrow> (nat \<Rightarrow> roll) list \<Rightarrow> talk \<Rightarrow> bool" where
  "fair zcrc s file name c [] t \<longleftrightarrow> True"
| "fair zcrc s file name c (rolls # rs) t \<longleftrightarrow> gets_through s file name c rolls t \<and>
     (case noisy_turn zcrc s file name c rolls t of
        None \<Rightarrow> True | Some t' \<Rightarrow> fair zcrc s file name c rs t')"

text \<open>A receiver within chunk \<open>k\<close>, and what it may have answered.\<close>

definition asks :: "CfdpSender \<Rightarrow> bytes \<Rightarrow> MetadataPdu \<Rightarrow> nat \<Rightarrow> nat set \<Rightarrow> bytes list \<Rightarrow> bool" where
  "asks s file m k S inbox \<longleftrightarrow> inbox = [] \<or>
     (\<exists>nak is. inbox = [serialize_nak nak] \<and> distinct is \<and> set is \<inter> S = {} \<and>
        S \<union> set is = {..<packets_in m file (of_nat k)} \<and> is \<noteq> [] \<and>
        on_nak s file (tl (serialize_nak nak)) = (map (item_pdu m file) (pass_of (of_nat k) is), True))"

fun amid :: "path \<Rightarrow> path \<Rightarrow> CfdpSender \<Rightarrow> bytes \<Rightarrow> string \<Rightarrow> int \<Rightarrow> nat \<Rightarrow> talk \<Rightarrow> bool" where
  "amid dir recv_dir s file name c k (ph, inbox, rx) \<longleftrightarrow>
     (let m = meta_of s file name (word_of_int c) in
      ph = In_chunk (int k) \<and> unat (r_max_chunk_seen rx) \<le> k \<and> r_current_chunk_index rx \<noteq> UINT32_MAX \<and>
      (\<exists>S e. tracks dir recv_dir m file (Receiving k S e) rx \<and> asks s file m k S inbox))"

text \<open>Every chunk is acknowledged, but the \<open>Eof\<close> has not arrived yet.\<close>

fun lacks_eof :: "path \<Rightarrow> path \<Rightarrow> CfdpSender \<Rightarrow> bytes \<Rightarrow> string \<Rightarrow> int \<Rightarrow> talk \<Rightarrow> bool" where
  "lacks_eof dir recv_dir s file name c (ph, inbox, rx) \<longleftrightarrow>
     (let m = meta_of s file name (word_of_int c); n = unat (m_total_chunks m) in
      (sender_step s file name c ph inbox = (At_end, [], []) \<or>
       ph = At_end \<and> inbox = []) \<and>
      (\<exists>e. tracks dir recv_dir m file (Receiving n {} e) rx) \<and>
      r_current_chunk_index rx = UINT32_MAX \<and> unat (r_max_chunk_seen rx) < n)"

text \<open>The states of a fair conversation.\<close>

definition underway :: "path \<Rightarrow> path \<Rightarrow> CfdpSender \<Rightarrow> bytes \<Rightarrow> string \<Rightarrow> int \<Rightarrow> talk \<Rightarrow> bool" where
  "underway dir recv_dir s file name c t \<longleftrightarrow>
     (\<exists>k < unat (m_total_chunks (meta_of s file name (word_of_int c))).
        about dir recv_dir s file name c k t \<and> fst t \<noteq> In_chunk (int k) \<or>
        amid dir recv_dir s file name c k t) \<or>
     lacks_eof dir recv_dir s file name c t \<or> finished dir recv_dir s file name c t"

lemma underwayI:
  "k < unat (m_total_chunks (meta_of s file name (word_of_int c))) \<Longrightarrow>
     amid dir recv_dir s file name c k t \<Longrightarrow> underway dir recv_dir s file name c t"
  "k < unat (m_total_chunks (meta_of s file name (word_of_int c))) \<Longrightarrow>
     about dir recv_dir s file name c k t \<Longrightarrow> fst t \<noteq> In_chunk (int k) \<Longrightarrow> underway dir recv_dir s file name c t"
  "lacks_eof dir recv_dir s file name c t \<Longrightarrow> underway dir recv_dir s file name c t"
  "finished dir recv_dir s file name c t \<Longrightarrow> underway dir recv_dir s file name c t"
  unfolding underway_def by blast+

text \<open>The sender hears that chunk \<open>k\<close> is on disk, and perhaps that all is.\<close>

lemma chunk_acknowledged:
  assumes ok: "sender_ok s file name" and c: "0 \<le> c" "c < 2 ^ 32"
    and k: "k < unat (m_total_chunks (meta_of s file name (word_of_int c)))"
    and rx: "r_max_chunk_seen rx = of_nat k" "r_current_chunk_index rx = UINT32_MAX"
    and tr: "tracks dir recv_dir (meta_of s file name (word_of_int c)) file
      (if e \<and> Suc k = unat (m_total_chunks (meta_of s file name (word_of_int c))) then Complete
       else Receiving (Suc k) {} e) rx"
  shows "underway dir recv_dir s file name c (In_chunk (int k),
    ack_of (meta_of s file name (word_of_int c)) (of_nat k) #
      (if e \<and> Suc k = unat (m_total_chunks (meta_of s file name (word_of_int c)))
       then [ack_of (meta_of s file name (word_of_int c)) UINT32_MAX] else []), rx)"
proof -
  define m where "m = meta_of s file name (word_of_int c)"
  define ci where "ci = (of_nat k :: u32)"
  note ci = chunk_missing_index [OF k, folded m_def ci_def]
  note hears = sender_hears [OF ok c k, folded m_def ci_def]
  have seen: "unat (r_max_chunk_seen rx) = k" using ci rx(1) by (simp add: ci_def)
  let ?inbox = "ack_of m ci # (if e \<and> Suc k = unat (m_total_chunks m) then [ack_of m UINT32_MAX] else [])"
  consider (final) "e \<and> Suc k = unat (m_total_chunks m)" | (last) "\<not> e" "Suc k = unat (m_total_chunks m)"
    | (more) "Suc k < unat (m_total_chunks m)" using Suc_lessI [OF k] unfolding m_def by blast
  then have "underway dir recv_dir s file name c (In_chunk (int k), ?inbox, rx)"
  proof cases
    case final
    then have "sender_step s file name c (In_chunk (int k)) ?inbox = (Done, [], [])"
      using hears(1) by (simp only: if_True refl simp_thms)
    with tr final show ?thesis
      by (intro underwayI(4)) (simp del: tracks.simps sender_step.simps add: m_def)
  next
    case last
    have "sender_step s file name c (In_chunk (int k)) [ack_of m ci] = (At_end, [], [])" by (rule hears(3) [OF last(2)])
    moreover have "tracks dir recv_dir m file (Receiving (unat (m_total_chunks m)) {} e) rx"
      using tr last by (simp add: m_def del: tracks.simps)
    ultimately have "lacks_eof dir recv_dir s file name c (In_chunk (int k), [ack_of m ci], rx)"
      using rx(2) seen last(2) unfolding lacks_eof.simps Let_def m_def [symmetric] by auto
    with last(1) show ?thesis by (intro underwayI(3)) simp
  next
    case more
    note hears(2) [OF more]
    moreover have "tracks dir recv_dir m file (Receiving (Suc k) {} e) rx" using tr more by (simp add: m_def del: tracks.simps)
    ultimately have "about dir recv_dir s file name c (Suc k) (In_chunk (int k), [ack_of m ci], rx)"
      using rx seen unfolding about.simps Let_def m_def [symmetric] by auto
    with more show ?thesis by (intro underwayI(2) [where k = "Suc k"]) (simp_all add: m_def del: about.simps)
  qed
  then show ?thesis unfolding m_def ci_def .
qed

text \<open>What arrives of a pass and the mark after it.\<close>

lemma arrivals_of_pass:
  assumes "benign rolls (map (item_pdu m file) (pass_of ci is @ [EofMark]))"
  shows "benign rolls (map (item_pdu m file) (pass_of ci is))"
    and "arrivals rolls (map (item_pdu m file) (pass_of ci is) @ [item_pdu m file EofMark]) =
      arrivals rolls (map (item_pdu m file) (pass_of ci is)) @
      (if rolls (length is) = Intact then [item_pdu m file EofMark] else [])"
proof -
  have len: "length (map (item_pdu m file) (pass_of ci is)) = length is" by (simp add: pass_of_def)
  have ben: "benign rolls (map (item_pdu m file) (pass_of ci is))"
    "rolls (length is) = Lost \<or> rolls (length is) = Intact"
    using assms benign_eof [where roll = "rolls (length is)" and m = m]
    by (simp_all add: len del: item_pdu.simps) (simp add: pass_of_def)
  then show "benign rolls (map (item_pdu m file) (pass_of ci is))" by simp
  show "arrivals rolls (map (item_pdu m file) (pass_of ci is) @ [item_pdu m file EofMark]) =
      arrivals rolls (map (item_pdu m file) (pass_of ci is)) @
      (if rolls (length is) = Intact then [item_pdu m file EofMark] else [])"
    using ben(2) by (auto simp: arrivals_append len simp del: item_pdu.simps) (auto simp: pass_of_def)
qed

text \<open>The whole pass arrives and its mark too: the turn is one of the clean link.\<close>

lemma pass_and_mark_arrive:
  fixes s :: CfdpSender and "file" :: bytes and name :: string and c :: int and k :: nat and "is" :: "nat list"
  defines "m \<equiv> meta_of s file name (word_of_int c)" and "ci \<equiv> of_nat k :: u32"
  defines "pass \<equiv> map (item_pdu m file) (pass_of ci is)"
  assumes dirs: "dirs_ok dir recv_dir" and ok: "sender_ok s file name"
    and c: "0 \<le> c" "c < 2 ^ 32" "crc32_file zcrc (Some file) = word_of_int c"
    and k: "k < unat (m_total_chunks m)" and tr: "tracks dir recv_dir m file (Receiving k S e) rx"
    and "is": "distinct is" "set is \<inter> S = {}" "is \<noteq> []" "S \<union> set is = {..<packets_in m file ci}"
    and seen: "unat (r_max_chunk_seen rx) \<le> k"
    and st: "sender_step s file name c ph inbox = (In_chunk (int k), pass @ [item_pdu m file EofMark], [])"
    and whole: "\<And>i. i \<le> length is \<Longrightarrow> rolls i = Intact"
  shows "\<exists>t. noisy_turn zcrc s file name c rolls (ph, inbox, rx) = Some t \<and>
    underway dir recv_dir s file name c t"
proof -
  note ci = chunk_missing_index [OF k [unfolded m_def], folded m_def ci_def]
  have len: "length pass = length is" by (simp add: pass_def pass_of_def)
  with whole have "rolls i = Intact" if "i < length (pass @ [item_pdu m file EofMark])" for i
    using that by (simp del: item_pdu.simps)
  then have quiet: "noisy_turn zcrc s file name c rolls (ph, inbox, rx) =
      turn zcrc s file name c UNIV (ph, inbox, rx)" by (rule quiet_turn [OF st])
  have "nths (pass @ [item_pdu m file EofMark]) UNIV = map (item_pdu m file) (pass_of ci is @ [EofMark])"
    by (subst nths_all) (simp_all add: pass_def del: item_pdu.simps)
  from turn_completes [OF dirs ok c k [unfolded m_def], folded m_def, folded ci_def,
      OF tr "is" seen st this]
    obtain t where t: "noisy_turn zcrc s file name c rolls (ph, inbox, rx) = Some t" "fst t = In_chunk (int k)"
      "if Suc k = unat (m_total_chunks m) then finished dir recv_dir s file name c t
       else about dir recv_dir s file name c (Suc k) t" unfolding quiet by blast
    have "underway dir recv_dir s file name c t"
    proof (cases "Suc k = unat (m_total_chunks m)")
      case True
      with t(3) show ?thesis by (intro underwayI(4)) simp
    next
      case False
      with k t(2,3) show ?thesis by (intro underwayI(2) [where k = "Suc k"]) (simp_all add: m_def)
    qed
    with t(1) show ?thesis by blast
qed

text \<open>The whole pass arrives, its mark does not: the acknowledgement still comes.\<close>

lemma pass_arrives_without_mark:
  fixes s :: CfdpSender and "file" :: bytes and name :: string and c :: int and k :: nat and "is" :: "nat list"
  defines "m \<equiv> meta_of s file name (word_of_int c)" and "ci \<equiv> of_nat k :: u32"
  defines "pass \<equiv> map (item_pdu m file) (pass_of ci is)"
  assumes dirs: "dirs_ok dir recv_dir" and ok: "sender_ok s file name"
    and c: "0 \<le> c" "c < 2 ^ 32" "crc32_file zcrc (Some file) = word_of_int c"
    and k: "k < unat (m_total_chunks m)" and tr: "tracks dir recv_dir m file (Receiving k S e) rx"
    and "is": "distinct is" "set is \<inter> S = {}" "is \<noteq> []" "S \<union> set is = {..<packets_in m file ci}"
    and seen: "unat (r_max_chunk_seen rx) \<le> k"
    and st: "sender_step s file name c ph inbox = (In_chunk (int k), pass @ [item_pdu m file EofMark], [])"
    and arr: "arrivals rolls (pass @ [item_pdu m file EofMark]) = pass"
  shows "\<exists>t. noisy_turn zcrc s file name c rolls (ph, inbox, rx) = Some t \<and>
    underway dir recv_dir s file name c t"
proof -
  have desc: "describes m file" unfolding m_def by (rule describes_meta_of [OF ok])
  have sum: "crc32_file zcrc (Some file) = m_checksum m" using c(3) by (simp add: m_def meta_of_def)
  note ci = chunk_missing_index [OF k [unfolded m_def], folded m_def ci_def]
  from pass_said [OF dirs desc sum _ _ tr "is"(1,2) _ "is"(3) seen, of ci] ci "is"(4) obtain rx' where
    rx': "deliver zcrc pass rx = Inr rx'"
      "tracks dir recv_dir m file (if e \<and> Suc k = unat (m_total_chunks m) then Complete
        else Receiving (Suc k) {} e) rx'"
      "r_max_chunk_seen rx' = ci" "r_current_chunk_index rx' = UINT32_MAX"
      "said rx' = said rx @ ack_of m ci #
        (if e \<and> Suc k = unat (m_total_chunks m) then [ack_of m UINT32_MAX] else [])"
    by (auto simp: pass_def simp del: item_pdu.simps tracks.simps)
  from st rx'(1,5) have "noisy_turn zcrc s file name c rolls (ph, inbox, rx) = Some (In_chunk (int k),
      ack_of m ci # (if e \<and> Suc k = unat (m_total_chunks m) then [ack_of m UINT32_MAX] else []), rx')"
    by (simp add: noisy_turn_def answers_def arr del: item_pdu.simps)
  with chunk_acknowledged [OF ok c(1,2) k [unfolded m_def], folded m_def, folded ci_def, OF rx'(3,4,2)] show ?thesis by blast
qed

text \<open>A part of the pass is lost: the receiver keeps the rest and asks for the lost part if the mark
arrives.\<close>

lemma pass_partly_arrives:
  fixes s :: CfdpSender and "file" :: bytes and name :: string and c :: int and k :: nat and "is" :: "nat list"
  defines "m \<equiv> meta_of s file name (word_of_int c)" and "ci \<equiv> of_nat k :: u32"
  defines "pass \<equiv> map (item_pdu m file) (pass_of ci is)"
  assumes dirs: "dirs_ok dir recv_dir" and ok: "sender_ok s file name"
    and c: "0 \<le> c" "c < 2 ^ 32" "crc32_file zcrc (Some file) = word_of_int c"
    and k: "k < unat (m_total_chunks m)" and tr: "tracks dir recv_dir m file (Receiving k S e) rx"
    and "is": "distinct is" "set is \<inter> S = {}" "is \<noteq> []" "S \<union> set is = {..<packets_in m file ci}"
    and seen: "unat (r_max_chunk_seen rx) \<le> k"
    and st: "sender_step s file name c ph inbox = (In_chunk (int k), pass @ [item_pdu m file EofMark], [])"
    and some: "r_current_chunk_index rx \<noteq> UINT32_MAX \<or> (\<exists>i < length is. rolls i \<noteq> Lost)"
    and ben: "benign rolls (map (item_pdu m file) (pass_of ci is @ [EofMark]))"
    and part: "\<not> set is \<subseteq> intact rolls is"
  shows "\<exists>t. noisy_turn zcrc s file name c rolls (ph, inbox, rx) = Some t \<and>
    underway dir recv_dir s file name c t"
proof -
  have desc: "describes m file" unfolding m_def by (rule describes_meta_of [OF ok])
  have sum: "crc32_file zcrc (Some file) = m_checksum m" using c(3) by (simp add: m_def meta_of_def)
  note ci = chunk_missing_index [OF k [unfolded m_def], folded m_def ci_def]
  note arr = arrivals_of_pass [OF ben, folded pass_def]
  from part "is"(2,4) have "set is \<subseteq> {..<packets_in m file ci}"
    "\<not> {..<packets_in m file ci} \<subseteq> S \<union> intact rolls is" by auto
  from noisy_part_said [OF dirs desc sum _ _ tr "is"(1,2) this arr(1) [unfolded pass_def] seen] ci some obtain rx1 where
    rx1: "deliver zcrc (arrivals rolls pass) rx = Inr rx1"
      "tracks dir recv_dir m file (Receiving k (S \<union> intact rolls is) e) rx1"
      "unat (r_max_chunk_seen rx1) \<le> k" "said rx1 = said rx" "r_current_chunk_index rx1 \<noteq> UINT32_MAX" by (auto simp: pass_def)
  show ?thesis
  proof (cases "rolls (length is) = Intact")
    case True
    from eof_asks [OF dirs ok c(3) rx1(2) [unfolded m_def] rx1(5)] obtain rx2 nak js where
      rx2: "on_pdu_received zcrc (item_pdu m file EofMark) rx1 = Inr rx2"
        "tracks dir recv_dir m file (Receiving k (S \<union> intact rolls is) True) rx2"
        "r_max_chunk_seen rx2 = r_max_chunk_seen rx1" "r_current_chunk_index rx2 = r_current_chunk_index rx1"
        "said rx2 = said rx1 @ [serialize_nak nak]"
      and asks: "asks s file m k (S \<union> intact rolls is) [serialize_nak nak]"
      unfolding m_def [symmetric] asks_def by blast
    have "amid dir recv_dir s file name c k (In_chunk (int k), [serialize_nak nak], rx2)"
      using asks rx2(2-4) rx1(3,5) unfolding amid.simps Let_def m_def [symmetric] by auto
    moreover have "noisy_turn zcrc s file name c rolls (ph, inbox, rx) =
        Some (In_chunk (int k), [serialize_nak nak], rx2)"
      using st True rx1(1,4) rx2(1,5)
      by (simp add: noisy_turn_def answers_def arr(2) deliver_append del: item_pdu.simps)
    ultimately show ?thesis using underwayI(1) [OF k [unfolded m_def]] by blast
  next
    case False
    have "asks s file m k (S \<union> intact rolls is) []" by (simp add: asks_def)
    with rx1(2,3,5) have "amid dir recv_dir s file name c k (In_chunk (int k), [], rx1)"
      unfolding amid.simps Let_def m_def [symmetric] by auto
    moreover have "noisy_turn zcrc s file name c rolls (ph, inbox, rx) = Some (In_chunk (int k), [], rx1)"
      using st False rx1(1,4) by (simp add: noisy_turn_def answers_def arr(2) del: item_pdu.simps)
    ultimately show ?thesis using underwayI(1) [OF k [unfolded m_def]] by blast
  qed
qed

text \<open>What arrives of a pass keeps the conversation going, with or without the \<open>Eof\<close>.\<close>

lemma pass_arrives:
  assumes dirs: "dirs_ok dir recv_dir" and ok: "sender_ok s file name"
    and c: "0 \<le> c" "c < 2 ^ 32" "crc32_file zcrc (Some file) = word_of_int c"
    and k: "k < unat (m_total_chunks (meta_of s file name (word_of_int c)))"
    and tr: "tracks dir recv_dir (meta_of s file name (word_of_int c)) file (Receiving k S e) rx"
    and "is": "distinct is" "set is \<inter> S = {}" "is \<noteq> []"
      "S \<union> set is = {..<packets_in (meta_of s file name (word_of_int c)) file (of_nat k)}"
    and seen: "unat (r_max_chunk_seen rx) \<le> k"
    and some: "r_current_chunk_index rx \<noteq> UINT32_MAX \<or> (\<exists>i < length is. rolls i \<noteq> Lost)"
    and st: "sender_step s file name c ph inbox = (In_chunk (int k),
      map (item_pdu (meta_of s file name (word_of_int c)) file) (pass_of (of_nat k) is @ [EofMark]), [])"
    and ben: "benign rolls (map (item_pdu (meta_of s file name (word_of_int c)) file)
      (pass_of (of_nat k) is @ [EofMark]))"
  shows "\<exists>t. noisy_turn zcrc s file name c rolls (ph, inbox, rx) = Some t \<and>
    underway dir recv_dir s file name c t"
proof -
  define m where "m = meta_of s file name (word_of_int c)"
  define ci where "ci = (of_nat k :: u32)"
  note folds = m_def [symmetric] ci_def [symmetric]
  have st: "sender_step s file name c ph inbox =
      (In_chunk (int k), map (item_pdu m file) (pass_of ci is) @ [item_pdu m file EofMark], [])"
    using st by (simp add: folds del: item_pdu.simps)
  note arr = arrivals_of_pass [OF ben [unfolded folds]]
  note given = dirs ok c k tr "is" seen st [unfolded m_def ci_def]
  show ?thesis
  proof (cases "set is \<subseteq> intact rolls is")
    case True
    from all_intact [OF "is"(1) this] have intact: "rolls i = Intact" if "i < length is" for i using that by blast
    show ?thesis
    proof (cases "rolls (length is) = Intact")
      case True
      with intact have "rolls i = Intact" if "i \<le> length is" for i
        using that by (cases "i = length is") simp_all
      then show ?thesis by (rule pass_and_mark_arrive [OF given])
    next
      case False
      have "arrivals rolls (map (item_pdu m file) (pass_of ci is)) = map (item_pdu m file) (pass_of ci is)"
        using intact by (intro arrivals_intact) (simp add: pass_of_def)
      with arr(2) False show ?thesis
        by (intro pass_arrives_without_mark [OF given]) (simp add: m_def ci_def del: item_pdu.simps)
    qed
  next
    case False
    then show ?thesis by (rule pass_partly_arrives [OF given some ben])
  qed
qed

section \<open>Every turn of a fair conversation\<close>

lemma turn_about:
  assumes dirs: "dirs_ok dir recv_dir" and ok: "sender_ok s file name"
    and c: "0 \<le> c" "c < 2 ^ 32" "crc32_file zcrc (Some file) = word_of_int c"
    and k: "k < unat (m_total_chunks (meta_of s file name (word_of_int c)))"
    and ab: "about dir recv_dir s file name c k t" "fst t \<noteq> In_chunk (int k)"
    and fair: "gets_through s file name c rolls t"
  shows "\<exists>t'. noisy_turn zcrc s file name c rolls t = Some t' \<and> underway dir recv_dir s file name c t'"
proof -
  define m where "m = meta_of s file name (word_of_int c)"
  define ci where "ci = (of_nat k :: u32)"
  define n where "n = packets_in m file ci"
  let ?out = "map (item_pdu m file) (pass_of ci [0..<n] @ [EofMark])"
  obtain ph inbox rx e where t: "t = (ph, inbox, rx)"
    and st: "sender_step s file name c ph inbox = (In_chunk (int k), ?out, [])"
    and tr: "tracks dir recv_dir m file (Receiving k {} e) rx"
    and seen: "unat (r_max_chunk_seen rx) \<le> k"
    using ab(1) by (cases t) (auto simp: Let_def m_def ci_def n_def simp del: tracks.simps)
  have ben: "benign rolls ?out" and some: "\<exists>i < n. rolls i \<noteq> Lost"
    using fair ab(2) st by (simp_all add: gets_through_def t pass_of_def del: item_pdu.simps)
  then have js: "distinct [0..<n]" "set [0..<n] \<inter> {} = {}" "[0..<n] \<noteq> []" "{} \<union> set [0..<n] = {..<n}"
    "r_current_chunk_index rx \<noteq> UINT32_MAX \<or> (\<exists>i < length [0..<n]. rolls i \<noteq> Lost)"
    by auto
  from pass_arrives [OF dirs ok c k, folded m_def, folded ci_def, folded n_def, OF tr js(1-4) seen js(5) st ben]
  show ?thesis unfolding t .
qed

text \<open>A time-out within a chunk makes the receiver ask again.\<close>

lemma amid_timeout:
  assumes dirs: "dirs_ok dir recv_dir" and ok: "sender_ok s file name"
    and c: "0 \<le> c" "c < 2 ^ 32" "crc32_file zcrc (Some file) = word_of_int c"
    and am: "amid dir recv_dir s file name c k (In_chunk (int k), [], rx)"
    and fair: "gets_through s file name c rolls (In_chunk (int k), [], rx)"
  shows "\<exists>inbox' rx'. noisy_turn zcrc s file name c rolls (In_chunk (int k), [], rx) =
      Some (In_chunk (int k), inbox', rx') \<and>
    amid dir recv_dir s file name c k (In_chunk (int k), inbox', rx') \<and> (rolls 1 = Intact \<longrightarrow> inbox' \<noteq> [])"
proof -
  define m where "m = meta_of s file name (word_of_int c)"
  have desc: "describes m file" unfolding m_def by (rule describes_meta_of [OF ok])
  obtain S e where tr: "tracks dir recv_dir m file (Receiving k S e) rx"
    and cur: "r_current_chunk_index rx \<noteq> UINT32_MAX" and seen: "unat (r_max_chunk_seen rx) \<le> k"
    using am by (auto simp: Let_def m_def simp del: tracks.simps)
  from eof_asks [OF dirs ok c(3) tr [unfolded m_def] cur] obtain rx2 nak where
    rx2: "on_pdu_received zcrc (item_pdu m file EofMark) rx = Inr rx2"
      "tracks dir recv_dir m file (Receiving k S True) rx2"
      "r_max_chunk_seen rx2 = r_max_chunk_seen rx" "r_current_chunk_index rx2 = r_current_chunk_index rx"
      "said rx2 = said rx @ [serialize_nak nak]"
    and asks: "asks s file m k S [serialize_nak nak]"
    unfolding m_def [symmetric] asks_def by blast
  have next_ok: "amid dir recv_dir s file name c k (In_chunk (int k), [serialize_nak nak], rx2)"
    using asks rx2(2-4) cur seen unfolding amid.simps Let_def m_def [symmetric] by auto
  have meta: "on_pdu_received zcrc (metadata_pdu m) rx = Inr rx"
    by (rule metadata_again [OF desc tr])
  have ben: "benign_roll (rolls 0) (metadata_pdu m)" "benign_roll (rolls 1) (item_pdu m file EofMark)"
    using fair sender_timeout(1) [OF ok c(1,2), folded m_def]
    by (simp_all add: gets_through_def del: sender_step.simps item_pdu.simps)
  then have "arrivals rolls [metadata_pdu m, item_pdu m file EofMark] =
      (if rolls 0 = Intact then [metadata_pdu m] else []) @
      (if rolls 1 = Intact then [item_pdu m file EofMark] else [])"
    using benign_metadata [OF ben(1)] benign_eof [OF ben(2)] by (auto simp del: item_pdu.simps)
  then have "noisy_turn zcrc s file name c rolls (In_chunk (int k), [], rx) = Some (In_chunk (int k),
      if rolls 1 = Intact then [serialize_nak nak] else [], if rolls 1 = Intact then rx2 else rx)"
    using sender_timeout(1) [OF ok c(1,2), folded m_def] rx2(1,5) meta
    by (simp add: noisy_turn_def answers_def del: item_pdu.simps sender_step.simps arrivals.simps)
  with next_ok am show ?thesis by (cases "rolls 1 = Intact") auto
qed

text \<open>A NAK within a chunk makes the sender send what is missing.\<close>

lemma amid_asked:
  assumes ok: "sender_ok s file name" and c: "0 \<le> c" "c < 2 ^ 32"
    and am: "amid dir recv_dir s file name c k (ph, inbox, rx)" and "inbox \<noteq> []"
  obtains S e js where "ph = In_chunk (int k)"
    "tracks dir recv_dir (meta_of s file name (word_of_int c)) file (Receiving k S e) rx"
    "unat (r_max_chunk_seen rx) \<le> k" "r_current_chunk_index rx \<noteq> UINT32_MAX" "distinct js" "set js \<inter> S = {}" "js \<noteq> []"
    "S \<union> set js = {..<packets_in (meta_of s file name (word_of_int c)) file (of_nat k)}"
    "sender_step s file name c ph inbox = (In_chunk (int k),
       map (item_pdu (meta_of s file name (word_of_int c)) file) (pass_of (of_nat k) js @ [EofMark]), [])"
proof -
  let ?m = "meta_of s file name (word_of_int c)"
  obtain S e where tr: "tracks dir recv_dir ?m file (Receiving k S e) rx"
    and ph: "ph = In_chunk (int k)" "unat (r_max_chunk_seen rx) \<le> k"
      "r_current_chunk_index rx \<noteq> UINT32_MAX" and asks: "asks s file ?m k S inbox"
    using am by (auto simp: Let_def simp del: tracks.simps)
  then obtain nak js where js: "inbox = [serialize_nak nak]" "distinct js" "set js \<inter> S = {}"
    "S \<union> set js = {..<packets_in ?m file (of_nat k)}" "js \<noteq> []"
    "on_nak s file (tl (serialize_nak nak)) = (map (item_pdu ?m file) (pass_of (of_nat k) js), True)"
    using assms(5) unfolding asks_def by blast
  have "sender_step s file name c ph inbox =
      (In_chunk (int k), map (item_pdu ?m file) (pass_of (of_nat k) js @ [EofMark]), [])"
    using js(6) send_eof_item [OF ok c(1,2)]
    by (simp add: js(1) ph(1) chunk_step_def latest_nak_def go_def and_then_def del: item_pdu.simps)
  with tr ph js(2-5) that show ?thesis by blast
qed

lemma turn_amid:
  assumes dirs: "dirs_ok dir recv_dir" and ok: "sender_ok s file name"
    and c: "0 \<le> c" "c < 2 ^ 32" "crc32_file zcrc (Some file) = word_of_int c"
    and k: "k < unat (m_total_chunks (meta_of s file name (word_of_int c)))"
    and am: "amid dir recv_dir s file name c k (ph, inbox, rx)"
    and fair: "gets_through s file name c rolls (ph, inbox, rx)"
  shows "\<exists>t'. noisy_turn zcrc s file name c rolls (ph, inbox, rx) = Some t' \<and>
    underway dir recv_dir s file name c t'"
proof (cases "inbox = []")
  case True
  with am have "ph = In_chunk (int k)" by (simp add: Let_def)
  with True amid_timeout [OF dirs ok c, of k rx rolls] am fair underwayI(1) [OF k] show ?thesis by blast
next
  case False
  let ?m = "meta_of s file name (word_of_int c)"
  obtain S e js where tr: "tracks dir recv_dir ?m file (Receiving k S e) rx"
    and seen: "unat (r_max_chunk_seen rx) \<le> k" and cur: "r_current_chunk_index rx \<noteq> UINT32_MAX"
    and js: "distinct js" "set js \<inter> S = {}" "js \<noteq> []" "S \<union> set js = {..<packets_in ?m file (of_nat k)}"
    and st: "sender_step s file name c ph inbox =
      (In_chunk (int k), map (item_pdu ?m file) (pass_of (of_nat k) js @ [EofMark]), [])"
    by (rule amid_asked [OF ok c(1,2) am False])
  have "benign rolls (map (item_pdu ?m file) (pass_of (of_nat k) js @ [EofMark]))"
    using fair st by (simp add: gets_through_def del: sender_step.simps item_pdu.simps)
  from pass_arrives [OF dirs ok c k tr js seen disjI1 [OF cur] st this] show ?thesis .
qed

text \<open>With everything acknowledged, only the \<open>Eof\<close> is sent again until the final ACK.\<close>

lemma turn_lacks_eof:
  assumes dirs: "dirs_ok dir recv_dir" and ok: "sender_ok s file name"
    and c: "0 \<le> c" "c < 2 ^ 32" "crc32_file zcrc (Some file) = word_of_int c"
    and lk: "lacks_eof dir recv_dir s file name c t" and fair: "gets_through s file name c rolls t"
  shows "\<exists>t'. noisy_turn zcrc s file name c rolls t = Some t' \<and>
    (lacks_eof dir recv_dir s file name c t' \<and> fst t' = At_end \<and> fst (snd t') = [] \<or>
     finished dir recv_dir s file name c t') \<and>
    (fst t = At_end \<and> fst (snd t) = [] \<and> rolls 0 = Intact \<longrightarrow> finished dir recv_dir s file name c t')"
proof -
  define m where "m = meta_of s file name (word_of_int c)"
  have desc: "describes m file" unfolding m_def by (rule describes_meta_of [OF ok])
  have sum: "crc32_file zcrc (Some file) = m_checksum m" using c(3) by (simp add: m_def meta_of_def)
  obtain ph inbox rx e where t: "t = (ph, inbox, rx)"
    and st: "sender_step s file name c ph inbox = (At_end, [], []) \<or> ph = At_end \<and> inbox = []"
    and tr: "tracks dir recv_dir m file (Receiving (unat (m_total_chunks m)) {} e) rx"
    and rx: "r_current_chunk_index rx = UINT32_MAX" "unat (r_max_chunk_seen rx) < unat (m_total_chunks m)"
    using lk by (cases t) (auto simp: Let_def m_def simp del: tracks.simps sender_step.simps)
  have rest: "lacks_eof dir recv_dir s file name c (At_end, [], rx)"
    using tr rx unfolding lacks_eof.simps Let_def m_def [symmetric] by blast
  from eof_idle [OF dirs desc sum tr rx] obtain rx' where
    rx': "on_pdu_received zcrc (item_pdu m file EofMark) rx = Inr rx'"
      "tracks dir recv_dir m file Complete rx'" "said rx' = said rx @ [ack_of m UINT32_MAX]"
    by (auto simp del: item_pdu.simps tracks.simps)
  have "sender_step s file name c At_end [ack_of m UINT32_MAX] = (Done, [], [])"
    by (simp add: end_step_def ACK_FINAL_def)
  with rx'(2) have over: "finished dir recv_dir s file name c (At_end, [ack_of m UINT32_MAX], rx')"
    unfolding finished.simps m_def [symmetric] by blast
  note timeout = sender_timeout(2) [OF ok c(1,2), folded m_def]
  have stay: "sender_step s file name c ph inbox \<noteq> (At_end, [], [])" if "ph = At_end" "inbox = []"
    using timeout that by simp
  show ?thesis
  proof (cases "ph = At_end \<and> inbox = []")
    case True
    with fair timeout have "rolls 0 = Lost \<or> rolls 0 = Intact"
      by (intro benign_eof) (simp add: gets_through_def t del: sender_step.simps item_pdu.simps)
    with True have "noisy_turn zcrc s file name c rolls t = Some (At_end,
        if rolls 0 = Intact then [ack_of m UINT32_MAX] else [], if rolls 0 = Intact then rx' else rx)"
      using timeout rx'(1,3) by (auto simp: t noisy_turn_def answers_def simp del: item_pdu.simps sender_step.simps)
    with over rest show ?thesis by auto
  next
    case False
    with st have "noisy_turn zcrc s file name c rolls t = Some (At_end, [], rx)"
      by (auto simp: t noisy_turn_def answers_def simp del: sender_step.simps)
    with rest False show ?thesis by (auto simp: t simp del: lacks_eof.simps)
  qed
qed

lemma turn_finished:
  assumes "finished dir recv_dir s file name c t"
  shows "\<exists>rx. noisy_turn zcrc s file name c rolls t = Some (Done, [], rx) \<and>
    tracks dir recv_dir (meta_of s file name (word_of_int c)) file Complete rx"
  using assms by (cases t) (auto simp: noisy_turn_def answers_def simp del: tracks.simps)

lemma fair_turn:
  assumes dirs: "dirs_ok dir recv_dir" and ok: "sender_ok s file name"
    and c: "0 \<le> c" "c < 2 ^ 32" "crc32_file zcrc (Some file) = word_of_int c"
    and t: "underway dir recv_dir s file name c t" and fair: "gets_through s file name c rolls t"
  shows "\<exists>t'. noisy_turn zcrc s file name c rolls t = Some t' \<and> underway dir recv_dir s file name c t'"
proof -
  consider k where "k < unat (m_total_chunks (meta_of s file name (word_of_int c)))"
      "about dir recv_dir s file name c k t" "fst t \<noteq> In_chunk (int k)"
    | k where "k < unat (m_total_chunks (meta_of s file name (word_of_int c)))"
      "amid dir recv_dir s file name c k t"
    | "lacks_eof dir recv_dir s file name c t"
    | "finished dir recv_dir s file name c t"
    using t unfolding underway_def by blast
  then show ?thesis
  proof cases
    case 1
    then show ?thesis using turn_about [OF dirs ok c _ _ _ fair] by blast
  next
    case 2
    then show ?thesis using turn_amid [OF dirs ok c] fair by (cases t) blast
  next
    case 3
    from turn_lacks_eof [OF dirs ok c this fair] show ?thesis using underwayI(3,4) by blast
  next
    case 4
    from turn_finished [OF this, of zcrc rolls] obtain rx where
      "noisy_turn zcrc s file name c rolls t = Some (Done, [], rx)" "finished dir recv_dir s file name c (Done, [], rx)"
      by auto
    then show ?thesis using underwayI(4) by blast
  qed
qed

lemma fair_turns:
  assumes "dirs_ok dir recv_dir" and "sender_ok s file name"
    and "0 \<le> c" and "c < 2 ^ 32" and "crc32_file zcrc (Some file) = word_of_int c"
    and "underway dir recv_dir s file name c t" and "fair zcrc s file name c rs t"
  shows "\<exists>t'. noisy_turns zcrc s file name c rs t = Some t' \<and> underway dir recv_dir s file name c t'"
  using assms(6,7)
proof (induction rs arbitrary: t)
  case (Cons rolls rs)
  from Cons.prems fair_turn [OF assms(1-5), of t rolls] obtain t' where
    t': "noisy_turn zcrc s file name c rolls t = Some t'" "underway dir recv_dir s file name c t'" by auto
  with Cons show ?case by simp
qed simp

section \<open>When the noise stops\<close>

lemma quiet_gets_through:
  assumes "\<not> first_pass ph (fst (sender_step s file name c ph inbox))"
  shows "gets_through s file name c (\<lambda>_. Intact) (ph, inbox, rx)"
  using assms by (auto simp: gets_through_def benign_def benign_roll_def split: prod.splits)

lemma turns_done: "turns zcrc s file name c (replicate n UNIV) (Done, [], rx) = Some (Done, [], rx)"
  by (induction n) (simp_all add: turn_def answers_def)

lemma lossless_about:
  assumes dirs: "dirs_ok dir recv_dir" and ok: "sender_ok s file name"
    and c: "0 \<le> c" "c < 2 ^ 32" "crc32_file zcrc (Some file) = word_of_int c"
    and k: "k < unat (m_total_chunks (meta_of s file name (word_of_int c)))"
    and ab: "about dir recv_dir s file name c k t"
  shows "\<exists>rx. turns zcrc s file name c
      (replicate (Suc (unat (m_total_chunks (meta_of s file name (word_of_int c))) - k)) UNIV) t = Some (Done, [], rx) \<and>
    tracks dir recv_dir (meta_of s file name (word_of_int c)) file Complete rx"
proof -
  let ?m = "meta_of s file name (word_of_int c)"
  have "chunk_turns ?m file (\<lambda>_. UNIV) j = [UNIV]" for j by (simp add: chunk_turns_def Let_def)
  then have "concat (map (chunk_turns ?m file (\<lambda>_. UNIV)) xs) = replicate (length xs) UNIV" for xs
    by (induction xs) simp_all
  from this [of "[k..<unat (m_total_chunks ?m)]"]
  have "transfer_turns ?m file (\<lambda>_. UNIV) k = replicate (Suc (unat (m_total_chunks ?m) - k)) UNIV"
    by (simp add: transfer_turns_def replicate_append_same)
  moreover have "UNIV \<inter> {..<packets_in ?m file (of_nat j)} \<noteq> {}" if "j < unat (m_total_chunks ?m)" for j
    using packets_in_pos [OF describes_meta_of [OF ok], of "of_nat j"] chunk_missing_index [OF that] by auto
  ultimately show ?thesis using chunks_round [OF dirs ok c k ab, of "\<lambda>_. UNIV"] by auto
qed

text \<open>Enough turns without losses, and all that follow.\<close>

definition ends_within :: "zlib_crc32 \<Rightarrow> CfdpSender \<Rightarrow> bytes \<Rightarrow> string \<Rightarrow> int \<Rightarrow> path \<Rightarrow> path \<Rightarrow> nat \<Rightarrow> talk \<Rightarrow> bool" where
  "ends_within zcrc s file name c dir recv_dir n t \<longleftrightarrow>
     (\<exists>rx. turns zcrc s file name c (replicate n UNIV) t = Some (Done, [], rx) \<and>
        tracks dir recv_dir (meta_of s file name (word_of_int c)) file Complete rx)"

lemma ends_within_mono:
  assumes "ends_within zcrc s file name c dir recv_dir n t" and "n \<le> n'"
  shows "ends_within zcrc s file name c dir recv_dir n' t"
proof -
  have "replicate n' (UNIV :: nat set) = replicate n UNIV @ replicate (n' - n) UNIV"
    using assms(2) by (simp flip: replicate_add)
  with assms(1) show ?thesis by (auto simp: ends_within_def turns_append turns_done)
qed

lemma ends_within_Suc:
  "turn zcrc s file name c UNIV t = Some t' \<Longrightarrow> ends_within zcrc s file name c dir recv_dir n t' \<Longrightarrow>
     ends_within zcrc s file name c dir recv_dir (Suc n) t"
  by (simp add: ends_within_def)

lemma finished_ends:
  assumes "finished dir recv_dir s file name c t"
  shows "ends_within zcrc s file name c dir recv_dir (Suc 0) t"
  using turn_finished [OF assms, of zcrc "\<lambda>_. Intact"]
  by (auto simp: ends_within_def noiseless_turn simp del: tracks.simps)

lemma amid_ends:
  assumes dirs: "dirs_ok dir recv_dir" and ok: "sender_ok s file name"
    and c: "0 \<le> c" "c < 2 ^ 32" "crc32_file zcrc (Some file) = word_of_int c"
    and k: "k < unat (m_total_chunks (meta_of s file name (word_of_int c)))"
    and am: "amid dir recv_dir s file name c k (ph, inbox, rx)" and some: "inbox \<noteq> []"
  shows "ends_within zcrc s file name c dir recv_dir
    (Suc (unat (m_total_chunks (meta_of s file name (word_of_int c))) - k)) (ph, inbox, rx)"
proof -
  let ?m = "meta_of s file name (word_of_int c)"
  obtain S e js where tr: "tracks dir recv_dir ?m file (Receiving k S e) rx"
    and seen: "unat (r_max_chunk_seen rx) \<le> k" and js: "distinct js" "set js \<inter> S = {}" "js \<noteq> []"
      "S \<union> set js = {..<packets_in ?m file (of_nat k)}"
    and st: "sender_step s file name c ph inbox =
      (In_chunk (int k), map (item_pdu ?m file) (pass_of (of_nat k) js @ [EofMark]), [])"
    by (rule amid_asked [OF ok c(1,2) am some])
  have "nths xs UNIV = xs" for xs :: "bytes list" by (rule nths_all) simp
  from turn_completes [OF dirs ok c k tr js seen st this] obtain t where
    t: "turn zcrc s file name c UNIV (ph, inbox, rx) = Some t"
      "if Suc k = unat (m_total_chunks ?m) then finished dir recv_dir s file name c t
       else about dir recv_dir s file name c (Suc k) t" by blast
  have "ends_within zcrc s file name c dir recv_dir (unat (m_total_chunks ?m) - k) t"
  proof (cases "Suc k = unat (m_total_chunks ?m)")
    case True
    then have "unat (m_total_chunks ?m) - k = Suc 0" by simp
    with finished_ends [OF t(2) [unfolded if_P [OF True]]] show ?thesis by (simp only:)
  next
    case False
    with k have k1: "Suc k < unat (m_total_chunks ?m)" by simp
    with t(2) lossless_about [OF dirs ok c k1, of t] False show ?thesis
      by (simp add: ends_within_def Suc_diff_Suc)
  qed
  from ends_within_Suc [OF t(1) this] k show ?thesis by (simp add: Suc_diff_le)
qed

lemma underway_ends:
  assumes dirs: "dirs_ok dir recv_dir" and ok: "sender_ok s file name"
    and c: "0 \<le> c" "c < 2 ^ 32" "crc32_file zcrc (Some file) = word_of_int c"
    and t: "underway dir recv_dir s file name c t"
  shows "ends_within zcrc s file name c dir recv_dir
    (unat (m_total_chunks (meta_of s file name (word_of_int c))) + 2) t"
proof -
  let ?n = "unat (m_total_chunks (meta_of s file name (word_of_int c)))"
  have "accepted (meta_of s file name (word_of_int c))"
    using describes_meta_of [OF ok] by (simp add: describes_def)
  then have n: "0 < ?n" by (simp add: accepted_def word_less_nat_alt)
  consider (start) k where "k < ?n" "about dir recv_dir s file name c k t"
    | (within) k where "k < ?n" "amid dir recv_dir s file name c k t"
    | (eof) "lacks_eof dir recv_dir s file name c t"
    | (over) "finished dir recv_dir s file name c t"
    using t unfolding underway_def by blast
  then show ?thesis
  proof cases
    case start
    then show ?thesis
      by (intro ends_within_mono [OF lossless_about [OF dirs ok c start, folded ends_within_def]]) simp
  next
    case within
    obtain ph inbox rx where p: "t = (ph, inbox, rx)" by (cases t)
    show ?thesis
    proof (cases "inbox = []")
      case True
      with within p have "ph = In_chunk (int k)" by (simp add: Let_def)
      moreover from this have "gets_through s file name c (\<lambda>_. Intact) (ph, inbox, rx)"
        using True sender_timeout(1) [OF ok c(1,2)] by (intro quiet_gets_through) (simp del: sender_step.simps)
      ultimately obtain inbox' rx' where
        t': "turn zcrc s file name c UNIV t = Some (In_chunk (int k), inbox', rx')"
          "amid dir recv_dir s file name c k (In_chunk (int k), inbox', rx')" "inbox' \<noteq> []"
        using amid_timeout [OF dirs ok c, of k rx "\<lambda>_. Intact"] within(2) True unfolding p noiseless_turn by auto
      from ends_within_Suc [OF t'(1) amid_ends [OF dirs ok c within(1) t'(2,3)]] show ?thesis
        by (rule ends_within_mono) simp
    next
      case False
      from amid_ends [OF dirs ok c within(1) within(2) [unfolded p] False] show ?thesis
        unfolding p by (rule ends_within_mono) simp
    qed
  next
    case eof
    have quiet: "gets_through s file name c (\<lambda>_. Intact) t" if "lacks_eof dir recv_dir s file name c t" for t
      using that sender_timeout(2) [OF ok c(1,2)]
      by (cases t) (auto intro!: quiet_gets_through simp: Let_def simp del: sender_step.simps)
    from turn_lacks_eof [OF dirs ok c eof quiet [OF eof], unfolded noiseless_turn] obtain t1 where
      t1: "turn zcrc s file name c UNIV t = Some t1"
        "lacks_eof dir recv_dir s file name c t1 \<and> fst t1 = At_end \<and> fst (snd t1) = [] \<or>
         finished dir recv_dir s file name c t1" by blast
    have "ends_within zcrc s file name c dir recv_dir 2 t1"
    proof (cases "finished dir recv_dir s file name c t1")
      case True
      from finished_ends [OF this] show ?thesis by (rule ends_within_mono) simp
    next
      case False
      with t1(2) turn_lacks_eof [OF dirs ok c _ quiet, of t1, unfolded noiseless_turn] obtain t2 where
        "turn zcrc s file name c UNIV t1 = Some t2" "finished dir recv_dir s file name c t2" by auto
      from ends_within_Suc [OF this(1) finished_ends [OF this(2)]] show ?thesis by (simp add: numeral_2_eq_2)
    qed
    from ends_within_Suc [OF t1(1) this] show ?thesis
      by (rule ends_within_mono) (use n in simp)
  next
    case over
    from finished_ends [OF this] show ?thesis by (rule ends_within_mono) simp
  qed
qed

text \<open>The conversation as a whole: from its start, and after any fair losses.\<close>

lemma talk_start_querying:
  assumes "sender_ok s file name" and "talk_start zcrc s file name c rx = Some t"
  shows "fst t \<noteq> In_chunk k"
  using assms by (auto simp: talk_start_def send_start_def go_def sender_ok_def split: if_splits sum.splits)

lemma talk_start_underway:
  assumes ok: "sender_ok s file name" and t: "talk_start zcrc s file name c rx = Some t"
    and ab: "about dir recv_dir s file name c 0 t"
  shows "underway dir recv_dir s file name c t"
proof (rule underwayI(2) [OF _ ab talk_start_querying [OF ok t]])
  have "accepted (meta_of s file name (word_of_int c))"
    using describes_meta_of [OF ok] by (simp add: describes_def)
  then show "0 < unat (m_total_chunks (meta_of s file name (word_of_int c)))"
    by (simp add: accepted_def word_less_nat_alt)
qed

lemma fair_conversation:
  assumes "dirs_ok dir recv_dir" and ok: "sender_ok s file name"
    and "0 \<le> c" and "c < 2 ^ 32" and "crc32_file zcrc (Some file) = word_of_int c"
    and "underway dir recv_dir s file name c t"
  shows "\<forall>noise. fair zcrc s file name c noise t \<longrightarrow>
    (\<exists>rx. noisy_turns zcrc s file name c (noise @ replicate
        (unat (m_total_chunks (meta_of s file name (word_of_int c))) + 2) (\<lambda>_. Intact)) t = Some (Done, [], rx) \<and>
      w_files (r_world rx) (recv_dir @ ascii ''/'' @ ascii name) = Some file \<and> \<not> r_transfer_active rx)"
proof (intro allI impI)
  fix noise
  assume "fair zcrc s file name c noise t"
  from fair_turns [OF assms this] obtain t' where
    t': "noisy_turns zcrc s file name c noise t = Some t'" "underway dir recv_dir s file name c t'" by blast
  from underway_ends [OF assms(1-5) t'(2)] t'(1) complete_on_disk [OF ok]
  show "\<exists>rx. noisy_turns zcrc s file name c (noise @ replicate
        (unat (m_total_chunks (meta_of s file name (word_of_int c))) + 2) (\<lambda>_. Intact)) t = Some (Done, [], rx) \<and>
      w_files (r_world rx) (recv_dir @ ascii ''/'' @ ascii name) = Some file \<and> \<not> r_transfer_active rx"
    unfolding ends_within_def noisy_turns_append quiet_turns by fastforce
qed

end
