(* ===== verification/Cfdp_Runs.thy ===== *)
theory Cfdp_Runs
  imports Cfdp_Losses
begin

text \<open>
  States the example transfer passes through: the first chunk acknowledged, the journal naming
  it, and the crash on a file name without terminator. They are where the properties of
  \<open>Spec2Isabelle\<close> are applied.
\<close>

text \<open>Intermediate states of the run.\<close>

lemma ex_two: "{0 :: nat, 1} = {..<2}" "{0} \<noteq> {..<2 :: nat}" "{1} \<noteq> {..<2 :: nat}"
  by (auto simp: lessThan_Suc numeral_2_eq_2)

lemma ex_begun:
  "\<exists>rx. on_pdu_received ex_zcrc (metadata_pdu ex_meta) ex_receiver = Inr rx \<and>
     tracks ex_dir ex_recv_dir ex_meta ex_file (Receiving 0 {} False) rx"
  by (rule start_tracks [OF ex_dirs_ok ex_describes ex_boot(2)])
    (simp_all add: ex_receiver_def receiver_new_def ex_fresh, simp add: ex_meta_def)

definition ex_first_chunk :: "bytes list" where
  "ex_first_chunk = metadata_pdu ex_meta # map (item_pdu ex_meta ex_file) [Arrives 0 0, Arrives 0 1]"

lemma ex_one_chunk:
  "\<exists>rx. deliver ex_zcrc ex_first_chunk ex_receiver = Inr rx \<and>
     tracks ex_dir ex_recv_dir ex_meta ex_file (Receiving 1 {} False) rx"
proof -
  obtain rx where rx: "on_pdu_received ex_zcrc (metadata_pdu ex_meta) ex_receiver = Inr rx"
      "tracks ex_dir ex_recv_dir ex_meta ex_file (Receiving 0 {} False) rx"
    using ex_begun by blast
  have ok: "items_ok ex_meta ex_file (Receiving 0 {} False) [Arrives 0 0, Arrives 0 1]"
    using ex_two(2) by (simp add: ex_packets ex_sizes)
  have "foldl (progress_step ex_meta ex_file) (Receiving 0 {} False) [Arrives 0 0, Arrives 0 1] =
      Receiving 1 {} False"
    using ex_two(1,2) by (simp add: ex_packets ex_sizes insert_commute)
  with deliver_tracks [OF ex_dirs_ok ex_describes ex_checksum rx(2) ok] rx(1) show ?thesis
    by (auto simp: ex_first_chunk_def simp del: item_pdu.simps)
qed

lemma ex_first_chunk_honest: "set ex_first_chunk \<subseteq> Collect (honest_pdu ex_meta ex_file)"
proof -
  have "items_ok ex_meta ex_file (Receiving 0 {} False) [Arrives 0 0, Arrives 0 1]"
    using ex_two(2) by (simp add: ex_packets ex_sizes)
  from items_honest [OF ex_describes this] metadata_honest [of ex_meta ex_file] ex_describes
  show ?thesis by (auto simp: ex_first_chunk_def describes_def simp del: item_pdu.simps)
qed
lemma ex_acked:
  "\<exists>rx. (step ex_zcrc ex_dir ex_recv_dir (Collect (honest_pdu ex_meta ex_file)))\<^sup>*\<^sup>*
      (Down None ex_world) (Running rx) \<and>
    Sent (ack_pdu \<lparr>a_transaction_id = m_transaction_id ex_meta, a_chunk_index = 0\<rparr>)
      \<in> set (w_log (r_world rx))"
proof -
  obtain rx where rx: "deliver ex_zcrc ex_first_chunk ex_receiver = Inr rx"
      "tracks ex_dir ex_recv_dir ex_meta ex_file (Receiving 1 {} False) rx"
    using ex_one_chunk by blast
  let ?d = "packet_pdu ex_meta ex_file 0 0 (packet_of ex_meta ex_file 0 0) (crc8 (packet_of ex_meta ex_file 0 0))"
  have ok: "item_ok ex_meta ex_file (Receiving 1 {} False) (Arrives 0 0)"
    by (simp add: ex_packets ex_sizes)
  have tr: "r_transfer_active rx" "transfer_of ex_recv_dir ex_meta (r_state rx)"
    "chunk_finished (r_state rx) 0"
    using rx(2) by (auto simp: honest_rx_def honest_core_def shows_progress_def ex_sizes)
  have "data_for ?d rx"
    by (rule data_for_item [OF ex_describes tr(1,2)]) (simp_all add: ex_packets ex_sizes)
  then have "handle_data ex_zcrc ?d rx = Inr (send_ack 0 (note_seen 0 rx))"
    by (cases rule: handle_data_elim [of ?d rx ex_zcrc]) (use tr in \<open>auto simp: packet_pdu_def data_for_def\<close>)
  moreover have "on_pdu_received ex_zcrc (item_pdu ex_meta ex_file (Arrives 0 0)) rx = handle_data ex_zcrc ?d rx"
    by (subst item_on_pdu [OF ex_describes ok]) (simp add: item_data_def Let_def)
  ultimately have run: "deliver ex_zcrc (ex_first_chunk @ [item_pdu ex_meta ex_file (Arrives 0 0)]) ex_receiver =
      Inr (send_ack 0 (note_seen 0 rx))"
    using rx(1) by (simp add: deliver_append del: item_pdu.simps)
  have "honest_pdu ex_meta ex_file (item_pdu ex_meta ex_file (Arrives 0 0))"
    by (rule item_honest [OF ex_describes ok])
  with ex_reachable [OF run] ex_first_chunk_honest
  have "(step ex_zcrc ex_dir ex_recv_dir (Collect (honest_pdu ex_meta ex_file)))\<^sup>*\<^sup>*
      (Down None ex_world) (Running (send_ack 0 (note_seen 0 rx)))"
    by (simp del: item_pdu.simps)
  then show ?thesis using tr(2) by (intro exI conjI) (assumption, simp add: transfer_of_def)
qed

lemma ex_stored:
  "\<exists>rx js. (step ex_zcrc ex_dir ex_recv_dir (Collect (honest_pdu ex_meta ex_file)))\<^sup>*\<^sup>*
      (Down None ex_world) (Running rx) \<and>
    stored (journal_new ex_dir) (r_world rx) = Some js \<and>
    0 < length (js_chunk_done js) \<and> js_chunk_done js ! 0"
proof -
  obtain rx where rx: "deliver ex_zcrc ex_first_chunk ex_receiver = Inr rx"
      "tracks ex_dir ex_recv_dir ex_meta ex_file (Receiving 1 {} False) rx"
    using ex_one_chunk by blast
  have "rx_inv ex_dir ex_recv_dir ex_receiver" "calm (r_world ex_receiver)" "in_sync ex_dir ex_receiver"
    using ex_boot(2) by (simp_all add: honest_rx_def) (simp_all add: ex_receiver_def receiver_new_def ex_fresh)
  from deliver_sync [OF this rx(1)] rx(2) have
    "stored (journal_new ex_dir) (r_world rx) = Some (r_state rx)" "chunk_finished (r_state rx) 0"
    by (auto simp: in_sync_def shows_progress_def ex_sizes)
  with ex_reachable [OF rx(1) ex_first_chunk_honest] show ?thesis
    by (auto simp: chunk_finished_def)
qed

text \<open>A \<open>Metadata\<close> whose name field has no terminator.\<close>

definition ex_unterminated :: MetadataPdu where
  "ex_unterminated = ex_meta\<lparr>m_filename := replicate 256 104\<rparr>"

lemma ex_overread:
  "\<exists>w. (step ex_zcrc ex_dir ex_recv_dir UNIV)\<^sup>*\<^sup>* (Down None ex_world)
      (Down (Some (Undefined Unterminated_string)) w)"
proof -
  let ?m = "ex_unterminated"
  have c: "cstr (replicate n 104) = replicate n (104 :: u8)" for n
    by (induction n) (simp_all add: cstr_def)
  have no: "47 \<notin> set (replicate 256 (104 :: u8))" by simp
  have dd: "\<not> contains (replicate n (104 :: u8)) [46, 46]" for n
    by (induction n) auto
  have "accepted ?m"
    using ex_describes no dd [of 256]
    by (simp add: describes_def accepted_def ex_unterminated_def c safe_filename_def contains_slash)
  moreover have "\<not> terminated (m_filename ?m)" by (simp add: ex_unterminated_def terminated_def)
  moreover have "pl_inv (r_packet_list ex_receiver)" "\<not> r_transfer_active ex_receiver"
    "r_last_acked_id ex_receiver \<noteq> m_transaction_id ?m"
    using pl_inv_new(1) by (simp_all add: ex_receiver_def receiver_new_def ex_unterminated_def ex_meta_def)
  ultimately obtain w where "handle_metadata ?m ex_receiver = Inl (Undefined Unterminated_string, w)"
    using handle_metadata_cases [of ex_receiver ?m] by auto
  moreover have "metadata_fits ?m" by (simp add: metadata_fits_def ex_unterminated_def)
  ultimately have "step ex_zcrc ex_dir ex_recv_dir UNIV (Running ex_receiver)
      (Down (Some (Undefined Unterminated_string)) w)"
    by (intro step.raised [of "metadata_pdu ?m"]) (simp_all add: on_pdu_received_metadata)
  with ex_booted show ?thesis by (meson converse_rtranclp_into_rtranclp r_into_rtranclp)
qed

lemma on_disk_slice:
  assumes "on_disk recv_dir m file ci d"
  shows "\<exists>c. d (dest_of recv_dir m) = Some c \<and>
    slice (unat ci * unat (m_chunk_size m)) (length (chunk_of m file ci)) c = chunk_of m file ci"
proof -
  let ?off = "unat ci * unat (m_chunk_size m)" and ?n = "length (chunk_of m file ci)"
  obtain c where c: "d (dest_of recv_dir m) = Some c"
    and at: "\<And>k. k < ?n \<Longrightarrow> ?off + k < length c \<and> c ! (?off + k) = file ! (?off + k)"
    using assms by (auto simp: on_disk_def)
  have "slice ?off ?n c = chunk_of m file ci"
  proof (cases "?n = 0")
    case True
    then show ?thesis by (simp add: slice_def)
  next
    case False
    then obtain n where n: "?n = Suc n" by (cases ?n) auto
    with at [of n] have "?off + ?n \<le> length c" by simp
    with at show ?thesis by (simp add: slice_eq_iff chunk_of_nth)
  qed
  with c show ?thesis by blast
qed

lemma ex_path: "ex_recv_dir @ ascii ''/'' @ cstr (m_filename ex_meta) = ascii ''r/hi''"
  by (simp add: ex_cstr ex_recv_dir_def)

lemma ex_meta_of: "meta_of ex_sender ex_file ''hi'' (crc32_file ex_zcrc (Some ex_file)) = ex_meta"
proof -
  have "total_chunks_of ex_sender ex_file = 2"
    by (simp add: total_chunks_of_def ex_sender_def ex_file_def)
  then show ?thesis
    by (simp add: meta_of_def ex_meta_def ex_sender_def ljust_def) (simp add: ex_file_def)
qed

lemma ex_one_chunk_sync:
  "\<exists>rx. tracks ex_dir ex_recv_dir ex_meta ex_file (Receiving 1 {} False) rx \<and> in_sync ex_dir rx"
proof -
  obtain rx where rx: "deliver ex_zcrc ex_first_chunk ex_receiver = Inr rx"
      "tracks ex_dir ex_recv_dir ex_meta ex_file (Receiving 1 {} False) rx"
    using ex_one_chunk by blast
  have "rx_inv ex_dir ex_recv_dir ex_receiver" "calm (r_world ex_receiver)" "in_sync ex_dir ex_receiver"
    using ex_boot(2) by (simp_all add: honest_rx_def) (simp_all add: ex_receiver_def receiver_new_def ex_fresh)
  from deliver_sync [OF this rx(1)] rx(2) show ?thesis by blast
qed

lemma ex_one_chunk_booted:
  "\<exists>rx. tracks ex_dir ex_recv_dir ex_meta ex_file (Receiving 1 {} False) rx \<and>
     r_current_chunk_index rx = UINT32_MAX \<and> r_max_chunk_seen rx = 0"
proof -
  obtain rx where rx: "tracks ex_dir ex_recv_dir ex_meta ex_file (Receiving 1 {} False) rx" "in_sync ex_dir rx"
    using ex_one_chunk_sync by blast
  then have h: "calm (r_world rx)" "stored (journal_new ex_dir) (r_world rx) = Some (r_state rx)"
    "\<not> js_eof_received (r_state rx)" "terminated (js_filename (r_state rx))"
    "honest_world ex_dir ex_recv_dir ex_meta ex_file (w_log (r_world rx)) (w_files (r_world rx))"
    by (auto simp: in_sync_def shows_progress_def honest_rx_def honest_core_def transfer_of_def)
  obtain rx' where rx': "on_boot ex_zcrc (receiver_new ex_dir ex_recv_dir unset_state (r_world rx)) = Inr rx'"
    "r_state rx' = r_state rx" "r_transfer_active rx'" "r_world rx' = r_world rx"
    "r_current_chunk_index rx' = UINT32_MAX" "r_max_chunk_seen rx' = 0"
    using boot_restores [OF h(1,2) arrays_ok_unset h(4) disjI2 [OF h(3)]] by blast
  have "honest_rx ex_dir ex_recv_dir ex_meta ex_file rx'"
    using boot_honest [OF ex_dirs_ok ex_describes h(5) arrays_ok_unset, of ex_zcrc] rx'(1) by auto
  with rx' rx(1) have "tracks ex_dir ex_recv_dir ex_meta ex_file (Receiving 1 {} False) rx'"
    by (simp add: shows_progress_def)
  with rx'(5,6) show ?thesis by blast
qed

text \<open>A receiver with everything on disk and the \<open>Eof\<close> noted.\<close>

definition ex_ready :: CfdpReceiver where
  "ex_ready = (receiver_new ex_dir ex_recv_dir
       ((metadata_state ex_recv_dir ex_meta unset_state)\<lparr>js_chunk_done := [True, True], js_eof_received := True\<rparr>)
       (ex_world\<lparr>w_files := Map.empty(ascii ''r/hi'' \<mapsto> ex_file)\<rparr>))\<lparr>r_transfer_active := True\<rparr>"

lemma ex_ready_pl: "pl_inv (r_packet_list ex_ready)"
  using pl_inv_new(1) by (simp add: ex_ready_def receiver_new_def)

lemma ex_ready_done:
  "\<exists>rx. check_completion ex_zcrc ex_ready = Inr rx \<and> \<not> r_transfer_active rx \<and>
    Sent (ack_pdu \<lparr>a_transaction_id = js_transaction_id (r_state ex_ready), a_chunk_index = UINT32_MAX\<rparr>)
        \<in> set (drop (length (w_log (r_world ex_ready))) (w_log (r_world rx)))"
proof -
  have path: "recv_file_path ex_ready = ascii ''r/hi''"
    using metadata_dest [OF ex_dirs_ok ex_terminated] ex_describes
    by (simp add: ex_ready_def receiver_new_def recv_file_path_def describes_def metadata_fits_def
        ex_cstr ex_recv_dir_def)
  have "js_total_chunks (r_state ex_ready) = 2" by (simp add: ex_ready_def receiver_new_def metadata_state_def ex_sizes)
  moreover have "js_chunk_done (r_state ex_ready) = [True, True]" by (simp add: ex_ready_def receiver_new_def)
  ultimately have none: "compute_missing_chunks (r_state ex_ready) = []"
    by (auto simp: compute_missing_Nil_iff chunk_missing_def less_2_cases_iff)
  have "verify_file_checksum ex_zcrc ex_ready"
    unfolding verify_file_checksum_def path readable_def
    by (simp add: ex_ready_def receiver_new_def ex_world_def metadata_state_def ex_checksum)
  then show ?thesis
    using none by (auto simp: check_completion_def Let_def send_ack_def journal_remove_def)
      (simp_all add: ex_ready_def receiver_new_def ex_world_def)
qed
section \<open>The conversation of the example\<close>

text \<open>The sender's own checksum, and the turns in which only packet 0 of a first pass arrives.\<close>

lemma ex_dest: "ex_recv_dir @ ascii ''/'' @ ascii ''hi'' = ascii ''r/hi''"
  by (simp add: ex_recv_dir_def)

lemma ex_total: "total_chunks_of ex_sender ex_file = 2"
  by (simp add: total_chunks_of_def ex_sender_def ex_file_def)

definition ex_sum :: int where "ex_sum = py_crc32_file ex_zcrc ex_file"

lemma ex_streaming: "zlib_streaming ex_zcrc"
  by (simp add: ex_zcrc_def ieee_crc32_streaming)

lemma ex_sum_word: "word_of_int ex_sum = crc32_file ex_zcrc (Some ex_file)"
  using sender_checksum(3) [OF ex_sender_ok ex_streaming] by (simp add: ex_sum_def)

lemma ex_meta_sum: "ex_meta = meta_of ex_sender ex_file ''hi'' (word_of_int ex_sum)"
  by (simp add: ex_meta_of ex_sum_word)

lemma ex_sum_range: "0 \<le> ex_sum" "ex_sum < 2 ^ 32"
  using sender_checksum(1,2) [OF ex_sender_ok ex_streaming] by (simp_all add: ex_sum_def)

lemma ex_pass:
    "chunk_turns ex_meta ex_file (\<lambda>_. {0}) 0 = [{0, 2}, UNIV]"
    "chunk_turns ex_meta ex_file (\<lambda>_. {0}) 1 = [{0, 1}]"
  by (simp_all add: chunk_turns_def ex_packets insert_commute numeral_2_eq_2 lessThan_Suc)

lemma ex_talk:
  "\<exists>t. talk_start ex_zcrc ex_sender ex_file ''hi'' ex_sum ex_receiver = Some t \<and>
     about ex_dir ex_recv_dir ex_sender ex_file ''hi'' ex_sum 0 t"
  unfolding ex_receiver_def
  by (rule talk_begins_new [OF ex_dirs_ok ex_sender_ok ex_sum_range]) (simp_all add: ex_fresh)

text \<open>A first turn in which packet 0 of chunk 0 is garbled and packet 1 is lost.\<close>

definition ex_noise :: "nat \<Rightarrow> roll" where
  "ex_noise i = (if i = 0 then Garbled 22 else if i = 1 then Lost else Intact)"

lemma ex_benign: "benign_roll (Garbled 22) (item_pdu ex_meta ex_file (Arrives 0 0))"
  by code_simp

lemma ex_fair:
  assumes "talk_start ex_zcrc ex_sender ex_file ''hi'' ex_sum ex_receiver = Some t"
  shows "fair ex_zcrc ex_sender ex_file ''hi'' ex_sum [ex_noise] t"
proof -
  obtain ph inbox rx where t: "t = (ph, inbox, rx)" by (cases t)
  have "about ex_dir ex_recv_dir ex_sender ex_file ''hi'' ex_sum 0 t" using ex_talk assms by auto
  then have st: "sender_step ex_sender ex_file ''hi'' ex_sum ph inbox = (In_chunk 0,
      map (item_pdu ex_meta ex_file) (pass_of 0 [0..<2] @ [EofMark]), [])"
    by (simp add: t Let_def ex_packets flip: ex_meta_sum)
  have "[0..<2] = [0 :: nat, 1]" by (simp add: upt_rec)
  then have pass: "map (item_pdu ex_meta ex_file) (pass_of 0 [0..<2] @ [EofMark]) =
      [item_pdu ex_meta ex_file (Arrives 0 0), item_pdu ex_meta ex_file (Arrives 0 1), item_pdu ex_meta ex_file EofMark]"
    by (simp add: pass_of_def del: item_pdu.simps)
  have "benign ex_noise (map (item_pdu ex_meta ex_file) (pass_of 0 [0..<2] @ [EofMark]))"
    unfolding pass using ex_benign by (simp add: ex_noise_def benign_roll_def del: item_pdu.simps)
  then have "gets_through ex_sender ex_file ''hi'' ex_sum ex_noise t"
    using st unfolding pass by (auto simp: t gets_through_def ex_noise_def simp del: item_pdu.simps)
  then show ?thesis by (simp split: option.split)
qed

lemma ex_items:
  "items_ok ex_meta ex_file (Receiving 0 {} False) [Arrives 0 0, Arrives 0 1]"
  "foldl (progress_step ex_meta ex_file) (Receiving 0 {} False) [Arrives 0 0, Arrives 0 1] = Receiving 1 {} False"
  using ex_two(1,2) by (simp_all add: ex_packets ex_sizes insert_commute)

lemma ex_no_file: "w_files ex_world (ex_recv_dir @ ascii ''/'' @ ascii ''hi'') = None"
  by (simp add: ex_fresh)

text \<open>The composed system: the sender gives up asking, the receiver gets everything, the sender hears it.\<close>

lemma ex_link_run:
  "\<exists>air mach. (link_step ex_zcrc ex_dir ex_recv_dir (set ex_pdus) ex_sender ex_file ''hi'' ex_sum)\<^sup>*\<^sup>*
     (link_start ex_sender ex_file ''hi'' ex_sum (Down None ex_world)) (Done, air, mach)"
proof -
  let ?L = "link_step ex_zcrc ex_dir ex_recv_dir (set ex_pdus) ex_sender ex_file ''hi'' ex_sum"
  let ?step = "sender_step ex_sender ex_file ''hi'' ex_sum"
  obtain rx where rx: "deliver ex_zcrc ex_pdus ex_receiver = Inr rx"
      "tracks ex_dir ex_recv_dir ex_meta ex_file Complete rx"
    using ex_run by blast
  let ?ack = "ack_of ex_meta UINT32_MAX"
  have heard: "set [?ack] \<subseteq> sent_by (Running rx)" using rx(2) by (simp add: acked_def sent_by_def)
  obtain out0 where start: "send_start ex_sender ex_file ''hi'' ex_sum = (Querying 0, out0)"
    using send_metadata_pdu [OF ex_sender_ok ex_sum_range] resume_query_bytes [OF ex_sender_ok]
    by (simp add: send_start_def go_def ex_sender_def)
  have first: "0 < m_total_chunks (meta_of ex_sender ex_file ''hi'' (word_of_int ex_sum))"
    by (simp add: ex_sizes flip: ex_meta_sum)
  have q: "\<exists>out. ?step (Querying 0) [] = (Querying 1, out, [])"
    "\<exists>out. ?step (Querying 1) [] = (Querying 2, out, [])"
    "\<exists>out. ?step (Querying 2) [] = (In_chunk 0, out, [])"
    using resume_query_bytes [OF ex_sender_ok] enter_chunk_sends [OF ex_sender_ok ex_sum_range first]
    by (simp_all add: query_step_def resume_reply_def go_def)
  have hears: "?step (In_chunk 0) [?ack] = (Done, [], [])"
    by (simp add: chunk_step_def ACK_FINAL_def)
  have silent: "\<exists>air'. ?L\<^sup>*\<^sup>* (ph, air, mach) (ph', air', mach)"
    if "\<exists>out. ?step ph [] = (ph', out, [])" for ph ph' air mach
    using that link_step.sender_moves [of "[]"] by fastforce
  have heard_done: "?L\<^sup>*\<^sup>* (ph, air, Running rx) (Done, air, Running rx)" if "ph = In_chunk 0" for ph air
    using link_step.sender_moves [OF heard hears] that by fastforce
  have receives: "?L\<^sup>*\<^sup>* (ph, air, Down None ex_world) (ph, air, Running rx)" for ph air
    by (rule link_receives) (rule ex_reachable [OF rx(1) subset_refl])
  obtain a1 where r1: "?L\<^sup>*\<^sup>* (Querying 0, set out0, Running rx) (Querying 1, a1, Running rx)"
    using silent [OF q(1)] by blast
  obtain a2 where r2: "?L\<^sup>*\<^sup>* (Querying 1, a1, Running rx) (Querying 2, a2, Running rx)"
    using silent [OF q(2)] by blast
  obtain a3 where r3: "?L\<^sup>*\<^sup>* (Querying 2, a2, Running rx) (In_chunk 0, a3, Running rx)"
    using silent [OF q(3)] by blast
  note run = rtranclp_trans [OF receives rtranclp_trans [OF r1 rtranclp_trans [OF r2
    rtranclp_trans [OF r3 heard_done [OF refl]]]]]
  then show ?thesis unfolding link_start_def start by (simp only: prod.case) blast
qed

text \<open>A conversation in which of every first pass one packet arrives; and another file.\<close>

lemma ex_conversation:
  "\<exists>t rx. talk_start ex_zcrc ex_sender ex_file ''hi'' ex_sum ex_receiver = Some t \<and>
    turns ex_zcrc ex_sender ex_file ''hi'' ex_sum (transfer_turns ex_meta ex_file (\<lambda>_. {0}) 0) t =
      Some (Done, [], rx) \<and>
    tracks ex_dir ex_recv_dir ex_meta ex_file Complete rx"
proof -
  note sum = sender_checksum [OF ex_sender_ok ex_streaming, folded ex_sum_def]
  obtain t where t: "talk_start ex_zcrc ex_sender ex_file ''hi'' ex_sum ex_receiver = Some t"
      "about ex_dir ex_recv_dir ex_sender ex_file ''hi'' ex_sum 0 t"
    using talk_begins_new [OF ex_dirs_ok ex_sender_ok sum(1,2) ex_fresh(4,1,2) ex_no_file ex_fresh(5)]
    unfolding ex_receiver_def by blast
  have "\<forall>j < unat (m_total_chunks ex_meta). 0 \<le> j \<longrightarrow> {0} \<inter> {..<packets_in ex_meta ex_file (of_nat j)} \<noteq> {}"
    by (auto simp: ex_sizes less_2_cases_iff ex_packets)
  with chunks_round [OF ex_dirs_ok ex_sender_ok sum _ t(2), of "\<lambda>_. {0}", folded ex_meta_sum] t(1) show ?thesis
    by (simp add: ex_sizes del: tracks.simps)
qed

lemma ex_sender_ok_other: "sender_ok ex_sender [1, 2] ''new''"
  by (simp add: sender_ok_def ex_sender_def total_chunks_of_def safe_filename_def)

end
