(* ===== verification/Cfdp_Second.thy ===== *)
theory Cfdp_Second
  imports Cfdp_Talk
begin

text \<open>
  A second file sent to a receiver process that has completed one: \<open>CfdpSender\<close> sets the
  transaction id to 1 in every run, and the receiver answers a \<open>Metadata\<close> of the id it has
  completed last with the final ACK. First that a conversation in which the sender returned
  leaves the receiver in such a state, then what happens to the next one.
\<close>

section \<open>Only a completed transfer is acknowledged\<close>

text \<open>What the sender takes for the final ACK.\<close>

definition final_reply :: "bytes \<Rightarrow> bool" where
  "final_reply p \<longleftrightarrow> 9 \<le> length p \<and> hd p = pdu_code Ack \<and> get32 5 p = UINT32_MAX"

lemma final_reply_simps [simp]:
  "final_reply (ack_pdu a) \<longleftrightarrow> a_chunk_index a = UINT32_MAX"
  "\<not> final_reply (serialize_nak nak)" "\<not> final_reply (resume_info_pdu i)"
proof -
  have "length (ack_pdu a) = 9" by (simp add: ack_pdu_bytes(1,2))
  then show "final_reply (ack_pdu a) \<longleftrightarrow> a_chunk_index a = UINT32_MAX"
    by (simp add: final_reply_def ack_pdu_bytes(3))
  show "\<not> final_reply (serialize_nak nak)" "\<not> final_reply (resume_info_pdu i)"
    by (simp_all add: final_reply_def resume_info_pdu_def pdu_code.simps)
qed

text \<open>
  In a conversation about transaction \<open>tid\<close>: once a final ACK was sent, no transfer is active and
  \<open>last_acked_id_\<close> is \<open>tid\<close>.
\<close>

definition settled :: "u32 \<Rightarrow> CfdpReceiver \<Rightarrow> bool" where
  "settled tid rx \<longleftrightarrow>
     (r_transfer_active rx \<longrightarrow> js_transaction_id (r_state rx) = tid) \<and>
     ((\<exists>p \<in> set (said rx). final_reply p) \<longrightarrow> \<not> r_transfer_active rx \<and> r_last_acked_id rx = tid)"

lemma settled_active:
  "r_transfer_active rx \<Longrightarrow> settled tid rx \<longleftrightarrow>
     js_transaction_id (r_state rx) = tid \<and> (\<forall>p \<in> set (said rx). \<not> final_reply p)"
  by (auto simp: settled_def)

lemma settled_sends:
  "\<not> final_reply pdu \<Longrightarrow> settled tid (transport_send pdu rx) = settled tid rx"
  by (auto simp: settled_def said_def transport_send_def in_world_def)

lemma settled_cong:
  "r_transfer_active rx' = r_transfer_active rx \<Longrightarrow> r_last_acked_id rx' = r_last_acked_id rx \<Longrightarrow>
     js_transaction_id (r_state rx') = js_transaction_id (r_state rx) \<Longrightarrow> said rx' = said rx \<Longrightarrow>
     settled tid rx' = settled tid rx"
  by (simp add: settled_def)

lemma settled_send_nak:
  "send_nak_packets ci rx = Inr rx' \<Longrightarrow> settled tid rx' = settled tid rx \<and>
     r_transfer_active rx' = r_transfer_active rx"
  by (auto simp: send_nak_packets_def throw_def settled_sends split: option.splits if_splits)

lemma settled_check_completion:
  assumes "settled tid rx" and "r_transfer_active rx" and "check_completion zcrc rx = Inr rx'"
  shows "settled tid rx'"
proof -
  have silent: "said (in_world (\<lambda>w. snd (journal_remove j w)) rx) = said rx" for j rx
    by (simp add: said_def in_world_def)
  show ?thesis
    using assms settled_send_nak [of "r_current_chunk_index rx" rx rx' tid]
    unfolding check_completion_def Let_def
    by (auto simp: settled_active settled_sends throw_def split: if_splits option.splits)
      (auto simp: settled_def silent said_def send_ack_def)
qed

lemma settled_store_packet:
  assumes "settled tid rx" and "r_transfer_active rx" and ci: "d_chunk_index d \<noteq> UINT32_MAX"
    and run: "store_packet zcrc d rx = Inr rx'"
  shows "settled tid rx'"
  using run
proof (cases rule: store_packet_said)
  case kept
  with assms(1,2) show ?thesis by (simp add: settled_active said_def)
next
  case (flushed pl)
  from flush_chunk_said [OF flushed] obtain rx2 where
    rx2: "said rx2 = said rx @ [ack_pdu \<lparr>a_transaction_id = js_transaction_id (r_state rx), a_chunk_index = d_chunk_index d\<rparr>]"
      "r_state rx2 = set_done (d_chunk_index d) (r_state rx)" "r_transfer_active rx2 = r_transfer_active rx"
      "if js_eof_received (r_state rx) then check_completion zcrc rx2 = Inr rx' else rx' = rx2"
    by (auto simp: said_def)
  have "settled tid rx2" using assms(1,2) ci rx2(1-3) by (auto simp: settled_active)
  with rx2(3,4) assms(2) settled_check_completion show ?thesis by (auto split: if_splits)
qed

lemma settled_switch_chunk:
  assumes "switch_chunk ci n rx = Inr rx'"
  shows "settled tid rx' = settled tid rx \<and> r_transfer_active rx' = r_transfer_active rx"
proof -
  obtain rx0 pl where
    rx0: "(if r_current_chunk_index rx \<noteq> UINT32_MAX \<and> \<not> pl_is_complete (r_packet_list rx)
       then send_nak_packets (r_current_chunk_index rx) rx else Inr rx) = Inr rx0"
      "rx' = rx0\<lparr>r_packet_list := pl, r_current_chunk_index := ci\<rparr>"
    using assms by (auto simp: switch_chunk_def throw_def split: sum.splits option.splits)
  have "settled tid rx' = settled tid rx0" unfolding rx0(2) by (rule settled_cong) (simp_all add: said_def)
  with rx0 settled_send_nak [of "r_current_chunk_index rx" rx rx0 tid] show ?thesis
    by (simp split: if_splits)
qed

lemma settled_handle_data:
  assumes inv: "rx_inv dir recv_dir rx" and s: "settled tid rx" and run: "handle_data zcrc d rx = Inr rx'"
  shows "settled tid rx'"
proof -
  have ci: "d_chunk_index d \<noteq> UINT32_MAX" "r_transfer_active rx" if "data_for d rx"
    using that chunk_index_small(2) [OF rx_inv_active [OF inv]] by (simp_all add: data_for_def)
  let ?rx = "note_seen (d_chunk_index d) rx"
  have s': "settled tid ?rx" using s by (simp add: settled_cong [of ?rx rx] said_def)
  show ?thesis
  proof (cases rule: handle_data_elim [of d rx zcrc])
    case dropped
    with run s show ?thesis by simp
  next
    case divide
    with run show ?thesis by (simp add: throw_def)
  next
    case known
    with run s' ci show ?thesis by (auto simp: send_ack_def settled_sends split: if_splits)
  next
    case same
    have st: "store_packet zcrc d ?rx = Inr rx'" "data_for d rx" using run same by simp_all
    show ?thesis by (rule settled_store_packet [OF s' _ _ st(1)]) (simp_all add: ci [OF st(2)])
  next
    case switched
    then obtain rx1 where rx1: "switch_chunk (d_chunk_index d) (d_total_packets d) ?rx = Inr rx1"
        "store_packet zcrc d rx1 = Inr rx'"
      using run by (auto split: sum.splits)
    have "settled tid rx1 \<and> r_transfer_active rx1"
      using settled_switch_chunk [OF rx1(1), of tid] s' ci(2) switched(1) by simp
    with settled_store_packet [OF _ _ ci(1) rx1(2)] switched(1) show ?thesis by simp
  qed
qed

lemma settled_handle_eof:
  assumes s: "settled tid rx" and run: "handle_eof zcrc e rx = Inr rx'"
  shows "settled tid rx'"
proof (cases "r_transfer_active rx \<and> e_transaction_id e = js_transaction_id (r_state rx)")
  case True
  then have "check_completion zcrc (eof_noted rx) = Inr rx'"
    using run by (simp add: handle_eof_def eof_noted_def Let_def)
  moreover have "settled tid (eof_noted rx)" using s True by (simp add: settled_active)
  moreover have "r_transfer_active (eof_noted rx)" using True by simp
  ultimately show ?thesis using settled_check_completion by blast
next
  case False
  with run s show ?thesis by (simp add: handle_eof_def split: if_splits)
qed

lemma settled_handle_metadata:
  assumes inv: "rx_inv dir recv_dir rx" and s: "settled (m_transaction_id m) rx"
    and run: "handle_metadata m rx = Inr rx'"
  shows "settled (m_transaction_id m) rx'"
proof -
  have pl: "pl_inv (r_packet_list rx)" using inv by (simp add: rx_inv_def rx_base_def)
  have start: "said (start_transfer m rx) = said rx" "r_transfer_active (start_transfer m rx)"
    "js_transaction_id (r_state (start_transfer m rx)) = m_transaction_id m"
    by (simp_all add: start_transfer_def Let_def said_def metadata_state_def)
  consider "rx' = rx"
    | "rx' = send_ack UINT32_MAX rx" "\<not> r_transfer_active rx" "r_last_acked_id rx = m_transaction_id m"
    | "rx' = start_transfer m rx" "r_transfer_active rx \<or> r_last_acked_id rx \<noteq> m_transaction_id m"
    using run unfolding handle_metadata_cases [OF pl] by (auto split: if_splits)
  then show ?thesis
  proof cases
    case 3
    with s have "\<forall>p \<in> set (said rx). \<not> final_reply p" by (auto simp: settled_def)
    with 3 start show ?thesis by (simp add: settled_active)
  qed (use s in \<open>simp_all add: settled_def send_ack_def transport_send_def in_world_def\<close>)
qed

lemma settled_on_pdu_received:
  assumes inv: "rx_inv dir recv_dir rx" and s: "settled (m_transaction_id m) rx"
    and raw: "honest_pdu m file raw" and run: "on_pdu_received zcrc raw rx = Inr rx'"
  shows "settled (m_transaction_id m) rx'"
proof -
  have "settled (m_transaction_id m) rx'" if "handle_resume_query q rx = Inr rx'" for q
    using that s by (auto simp: handle_resume_query_def Let_def settled_sends)
  then show ?thesis
    using run s raw settled_handle_data [OF inv s] settled_handle_eof [OF s] settled_handle_metadata [OF inv s]
    by (auto simp: on_pdu_received_def honest_pdu_def pdu_type_of_Some
        split: list.splits option.splits PduType.splits)
qed

text \<open>What was said stays said.\<close>

lemma on_pdu_received_said:
  assumes inv: "rx_inv dir recv_dir rx" and run: "on_pdu_received zcrc raw rx = Inr rx'"
  shows "\<exists>ps. said rx' = said rx @ ps"
proof -
  have "journal_ok dir recv_dir (r_world rx)" using inv by (simp add: rx_inv_def rx_base_def)
  with effects_on_pdu_received [OF inv, of zcrc raw] run obtain es where "ran (r_world rx) es (r_world rx')"
    by (auto simp: effects_def)
  then show ?thesis by (auto simp: said_def ran_def)
qed

lemma settled_deliver:
  assumes "rx_inv dir recv_dir rx" and "settled (m_transaction_id m) rx"
    and "\<forall>raw \<in> set raws. honest_pdu m file raw" and "deliver zcrc raws rx = Inr rx'"
  shows "rx_inv dir recv_dir rx' \<and> settled (m_transaction_id m) rx' \<and> (\<exists>ps. said rx' = said rx @ ps)"
  using assms
proof (induction raws arbitrary: rx)
  case (Cons raw raws)
  then obtain rx1 where rx1: "on_pdu_received zcrc raw rx = Inr rx1" "deliver zcrc raws rx1 = Inr rx'"
    by (auto split: sum.splits)
  have "rx_inv dir recv_dir rx1" using on_pdu_received_ok [OF Cons.prems(1), of raw zcrc] rx1 by simp
  moreover have "honest_pdu m file raw" using Cons.prems(3) by simp
  from settled_on_pdu_received [OF Cons.prems(1,2) this rx1(1)] have "settled (m_transaction_id m) rx1" .
  ultimately show ?case
    using Cons.IH [OF _ _ _ rx1(2)] Cons.prems(3) on_pdu_received_said [OF Cons.prems(1) rx1(1)] by fastforce
qed simp

section \<open>The sender returns\<close>

lemma any_ack_final: "any_ack ACK_FINAL batch = Some True \<Longrightarrow> \<exists>p \<in> set batch. final_reply p"
proof -
  have "x = UINT32_MAX" if "uint x = ACK_FINAL" for x :: u32
    using that by (simp add: ACK_FINAL_def word_uint_eq_iff)
  then show "any_ack ACK_FINAL batch = Some True \<Longrightarrow> \<exists>p \<in> set batch. final_reply p"
    by (auto simp: final_reply_def dest!: any_ack_True)
qed

lemma not_Done [simp]:
  "fst (go p ph) = Done \<longleftrightarrow> snd p \<and> ph = Done" "fst (enter_chunk s file c ci) \<noteq> Done"
  "fst (query_step s file c k reply) \<noteq> Done"
proof -
  show "fst (go p ph) = Done \<longleftrightarrow> snd p \<and> ph = Done" for p ph by (simp add: go_def)
  then show e: "fst (enter_chunk s file c ci) \<noteq> Done" for ci by (simp add: enter_chunk_def)
  show "fst (query_step s file c k reply) \<noteq> Done"
    using e by (auto simp: query_step_def go_def split: option.split)
qed

lemma step_to_Done:
  assumes "sender_step s file name c ph inbox = (Done, out, rest)"
  shows "out = [] \<and> (ph = Done \<or> (\<exists>p \<in> set inbox. final_reply p)) \<and> set rest \<subseteq> set inbox"
proof (cases ph)
  case (Querying k)
  then have "fst (sender_step s file name c ph inbox) \<noteq> Done" by (simp add: case_prod_beta)
  with assms show ?thesis by simp
next
  case (In_chunk ci)
  then have "chunk_step s file name c ci inbox = (Done, out)" "rest = []" using assms by (auto split: prod.splits)
  moreover have "enter_chunk s file c (ci + 1) \<noteq> (Done, out)" by (metis fst_conv not_Done(2))
  ultimately show ?thesis
    using any_ack_final [of inbox]
    by (simp add: chunk_step_def go_def split: if_split_asm option.split_asm bool.split_asm)
next
  case At_end
  then have "end_step s c inbox = (Done, out)" "rest = []" using assms by (auto split: prod.splits)
  then show ?thesis
    using any_ack_final [of inbox] by (auto simp: end_step_def go_def split: if_splits option.splits bool.splits)
qed (use assms in auto)

text \<open>What holds throughout a conversation, whatever part of each pass arrives.\<close>

fun on_terms :: "path \<Rightarrow> path \<Rightarrow> CfdpSender \<Rightarrow> bytes \<Rightarrow> talk \<Rightarrow> bool" where
  "on_terms dir recv_dir s file (ph, inbox, rx) \<longleftrightarrow>
     rx_inv dir recv_dir rx \<and> settled (word_of_int (t_tid s)) rx \<and> phase_ok s file ph \<and>
     set inbox \<subseteq> set (said rx) \<and> (ph = Done \<longrightarrow> (\<exists>p \<in> set (said rx). final_reply p))"

lemma meta_of_tid [simp]: "m_transaction_id (meta_of s file name c) = word_of_int (t_tid s)"
  by (simp add: meta_of_def)

lemma on_terms_deliver:
  assumes rx: "rx_inv dir recv_dir rx" "settled (word_of_int (t_tid s)) rx" and ph: "phase_ok s file ph"
    and out: "set out \<subseteq> Collect (honest_pdu (meta_of s file name c) file)"
    and run: "deliver zcrc out rx = Inr rx'" and rest: "set rest \<subseteq> set (said rx)"
    and fin: "ph = Done \<Longrightarrow> \<exists>p \<in> set (said rx). final_reply p"
  shows "on_terms dir recv_dir s file (ph, rest @ answers rx rx', rx')"
proof -
  have "rx_inv dir recv_dir rx' \<and> settled (word_of_int (t_tid s)) rx' \<and> (\<exists>ps. said rx' = said rx @ ps)"
    using settled_deliver [of dir recv_dir rx "meta_of s file name c" out _ zcrc rx'] rx out run by auto
  then obtain ps where ps: "rx_inv dir recv_dir rx'" "settled (word_of_int (t_tid s)) rx'"
    "said rx' = said rx @ ps" by blast
  moreover have "answers rx rx' = ps" by (simp add: answers_def ps(3))
  ultimately show ?thesis using ph rest fin by auto
qed

lemma on_terms_turn:
  assumes ok: "sender_ok s file name" and c: "0 \<le> c" "c < 2 ^ 32"
    and t: "on_terms dir recv_dir s file t" and run: "turn zcrc s file name c arrive t = Some t'"
  shows "on_terms dir recv_dir s file t'"
proof -
  obtain ph inbox rx where t0: "t = (ph, inbox, rx)" by (cases t)
  obtain ph' out rest where st: "sender_step s file name c ph inbox = (ph', out, rest)" by (metis prod_cases3)
  obtain rx' where rx': "deliver zcrc (nths out arrive) rx = Inr rx'" "t' = (ph', rest @ answers rx rx', rx')"
    using run st by (auto simp: turn_def t0 split: sum.splits)
  from sender_step_honest [OF ok c _ st] t
  have "set out \<subseteq> Collect (honest_pdu (meta_of s file name (word_of_int c)) file)" and ph: "phase_ok s file ph'"
    by (auto simp: t0)
  then have out: "set (nths out arrive) \<subseteq> Collect (honest_pdu (meta_of s file name (word_of_int c)) file)"
    using set_nths_subset [of out arrive] by blast
  have "set rest \<subseteq> set inbox"
    using st by (cases ph) (cases inbox; auto split: prod.splits)+
  then have rest: "set rest \<subseteq> set (said rx)" using t by (auto simp: t0)
  have "\<exists>p \<in> set (said rx). final_reply p" if "ph' = Done"
    using step_to_Done [OF st [unfolded that]] t by (auto simp: t0)
  with t ph out rest show ?thesis
    unfolding rx'(2) by (intro on_terms_deliver [OF _ _ _ _ rx'(1)]) (auto simp: t0)
qed

lemma on_terms_turns:
  assumes ok: "sender_ok s file name" and c: "0 \<le> c" "c < 2 ^ 32"
  shows "on_terms dir recv_dir s file t \<Longrightarrow> turns zcrc s file name c arrives t = Some t' \<Longrightarrow>
    on_terms dir recv_dir s file t'"
  by (induction arrives arbitrary: t) (auto split: option.splits dest: on_terms_turn [OF ok c])

lemma on_terms_new:
  assumes ok: "sender_ok s file name" and c: "0 \<le> c" "c < 2 ^ 32"
    and "dirs_ok dir recv_dir" and "arrays_ok memory" and "journal_ok dir recv_dir w" and "w_log w = []"
    and run: "talk_start zcrc s file name c (receiver_new dir recv_dir memory w) = Some t"
  shows "on_terms dir recv_dir s file t"
proof -
  let ?rx = "receiver_new dir recv_dir memory w"
  obtain ph out where st: "send_start s file name c = (ph, out)" by fastforce
  then obtain rx' where rx': "deliver zcrc out ?rx = Inr rx'" "t = (ph, [] @ answers ?rx rx', rx')"
    using run by (auto simp: talk_start_def split: sum.splits)
  have "settled (word_of_int (t_tid s)) ?rx" by (simp add: settled_def said_def receiver_new_def assms(7))
  moreover have "ph \<noteq> Done" using st by (auto simp: send_start_def go_def split: if_splits)
  ultimately show ?thesis
    using send_start_honest [OF ok c st] receiver_new_inv [OF assms(4-6)]
    unfolding rx'(2) by (intro on_terms_deliver [OF _ _ _ _ rx'(1)]) auto
qed

section \<open>The second file\<close>

text \<open>A receiver that has completed a transfer and still runs: what it does with another one of the
  same id. \<open>CfdpSender\<close> sets the id to 1 in every run.\<close>

definition completed :: "CfdpSender \<Rightarrow> CfdpReceiver \<Rightarrow> bool" where
  "completed s rx \<longleftrightarrow> \<not> r_transfer_active rx \<and> r_last_acked_id rx = word_of_int (t_tid s)"

lemma on_terms_completed: "on_terms dir recv_dir s file (Done, inbox, rx) \<Longrightarrow> completed s rx"
  by (auto simp: completed_def settled_def)

lemma completed_sends [simp]: "completed s (transport_send pdu rx) = completed s rx"
  by (simp add: completed_def transport_send_def in_world_def)

text \<open>Its replies: the final ACK to a \<open>Metadata\<close>, with the id of the transfer in memory, and chunk 0
  to a \<open>ResumeQuery\<close>. Packets and \<open>Eof\<close> are dropped.\<close>

abbreviation stale_ack :: "CfdpReceiver \<Rightarrow> bytes" where
  "stale_ack rx \<equiv> ack_pdu \<lparr>a_transaction_id = js_transaction_id (r_state rx), a_chunk_index = UINT32_MAX\<rparr>"

abbreviation from_zero :: "u32 \<Rightarrow> bytes" where
  "from_zero tid \<equiv> resume_info_pdu \<lparr>i_transaction_id = tid, i_first_missing_chunk = 0\<rparr>"

lemma completed_metadata:
  assumes "completed s rx" and "metadata_fits m" and "m_transaction_id m = word_of_int (t_tid s)"
  shows "on_pdu_received zcrc (metadata_pdu m) rx = Inr (transport_send (stale_ack rx) rx)"
  using assms by (simp add: on_pdu_received_metadata handle_metadata_def completed_def send_ack_def)

lemma completed_query:
  assumes "completed s rx"
  shows "on_pdu_received zcrc (resume_query_pdu q) rx =
    Inr (transport_send (from_zero (q_transaction_id q)) rx)"
proof -
  have "on_pdu_received zcrc (resume_query_pdu q) rx = handle_resume_query q rx"
    using parse_resume_query_image [of q "[]"] by (simp add: on_pdu_received_def resume_query_pdu_def)
  then show ?thesis using assms by (simp add: handle_resume_query_def completed_def)
qed

lemma completed_drops:
  assumes "completed s rx" and "describes m file" and "\<forall>it \<in> set its. item_ok m file p it"
  shows "deliver zcrc (map (item_pdu m file) its) rx = Inr rx"
  using assms(3)
proof (induction its)
  case (Cons it its)
  have "on_pdu_received zcrc (item_pdu m file it) rx = Inr rx"
    using assms(1) Cons.prems item_on_pdu [OF assms(2), of p it]
    by (auto simp: completed_def inactive_drops split: option.split)
  with Cons show ?case by (simp del: item_pdu.simps)
qed simp

text \<open>The replies as the sender reads them.\<close>

lemma resume_info_bytes:
  "resume_info_pdu i = pdu_code ResumeInfo # resume_info_image i" "length (resume_info_pdu i) = 9"
  "get32 1 (resume_info_pdu i) = i_transaction_id i" "get32 5 (resume_info_pdu i) = i_first_missing_chunk i"
  by (simp_all add: resume_info_pdu_def resume_info_image_def layout get32_skip)

lemma read_from_zero:
  assumes "sender_ok s file name"
  shows "resume_reply s (Some (stale_ack rx)) = None"
    "resume_reply s (Some (from_zero (word_of_int (t_tid s)))) = Some 0"
    "any_ack c (from_zero tid # ps) = any_ack c ps" "latest_nak [from_zero tid] = None"
proof -
  show "resume_reply s (Some (stale_ack rx)) = None"
    by (simp add: resume_reply_def pdu_code.simps)
  have hd_info: "hd (resume_info_pdu i) = pdu_code ResumeInfo" for i by (simp add: resume_info_bytes(1))
  have "uint (word_of_int (t_tid s) :: u32) = t_tid s"
    using assms by (simp add: sender_ok_def unsigned_of_int take_bit_int_eq_self)
  then show "resume_reply s (Some (from_zero (word_of_int (t_tid s)))) = Some 0"
    using resume_info_bytes(2-4) [of "\<lparr>i_transaction_id = word_of_int (t_tid s), i_first_missing_chunk = 0\<rparr>"]
      hd_info by (simp add: resume_reply_def)
  show "any_ack c (from_zero tid # ps) = any_ack c ps" "latest_nak [from_zero tid] = None"
    unfolding resume_info_bytes(1) by (simp_all add: latest_nak_def pdu_code.simps)
qed

lemma turn_all:
  assumes "sender_step s file name c ph inbox = (ph', out, rest)" and "deliver zcrc out rx = Inr rx'"
    and "said rx' = said rx @ heard"
  shows "turn zcrc s file name c UNIV (ph, inbox, rx) = Some (ph', rest @ heard, rx')"
  using assms by (simp add: turn_def answers_def nths_all)

text \<open>
  The five steps of the sender: its first reply is the final ACK, which \<open>_query_resume\<close> throws
  away; chunk 0 is sent in vain; the time-out repeats the \<open>Metadata\<close>, and the ACK of that is taken
  for the end of the transfer.
\<close>

lemma second_file_turns:
  assumes ok: "sender_ok s file name" and c: "0 \<le> c" "c < 2 ^ 32" and rx: "completed s rx"
  shows "\<exists>t rx'. talk_start zcrc s file name c rx = Some t \<and>
    turns zcrc s file name c (replicate 5 UNIV) t = Some (Done, [], rx') \<and>
    w_files (r_world rx') = w_files (r_world rx) \<and> completed s rx'"
proof -
  define m where "m = meta_of s file name (word_of_int c)"
  define tid where "tid = (word_of_int (t_tid s) :: u32)"
  have desc: "describes m file" unfolding m_def by (rule describes_meta_of [OF ok])
  have fits: "metadata_fits m" "m_transaction_id m = tid" and pos: "0 < m_total_chunks m"
    using desc by (simp_all add: describes_def accepted_def word_neq_0_conv tid_def) (simp_all add: m_def meta_of_def)
  let ?q = "\<lparr>q_transaction_id = tid\<rparr>"
  let ?all = "map (item_pdu m file) (pass_of 0 [0..<packets_in m file 0] @ [EofMark])"
  let ?meta = "\<lambda>rx. transport_send (stale_ack rx) rx" and ?info = "transport_send (from_zero tid)"
  note meta = completed_metadata [OF _ fits [unfolded tid_def]]
  note query = completed_query [where q = ?q, simplified]
  have said: "said (transport_send pdu rx) = said rx @ [pdu]" for pdu rx by (simp add: said_def transport_send_def in_world_def)
  have start: "send_start s file name c = (Querying 0, [metadata_pdu m, resume_query_pdu ?q])"
    using ok send_metadata_pdu [OF ok c] resume_query_bytes [OF ok]
    by (simp add: send_start_def go_def sender_ok_def m_def tid_def)
  note replies = read_from_zero [OF ok, folded tid_def]
  define rx1 where "rx1 = ?info (?meta rx)"
  define rx2 where "rx2 = ?info rx1"
  have rxs: "completed s rx1" "completed s rx2" "completed s (?meta rx2)"
    using rx by (simp_all add: rx1_def rx2_def)
  have t0: "talk_start zcrc s file name c rx = Some (Querying 0, [stale_ack rx, from_zero tid], rx1)"
    using start meta [OF rx] query [of s "?meta rx"] rx
    by (simp add: talk_start_def answers_def said rx1_def)
  have "sender_step s file name c (Querying 0) [stale_ack rx, from_zero tid] =
      (Querying (Suc 0), [resume_query_pdu ?q], [from_zero tid])"
    using replies(1) resume_query_bytes [OF ok] by (simp add: query_step_def go_def tid_def)
  from turn_all [OF this, of zcrc rx1 rx2 "[from_zero tid]"] query [OF rxs(1)]
  have t1: "turn zcrc s file name c UNIV (Querying 0, [stale_ack rx, from_zero tid], rx1) =
      Some (Querying (Suc 0), [from_zero tid, from_zero tid], rx2)" by (simp add: rx2_def said)
  have "sender_step s file name c (Querying (Suc 0)) [from_zero tid, from_zero tid] =
      (In_chunk 0, ?all, [from_zero tid])"
    using replies(2) enter_chunk_sends [OF ok c, of 0] pos
    by (simp add: query_step_def m_def del: item_pdu.simps)
  moreover have "deliver zcrc ?all rx2 = Inr rx2"
    by (rule completed_drops [OF rxs(2) desc, of _ Complete]) (use pos in \<open>auto simp: pass_of_def\<close>)
  ultimately have t2: "turn zcrc s file name c UNIV (Querying (Suc 0), [from_zero tid, from_zero tid], rx2) =
      Some (In_chunk 0, [from_zero tid], rx2)" using turn_all [where heard = "[]"] by fastforce
  have "sender_step s file name c (In_chunk 0) [from_zero tid] = (In_chunk 0, [], [])"
    using replies(3,4) by (simp add: chunk_step_def)
  from turn_all [OF this, of zcrc rx2 rx2 "[]"]
  have t3: "turn zcrc s file name c UNIV (In_chunk 0, [from_zero tid], rx2) = Some (In_chunk 0, [], rx2)" by simp
  have "deliver zcrc [metadata_pdu m, item_pdu m file EofMark] rx2 = Inr (?meta rx2)"
    using meta [OF rxs(2)] completed_drops [OF rxs(3) desc, of "[EofMark]" Complete]
    by (simp del: item_pdu.simps)
  from turn_all [OF sender_timeout(1) [OF ok c, folded m_def] this, of "[stale_ack rx2]"]
  have t4: "turn zcrc s file name c UNIV (In_chunk 0, [], rx2) = Some (In_chunk 0, [stale_ack rx2], ?meta rx2)"
    by (simp add: said)
  have "sender_step s file name c (In_chunk 0) [stale_ack rx2] = (Done, [], [])"
    by (simp add: chunk_step_def ACK_FINAL_def)
  from turn_all [OF this, of zcrc "?meta rx2" "?meta rx2" "[]"]
  have t5: "turn zcrc s file name c UNIV (In_chunk 0, [stale_ack rx2], ?meta rx2) = Some (Done, [], ?meta rx2)" by simp
  have "turns zcrc s file name c (replicate 5 UNIV) (Querying 0, [stale_ack rx, from_zero tid], rx1) =
      Some (Done, [], ?meta rx2)"
    by (simp add: numeral_eq_Suc t1 t2 t3 t4 t5)
  moreover have "w_files (r_world (?meta rx2)) = w_files (r_world rx)"
    by (simp add: rx1_def rx2_def transport_send_def in_world_def)
  ultimately show ?thesis using t0 rxs(3) by blast
qed

end
