(* ===== verification/Cfdp_Limits.thy ===== *)
theory Cfdp_Limits
  imports Cfdp_Talk Cfdp_Noise
begin

text \<open>
  What the receiver and the sender do with inputs outside the hypotheses of the theorems about
  delivery: an output file that exists already and is longer, packet counts that wrap, replies
  that belong to another transfer, damage to the header of a packet, a failed checksum, a journal
  that cannot be written.
\<close>

section \<open>A file that exists already\<close>

text \<open>The file at \<open>p\<close> is there and has at least \<open>n\<close> bytes.\<close>

definition kept :: "path \<Rightarrow> nat \<Rightarrow> World \<Rightarrow> bool" where
  "kept p n w \<longleftrightarrow> (\<exists>content. w_files w p = Some content \<and> n \<le> length content)"

lemma kept_same: "w_files w' p = w_files w p \<Longrightarrow> kept p n w' = kept p n w"
  by (simp add: kept_def)

lemma kept_transmit [simp]: "kept p n (transmit pdu w) = kept p n w"
  by (simp add: kept_def)

lemma kept_write: "kept p n w \<Longrightarrow> kept p n (do_op (Pwrite q off bs) w)"
  by (cases "bs = []") (auto simp: kept_def length_write_at write_at_def split: option.split)

lemma kept_fs_write: "kept p n w \<Longrightarrow> kept p n (snd (fs_write q off bs w))"
  by (simp add: fs_write_def kept_write split: option.split)

lemma kept_journal:
  assumes "p \<notin> journal_paths dir"
  shows "kept p n (snd (journal_create (journal_new dir) s w)) = kept p n w"
    and "kept p n (snd (mark_chunk_done (journal_new dir) ci w)) = kept p n w"
    and "kept p n (snd (mark_eof_received (journal_new dir) w)) = kept p n w"
    and "kept p n (snd (journal_remove (journal_new dir) w)) = kept p n w"
  using journal_other [OF assms] by (simp_all add: kept_def)

text \<open>Opening creates the file only when it is not there; nothing ever truncates it.\<close>

lemma kept_output:
  assumes "kept p n w"
  shows "case open_output q k w of Inl (f, w') \<Rightarrow> kept p n w' | Inr w' \<Rightarrow> kept p n w'"
    and "case write_chunk q off bs w of Inl (f, w') \<Rightarrow> kept p n w' | Inr w' \<Rightarrow> kept p n w'"
proof -
  have "kept p n (do_op (Creat q) w)" if "w_files w q = None"
    using assms that by (auto simp: kept_def)
  then show "case open_output q k w of Inl (f, w') \<Rightarrow> kept p n w' | Inr w' \<Rightarrow> kept p n w'"
    using assms by (auto simp: open_output_def Let_def kept_fs_write)
  have "kept p n (do_op (Datasync q) w')" if "kept p n w'" for w'
    using that by (simp add: kept_def)
  then show "case write_chunk q off bs w of Inl (f, w') \<Rightarrow> kept p n w' | Inr w' \<Rightarrow> kept p n w'"
    using assms kept_fs_write [OF assms, of q "unat off" bs] by (auto simp: write_chunk_def split: prod.split)
qed

lemma kept_check_completion:
  assumes "kept p n (r_world rx)" and "p \<notin> journal_paths dir" and "r_journal rx = journal_new dir"
  shows "kept p n (outcome_world (check_completion zcrc rx))"
  unfolding check_completion_def Let_def
  using assms
  by (auto simp: send_ack_def send_nak_packets_def kept_journal split: option.split)

lemma kept_flush_chunk:
  assumes k: "kept p n (r_world rx)" and p: "p \<notin> journal_paths dir" and j: "r_journal rx = journal_new dir"
  shows "kept p n (outcome_world (flush_chunk zcrc ci rx))"
proof (cases "pl_assemble (r_packet_list rx)")
  case (Some data)
  let ?q = "recv_file_path rx" and ?off = "chunk_file_offset (r_state rx) ci"
  note out = kept_output(1) [OF k, of ?q "js_file_size (r_state rx)"]
  show ?thesis
  proof (cases "open_output ?q (js_file_size (r_state rx)) (r_world rx)")
    case (Inr w1)
    with out have k1: "kept p n w1" by simp
    note wr = kept_output(2) [OF k1, of ?q ?off data]
    show ?thesis
    proof (cases "write_chunk ?q ?off data w1")
      case w2: (Inr w2)
      with wr have "kept p n w2" by simp
      with Some Inr w2 p j show ?thesis
        by (auto simp: flush_chunk_def Let_def send_ack_def kept_journal kept_check_completion split: option.split)
    qed (use wr Inr Some in \<open>auto simp: flush_chunk_def\<close>)
  qed (use out Some in \<open>auto simp: flush_chunk_def\<close>)
qed (use k in \<open>simp add: flush_chunk_def\<close>)

lemma kept_store_packet:
  assumes "kept p n (r_world rx)" and "p \<notin> journal_paths dir" and "r_journal rx = journal_new dir"
  shows "kept p n (outcome_world (store_packet zcrc d rx))"
  using assms kept_flush_chunk [of p n "rx\<lparr>r_packet_list := pl\<rparr>" dir zcrc for pl]
  by (auto simp: store_packet_def Let_def split: option.split)

lemma kept_handle_data:
  assumes "kept p n (r_world rx)" and "p \<notin> journal_paths dir" and "r_journal rx = journal_new dir"
  shows "kept p n (outcome_world (handle_data zcrc d rx))"
proof (cases rule: handle_data_elim [of d rx zcrc])
  case switched
  show ?thesis
  proof (cases "switch_chunk (d_chunk_index d) (d_total_packets d) (note_seen (d_chunk_index d) rx)")
    case (Inl e)
    with assms switched show ?thesis
      by (auto simp: switch_chunk_def send_nak_packets_def throw_def split: option.splits if_splits sum.splits)
  next
    case (Inr rx')
    then have "r_journal rx' = r_journal rx" "kept p n (r_world rx') = kept p n (r_world rx)"
      by (auto simp: switch_chunk_def send_nak_packets_def throw_def transport_send_def in_world_def
          split: option.splits if_splits sum.splits)
    with assms Inr switched show ?thesis by (simp add: kept_store_packet)
  qed
qed (use assms in \<open>simp_all add: kept_store_packet send_ack_def\<close>)

lemma kept_on_pdu_received:
  assumes k: "kept p n (r_world rx)" and p: "p \<notin> journal_paths dir" and j: "r_journal rx = journal_new dir"
  shows "kept p n (outcome_world (on_pdu_received zcrc raw rx))"
proof -
  have "kept p n (outcome_world (handle_metadata m rx))" for m
    using k p by (auto simp: handle_metadata_def Let_def send_ack_def j kept_journal split: option.split)
  moreover have "kept p n (outcome_world (handle_eof zcrc e rx))" for e
    using k p by (auto simp: handle_eof_def Let_def j kept_journal kept_check_completion)
  moreover have "kept p n (outcome_world (handle_resume_query q rx))" for q
    using k by (simp add: handle_resume_query_def Let_def)
  ultimately show ?thesis
    using k kept_handle_data [OF k p j] by (auto simp: on_pdu_received_def split: list.split option.split PduType.split)
qed

text \<open>Whatever arrives: a file that is longer than the one that is sent stays longer.\<close>

lemma deliver_kept:
  assumes "rx_inv dir recv_dir rx" and "kept p n (r_world rx)" and "p \<notin> journal_paths dir"
    and "deliver zcrc raws rx = Inr rx'"
  shows "kept p n (r_world rx')"
  using assms
proof (induction raws arbitrary: rx)
  case (Cons raw raws)
  then obtain rx1 where rx1: "on_pdu_received zcrc raw rx = Inr rx1" "deliver zcrc raws rx1 = Inr rx'"
    by (auto split: sum.splits)
  have "rx_inv dir recv_dir rx1" using on_pdu_received_ok [OF Cons.prems(1), of raw zcrc] rx1 by simp
  moreover have "r_journal rx = journal_new dir" using Cons.prems(1) by (simp add: rx_inv_def rx_base_def)
  ultimately show ?case using kept_on_pdu_received [OF Cons.prems(2,3), of zcrc raw] rx1 Cons by simp
qed simp

lemma longer_file_is_never_replaced:
  assumes "rx_inv dir recv_dir rx" and "w_files (r_world rx) p = Some old" and "length file < length old"
    and "p \<notin> journal_paths dir" and "deliver zcrc raws rx = Inr rx'"
  shows "w_files (r_world rx') p \<noteq> Some file"
  using deliver_kept [OF assms(1) _ assms(4,5), of "length old"] assms(2,3) by (auto simp: kept_def)

section \<open>Counts that wrap\<close>

text \<open>
  \<open>total_chunks\<close> is not compared with \<open>file_size\<close> and \<open>chunk_size\<close>. A chunk that begins at the end
  of the file has no packets, and the range that \<open>check_completion\<close> asks for is \<open>0\<close> to \<open>0xFFFFFFFF\<close>;
  one that begins beyond it is taken for a whole one.
\<close>

lemma chunk_at_end_of_file:
  assumes "chunk_file_offset s ci = js_file_size s" and "js_packet_size s \<noteq> 0"
  shows "expected_packets s ci = Some 0"
proof -
  have "js_packet_size s - 1 < js_packet_size s"
    using assms(2) by (simp add: word_less_nat_alt unat_minus_one unat_gt_0)
  then have "(js_packet_size s - 1) div js_packet_size s = 0"
    by (simp add: word_less_nat_alt word_unat_eq_iff unat_div)
  with assms show ?thesis by (simp add: expected_packets_def chunk_bytes_def)
qed

lemma whole_range_asked:
  assumes "js_eof_received (r_state rx)" and "r_current_chunk_index rx = UINT32_MAX"
    and "compute_missing_chunks (r_state rx) = [(ci, ci')]" and "ci \<le> r_max_chunk_seen rx"
    and "chunk_file_offset (r_state rx) ci = js_file_size (r_state rx)" and "js_packet_size (r_state rx) \<noteq> 0"
  shows "check_completion zcrc rx = Inr (transport_send (serialize_nak
    (nak_of_ranges (js_transaction_id (r_state rx)) ci [(0, UINT32_MAX)])) rx)"
proof -
  have max: "(0 - 1 :: u32) = UINT32_MAX" by simp
  have "check_completion zcrc rx = Inr (transport_send (serialize_nak
      (nak_of_ranges (js_transaction_id (r_state rx)) ci [(0, 0 - 1)])) rx)"
    using assms chunk_at_end_of_file [OF assms(5,6)] by (simp add: check_completion_def not_less)
  then show ?thesis by (simp only: max)
qed

lemma chunk_beyond_file:
  assumes "js_file_size s < chunk_file_offset s ci"
    and "unat (chunk_file_offset s ci) - unat (js_file_size s) \<le> 2 ^ 64 - unat (js_chunk_size s)"
  shows "chunk_bytes s ci = js_chunk_size s"
proof -
  let ?off = "chunk_file_offset s ci" and ?n = "js_file_size s" and ?c = "ucast (js_chunk_size s) :: u64"
  have "unat (?n - ?off) = unat ?n + 2 ^ 64 - unat ?off"
    using assms(1) by (simp add: unat_sub_if' word_less_nat_alt)
  moreover have "unat ?c = unat (js_chunk_size s)" by (rule unat_ucast64)
  ultimately have "?c \<le> ?n - ?off"
    using assms unfolding word_le_nat_alt word_less_nat_alt by simp
  then have "min (?n - ?off) ?c = ?c" by (simp add: min_def)
  moreover have "ucast ?c = js_chunk_size s" by (rule bit_word_eqI) (auto simp: bit_simps)
  ultimately show ?thesis by (simp add: chunk_bytes_def)
qed

text \<open>The sum of chunk size and packet size wraps too: a chunk of 2 ^ 32 - 1 bytes in packets of two.\<close>

lemma packet_count_wraps:
  "chunk_bytes s ci = UINT32_MAX \<Longrightarrow> js_packet_size s = 2 \<Longrightarrow> expected_packets s ci = Some 0"
  by (simp add: expected_packets_def)

section \<open>Checks that are not made\<close>

text \<open>The transaction of an ACK is not looked at.\<close>

lemma foreign_ack_is_taken:
  assumes "uint (a_chunk_index a) = ci" and "ci \<noteq> 0xFFFFFFFF"
  shows "chunk_step s file name c ci [ack_pdu a] = enter_chunk s file c (ci + 1)"
  using assms by (simp add: chunk_step_def ACK_FINAL_def)

text \<open>A failed checksum ends the transfer, and nobody is told.\<close>

lemma failed_checksum_is_not_reported:
  assumes "js_eof_received (r_state rx)" and "r_current_chunk_index rx = UINT32_MAX"
    and "compute_missing_chunks (r_state rx) = []" and "\<not> verify_file_checksum zcrc rx"
  shows "\<exists>rx'. check_completion zcrc rx = Inr rx' \<and> \<not> r_transfer_active rx' \<and> said rx' = said rx \<and>
    r_last_acked_id rx' = r_last_acked_id rx"
  using assms by (simp add: check_completion_def said_def)

text \<open>A retransmission replaces a packet that was good.\<close>

lemma damaged_retransmission_replaces:
  assumes "pl_inv pl" and "unat i < length (pl_slots pl)" and "pl_slots pl ! unat i = Good d"
  shows "\<exists>pl'. pl_insert i d' False pl = Some (True, pl') \<and> pl_slots pl' ! unat i = Corrupt d'"
  using pl_insert_in [OF assms(1,2), of d' False] assms(2) by auto

text \<open>
  The CRC-8 covers the payload only: with a flipped byte in its index a packet is as good as
  before, but another one.
\<close>

lemma le32_low_byte: "le32 (x XOR 0xFF) = (le32 x)[0 := le32 x ! 0 XOR 0xFF]"
proof -
  have m: "bit (0xFF :: 'a::len word) k \<longleftrightarrow> k < 8 \<and> k < LENGTH('a)" for k
    using bit_mask_iff [of 8 k, where 'a = "'a word"] by (auto simp: mask_numeral mask_eq_exp_minus_1)
  have "drop_bit 8 (x XOR 0xFF) = drop_bit 8 x"
    by (rule bit_word_eqI) (simp add: bit_simps m)
  moreover have "(ucast (x XOR 0xFF) :: u8) = ucast x XOR 0xFF"
    by (rule bit_word_eqI) (auto simp: bit_simps m)
  ultimately show ?thesis by (simp add: le32_def numeral_eq_Suc)
qed

lemma misdirected_packet_is_good:
  fixes i :: nat
  assumes desc: "describes m file"
  defines "j \<equiv> unat (of_nat i XOR 0xFF :: u32)"
  shows "parse_data (tl (garble 9 (item_pdu m file (Arrives ci i)))) =
    Some (packet_pdu m file ci j (packet_of m file ci i) (crc8 (packet_of m file ci i)))"
proof -
  let ?d = "packet_of m file ci i"
  have j: "of_nat j = (of_nat i XOR 0xFF :: u32)" by (simp add: j_def)
  have l: "length (le32 x) = 4" for x by (simp add: layout)
  have "garble 9 (item_pdu m file (Arrives ci i)) =
      padded_data_pdu m (packet_pdu m file ci j ?d (crc8 ?d))"
    by (simp add: garble_def padded_data_pdu_def data_pdu_def data_header_image_def packet_pdu_def Let_def j
        le32_low_byte list_update_append nth_append l)
  then show ?thesis using parse_padded [OF length_packet_of [OF desc]] by simp
qed

section \<open>A journal that cannot be written\<close>

text \<open>The chunk is acknowledged, and the journal does not name it.\<close>

lemma unjournaled_chunk_is_acknowledged:
  assumes run: "flush_chunk zcrc ci rx = Inr rx'" and "\<not> js_eof_received (r_state rx)"
    and j: "r_journal rx = journal_new dir" and p: "recv_file_path rx \<notin> journal_paths dir"
    and fault: "f_open (w_faults (r_world rx)) (j_tmp_path (journal_new dir))"
  shows "said rx' = said rx @ [ack_pdu \<lparr>a_transaction_id = js_transaction_id (r_state rx), a_chunk_index = ci\<rparr>]"
    and "w_files (r_world rx') (j_state_path (journal_new dir)) =
      w_files (r_world rx) (j_state_path (journal_new dir))"
proof -
  let ?q = "recv_file_path rx" and ?S = "j_state_path (journal_new dir)"
  obtain data w1 w2 pl where
    f: "pl_assemble (r_packet_list rx) = Some data" "pl_clear (r_packet_list rx) = Some pl"
      "open_output ?q (js_file_size (r_state rx)) (r_world rx) = Inr w1"
      "write_chunk ?q (chunk_file_offset (r_state rx) ci) data w1 = Inr w2"
      "unat ci < length (js_chunk_done (r_state rx))"
    using run by (auto simp: flush_chunk_def Let_def throw_def not_le split: option.splits sum.splits if_splits)
  have neq: "?q \<noteq> ?S" using p by (auto simp: journal_paths_new)
  have w1: "w_faults w1 = w_faults (r_world rx)" "w_files w1 ?S = w_files (r_world rx) ?S"
    using f(3) neq by (auto simp: open_output_def Let_def fs_write_def split: if_splits option.splits)
  have w2: "w_faults w2 = w_faults w1" "w_files w2 ?S = w_files w1 ?S"
    using f(4) neq by (auto simp: write_chunk_def fs_write_def split: if_splits option.splits)
  have "snd (mark_chunk_done (journal_new dir) ci w2) = w2"
    using fault w1 w2 by (simp add: mark_chunk_done_def atomic_write_def split: prod.split)
  moreover have "rx' = chunk_flushed ci w2 pl rx" using run flush_chunk_done [OF f, of zcrc] assms(2) by simp
  ultimately show "w_files (r_world rx') ?S = w_files (r_world rx) ?S"
    "said rx' = said rx @ [ack_pdu \<lparr>a_transaction_id = js_transaction_id (r_state rx), a_chunk_index = ci\<rparr>]"
    using w1 w2 silent_output(1) [OF f(3)] silent_output(2) [OF f(4)]
    by (simp_all add: chunk_flushed_def send_ack_def transport_send_def in_world_def j said_def)
qed

end
