(* ===== verification/Spec2Isabelle.thy ===== *)
theory Spec2Isabelle
  imports Cfdp_Main Cfdp_Runs Cfdp_Second Cfdp_Limits
begin

text \<open>
  A CFDP class 2 file transfer (acknowledged, over a serial line): the receiver in C++ under
  \<open>src/receiver\<close>, and the sender \<open>src/sender/sender.py\<close>, its PDUs and its control loop.

  \<^bold>\<open>The program.\<close> The sender cuts a file into chunks and a chunk into packets. It sends a
  \<open>Metadata\<close> PDU, asks with a \<open>ResumeQuery\<close> where to start, and sends every packet of a chunk
  as a \<open>Data\<close> PDU followed by an \<open>Eof\<close>. The receiver keeps the packets of one chunk in a
  linked list; when the list is complete it writes the chunk to the output file, syncs it,
  marks the chunk in a journal that is replaced atomically, and sends an ACK. Missing or damaged
  packets are asked for with NAK ranges. After the last chunk it compares the CRC-32 of the
  file and sends the final ACK (chunk index 0xFFFFFFFF). After a reboot it continues from the
  journal.

  \<^bold>\<open>The theories\<close>, in the order they build on each other:

  \<^item> \<open>Cfdp_Prelude\<close>: bytes and little-endian integers, C strings (\<open>cstr\<close>, \<open>strncpy\<close>,
    \<open>snprintf\<close>), and \<open>range_collect\<close>, the loop that both \<open>compute_nak_ranges\<close> and
    \<open>compute_missing_chunks\<close> run, with its specification.
  \<^item> \<open>Cfdp_Types\<close>: \<open>Types.h\<close>, one record per struct with its bytes; the locale
    \<open>struct_layout\<close> is the contract of a packed struct, interpreted for all seven.
  \<^item> \<open>Cfdp_Codec\<close>: \<open>PduCodec.h\<close>, the serializers of \<open>CfdpReceiver.cpp\<close> and the parsing of
    its dispatcher.
  \<^item> \<open>Cfdp_Crc\<close>: \<open>Crc.cpp\<close>. CRC-8 is proved to be a polynomial remainder; zlib's CRC-32 is
    the parameter \<open>zcrc\<close>, with its streaming law as the hypothesis \<open>zlib_streaming\<close>, which a
    bitwise CRC-32 satisfies (\<open>ieee_crc32\<close>).
  \<^item> \<open>Cfdp_PacketList\<close>: \<open>PacketList.cpp\<close> over an explicit heap of nodes. \<open>pl_inv\<close> says that
    list, index array and counter agree; the locale \<open>packet_store\<close> is what the receiver needs.
  \<^item> \<open>Cfdp_Disk\<close>: files, the system calls used, refused calls, the log of effects, crashes
    between and inside effects (\<open>crash_prefix\<close>, \<open>survives\<close>).
  \<^item> \<open>Cfdp_Journal\<close>: \<open>Journal.cpp\<close>; the locale \<open>transfer_journal\<close> is its contract.
  \<^item> \<open>Cfdp_Receiver\<close>: \<open>CfdpReceiver.cpp\<close>, one definition per member function. A handler gives
    the receiver after it, or a fault with the world it leaves: an exception, or a step that
    C++ leaves undefined (\<open>ub\<close>).
  \<^item> \<open>Cfdp_Receiver_Inv\<close>: the invariant \<open>rx_inv\<close>, kept by every handler for any bytes, which
    excludes every undefined step but the read past a file name without terminator.
  \<^item> \<open>Cfdp_Effects\<close>: which files a handler touches, and what a crash inside it leaves.
  \<^item> \<open>Cfdp_Sync\<close>: while no call is refused, the journal is the state in memory.
  \<^item> \<open>Cfdp_Transport\<close>, \<open>Cfdp_Main\<close>: \<open>UartTransport.cpp\<close> and \<open>receiver_main.cpp\<close>: framing,
    partial reads, the receive and grace loops. Both loops terminate on every finite line
    (measure: what is left on it); waiting for ever in \<open>read\<close> is the result \<open>Waiting\<close>.
  \<^item> \<open>Cfdp_Sender\<close>: the PDUs and checksums of \<open>sender.py\<close> on Python integers.
  \<^item> \<open>Cfdp_Integrity\<close>, \<open>Cfdp_Honest\<close>: a transfer of one file; under honest traffic (packets may
    be lost, repeated, reordered, or damaged so that CRC-8 notices) every handler keeps the
    promises made so far, at every point a crash may fall.
  \<^item> \<open>Cfdp_System\<close>: the receiver as a machine with PDUs, crashes, reboots, exceptions and
    changing faults (\<open>step\<close>), with two invariants of its reachable states; the locale
    \<open>step_invariant\<close>.
  \<^item> \<open>Cfdp_Delivery\<close>: the abstract receiver \<open>progress_step\<close>, which counts packets of the current
    chunk, and the simulation by the C++ state machine (locale \<open>simulation\<close>); sessions.
  \<^item> \<open>Cfdp_Ground\<close>, \<open>Cfdp_Rounds\<close>: the sender's bytes are the items of that simulation; NAK
    rounds.
  \<^item> \<open>Cfdp_Sender_Loop\<close>: \<open>CfdpSender.send\<close> and \<open>_query_resume\<close> as a machine that stands at a
    call of \<open>recv\<close> (\<open>phase\<close>, \<open>sender_step\<close>).
  \<^item> \<open>Cfdp_Link\<close>: sender and receiver machine joined by an unreliable line (\<open>link_step\<close>), with an
    invariant that ties the sender's place in its program to the receiver's disk.
  \<^item> \<open>Cfdp_Replies\<close>: what the receiver answers to a packet, a pass, an \<open>Eof\<close>.
  \<^item> \<open>Cfdp_Noise\<close>: \<open>Transport.send\<close> of \<open>sender.py\<close>, which frames PDUs, loses some and flips bytes of
    others; a flipped byte of a packet's payload or CRC-8 makes it a damaged packet. And
    \<open>Transport.recv\<close> with the loop that collects a batch of replies.
  \<^item> \<open>Cfdp_Talk\<close>, \<open>Cfdp_Losses\<close>: the closed loop in turns (\<open>turn\<close>, \<open>noisy_turn\<close>): the sender
    hears what the receiver answered, and of what it sends then, a part arrives. \<open>underway\<close> is the
    invariant of a conversation with noise; \<open>at_rest\<close> are the states it never leaves.
  \<^item> \<open>Cfdp_Second\<close>: a final ACK is sent only when the receiver has completed the transfer and
    remembers its id; what such a receiver does with the next file.
  \<^item> \<open>Cfdp_Limits\<close>: inputs outside the hypotheses of delivery (a longer output file, counts that wrap,
    foreign replies, damaged headers, a journal that cannot be written) and what happens to them.
  \<^item> \<open>Cfdp_Example\<close>, \<open>Cfdp_Runs\<close>: one transfer with loss and damage, for the witnesses.

  \<^bold>\<open>The properties.\<close> C1 to C9 are about the whole transfer: the conversation of both programs
  under noise and after a reboot, safety in every reachable state of the composed system,
  refinement of the abstract receiver, delivery. C10 to C16 are about the receiver as a process
  for any traffic: its invariant, the effects it may have, single PDUs and reboots. C17 to C35 are
  about the components. C36 to C40 are behaviour that the documentation does not promise or
  contradicts: a crash on a long name, three ways in which both sides wait for ever, and a second
  file that is reported as sent and lost.

  \<^bold>\<open>Bounds.\<close> Machine integers are words of their width and wrap. Nothing is bounded by fuel: the
  walks over the linked list are \<open>partial_function (option)\<close>, and proved to return under the
  invariant; a conversation ends within a turn per chunk and two more once the noise stops.
  Delivery asks for what \<open>describes\<close> says: a positive number of chunks up to 2 ^ 20, a
  file below 2 ^ 63 bytes, chunk size plus packet size at most 2 ^ 32, a transaction other than 0.

  \<^bold>\<open>Not modelled.\<close> Console output; the terminal settings behind \<open>tcgetattr\<close>, \<open>cfmakeraw\<close> and
  \<open>tcsetattr\<close> (what the constructor of \<open>UartTransport\<close> makes of their results is); exhausted
  memory; a loss of power that also loses writes the operating system has accepted (crashes are
  crashes of the process: of the effects before the crash all are on disk, of the one it falls
  into a part); of \<open>sender.py\<close> a line that is closed while it runs, writes cut short, a file that
  changes while it is sent, damage to the header of a packet or to another PDU in \<open>fair\<close>
  conversations, and \<open>setup_loopback\<close>; \<open>cfdp_send.sh\<close> and the build files.
\<close>

section \<open>Delivery, safety and composition\<close>





text \<open>C3: The receiver implements the abstract receiver that only counts: whatever of a packet, a
  damaged packet or an \<open>Eof\<close> arrives, the C++ state machine moves to a state that shows the
  abstract successor, and its disk, journal and promises are in order.\<close>

theorem receiver_implements_abstract_receiver:
  assumes "dirs_ok dir recv_dir" and "describes m file"
    and "crc32_file zcrc (Some file) = m_checksum m"
    and "tracks dir recv_dir m file p rx" and "item_ok m file p it"
  shows "\<exists>rx'. on_pdu_received zcrc (item_pdu m file it) rx = Inr rx' \<and>
    tracks dir recv_dir m file (progress_step m file p it) rx'"
  using item_step [OF assms] by (auto simp: receive_item_def split: sum.splits)

theorem receiver_implements_abstract_receiver_witness:
  "\<exists>rx rx'. on_pdu_received ex_zcrc (metadata_pdu ex_meta) ex_receiver = Inr rx \<and>
     on_pdu_received ex_zcrc (item_pdu ex_meta ex_file (Arrives 0 1)) rx = Inr rx' \<and>
     tracks ex_dir ex_recv_dir ex_meta ex_file (Receiving 0 {1} False) rx'"
proof -
  obtain rx where rx: "on_pdu_received ex_zcrc (metadata_pdu ex_meta) ex_receiver = Inr rx"
      "tracks ex_dir ex_recv_dir ex_meta ex_file (Receiving 0 {} False) rx"
    using ex_begun by blast
  have ok: "item_ok ex_meta ex_file (Receiving 0 {} False) (Arrives 0 1)"
    by (simp add: ex_packets ex_sizes)
  have "progress_step ex_meta ex_file (Receiving 0 {} False) (Arrives 0 1) = Receiving 0 {1} False"
    using ex_two(3) by (simp add: ex_packets)
  with receiver_implements_abstract_receiver [OF ex_dirs_ok ex_describes ex_checksum rx(2) ok] rx(1)
  show ?thesis by (auto simp del: item_pdu.simps tracks.simps)
qed










text \<open>C8: A new receiver, no system call refused: after the \<open>Metadata\<close>, and for every chunk a round
  in which packets were lost, damaged, repeated and reordered at will before one complete pass
  and an \<open>Eof\<close>, the output file is the source file byte for byte, the transfer is over and the
  final ACK was sent. No PDU of the session raises anything.\<close>

theorem session_delivers_the_file:
  assumes "dirs_ok dir recv_dir" and "describes m file"
    and "crc32_file zcrc (Some file) = m_checksum m"
    and "calm w" and "w_log w = []" and "w_files w (j_state_path (journal_new dir)) = None"
    and "not_longer recv_dir m file (w_files w)" and "arrays_ok memory"
    and "session_for m file rounds"
  shows "\<exists>rx. deliver zcrc (metadata_pdu m # map (item_pdu m file) (concat rounds))
      (receiver_new dir recv_dir memory w) = Inr rx \<and>
    w_files (r_world rx) (recv_dir @ ascii ''/'' @ cstr (m_filename m)) = Some file \<and>
    \<not> r_transfer_active rx \<and>
    Sent (ack_pdu \<lparr>a_transaction_id = m_transaction_id m, a_chunk_index = UINT32_MAX\<rparr>)
      \<in> set (w_log (r_world rx))"
proof -
  have "m_transaction_id m \<noteq> 0" using assms(2) by (simp add: describes_def)
  with deliver_session [OF assms(1-3) new_process_honest(2) [OF assms(1,2,5-8)] _ _ _ assms(9)] assms(4)
  show ?thesis by (auto simp: receiver_new_def acked_def dest_of_def)
qed

theorem session_delivers_the_file_witness:
  "\<exists>rx. deliver ex_zcrc ex_pdus ex_receiver = Inr rx \<and>
    w_files (r_world rx) (ascii ''r/hi'') = Some [104, 105, 33] \<and> \<not> r_transfer_active rx"
  using session_delivers_the_file [OF ex_dirs_ok ex_describes ex_checksum ex_fresh(4,1,2,3,5) ex_session]
  by (auto simp: ex_pdus_def ex_receiver_def ex_cstr ex_recv_dir_def ex_file_def)

text \<open>C9: The sender's state stays well-formed and it sends only genuine PDUs, whatever bytes it is
  answered: an ACK, NAK or \<open>ResumeInfo\<close> may be forged, cut short or name packets that do not
  exist, and still every \<open>Data\<close> PDU that names a place in the file carries the bytes of that
  place, or is damaged so that CRC-8 notices, and every \<open>Metadata\<close> is the file's.\<close>

theorem sender_answers_are_genuine:
  assumes "sender_ok s file name" and "0 \<le> c" and "c < 2 ^ 32" and "phase_ok s file ph"
    and "sender_step s file name c ph inbox = (ph', out, rest)"
  shows "(\<forall>pdu \<in> set out. honest_pdu (meta_of s file name (word_of_int c)) file pdu) \<and> phase_ok s file ph'"
  using sender_step_honest [OF assms] by auto

theorem sender_answers_are_genuine_witness:
  "\<exists>nak out. sender_step ex_sender ex_file ''hi'' ex_sum (In_chunk 0) [nak] = (In_chunk 0, out, []) \<and>
    length out = 2 \<and> (\<forall>pdu \<in> set out. honest_pdu ex_meta ex_file pdu)"
proof -
  let ?nak = "[4, 7,0,0,0, 1,0,0,0, 0,0,0,0, 1,0,0,0, 1,0,0,0] :: bytes"
  have ph: "phase_ok ex_sender ex_file (In_chunk 0)" by (simp add: ex_total)
  have "length (fst (on_nak ex_sender ex_file (tl ?nak))) = 1 \<and> snd (on_nak ex_sender ex_file (tl ?nak))"
    by code_simp
  then obtain p where "on_nak ex_sender ex_file (tl ?nak) = ([p], True)"
    by (cases "on_nak ex_sender ex_file (tl ?nak)") (auto simp: length_Suc_conv)
  moreover obtain eof where "send_eof ex_sender ex_sum = Some eof"
    using send_eof_item [OF ex_sender_ok ex_sum_range] by blast
  ultimately obtain out where
    out: "sender_step ex_sender ex_file ''hi'' ex_sum (In_chunk 0) [?nak] = (In_chunk 0, out, [])" "length out = 2"
    by (simp add: chunk_step_def latest_nak_def go_def and_then_def pdu_code.simps)
  from sender_answers_are_genuine [OF ex_sender_ok ex_sum_range ph out(1)] out
  show ?thesis by (auto simp flip: ex_meta_sum)
qed


section \<open>One PDU, and reboots\<close>





text \<open>C12: Whatever the bytes of a PDU, the files touched are the journal, its temporary file, and
  files directly in the receive directory, and these are never the same file.\<close>

theorem effects_are_confined:
  assumes "rx_inv dir recv_dir rx"
  shows "journal_paths dir \<inter> output_paths recv_dir = {} \<and>
    (\<exists>es. ran (r_world rx) es (outcome_world (on_pdu_received zcrc raw rx)) \<and>
      (\<Union>e \<in> set es. ev_touches e) \<subseteq> journal_paths dir \<union> output_paths recv_dir)"
proof -
  have base: "rx_base dir recv_dir rx" using assms by (simp add: rx_inv_def)
  then have "journal_paths dir \<inter> output_paths recv_dir = {}"
    by (intro paths_disjoint) (simp add: rx_base_def)
  with effects_on_pdu_received [OF assms, of zcrc raw] rx_baseD(3) [OF base] show ?thesis
    by (auto simp: effects_def confined_def)
qed

theorem effects_are_confined_witness:
  "\<exists>es. ran ex_world es (outcome_world (on_pdu_received ex_zcrc [1, 2, 3] ex_receiver)) \<and>
     (\<Union>e \<in> set es. ev_touches e) \<subseteq> journal_paths ex_dir \<union> output_paths ex_recv_dir"
proof -
  have "rx_inv ex_dir ex_recv_dir ex_receiver" using ex_boot(2) by (simp add: honest_rx_def)
  from effects_are_confined [OF this, of ex_zcrc "[1, 2, 3]"] show ?thesis
    by (simp add: ex_receiver_def receiver_new_def)
qed

text \<open>C13: The final ACK of a transfer is sent only when the \<open>Eof\<close> was received, every chunk is
  marked done and the CRC-32 of the file on disk is the one announced, under any traffic and
  any refused call.\<close>

theorem final_ack_needs_every_check:
  assumes "pl_inv (r_packet_list rx)" and "check_completion zcrc rx = Inr rx'"
    and "Sent (ack_pdu \<lparr>a_transaction_id = js_transaction_id (r_state rx), a_chunk_index = UINT32_MAX\<rparr>)
      \<in> set (drop (length (w_log (r_world rx))) (w_log (r_world rx')))"
  shows "js_eof_received (r_state rx) \<and>
    (\<forall>i < unat (js_total_chunks (r_state rx)). \<not> chunk_missing (r_state rx) i) \<and>
    crc32_file zcrc (readable (recv_file_path rx) (r_world rx)) = js_checksum_expected (r_state rx)"
proof (rule ccontr)
  assume bad: "\<not> ?thesis"
  let ?ack = "ack_pdu \<lparr>a_transaction_id = js_transaction_id (r_state rx), a_chunk_index = UINT32_MAX\<rparr>"
  have nak: "serialize_nak nak \<noteq> ?ack" "?ack \<noteq> serialize_nak nak" for nak
    by (simp_all add: serialize_nak_def ack_pdu_def)
  have rm: "\<exists>es. w_log (snd (journal_remove j w)) = w_log w @ es \<and> Sent pdu \<notin> set es" for j w pdu
    by (auto simp: journal_remove_def)
  obtain ranges where "pl_compute_nak_ranges (r_packet_list rx) = Some ranges"
    using pl_nak_ranges_inv [OF assms(1)] by blast
  with bad assms(2) have "\<exists>es. w_log (r_world rx') = w_log (r_world rx) @ es \<and> Sent ?ack \<notin> set es"
    using nak rm [of "r_journal rx" "r_world rx" ?ack]
    by (auto simp: check_completion_def send_nak_packets_def compute_missing_Nil_iff verify_file_checksum_def
        Let_def throw_def split: if_splits option.splits)
  with assms(3) show False by auto
qed

theorem final_ack_needs_every_check_witness:
  "\<exists>rx rx'. check_completion ex_zcrc rx = Inr rx' \<and> \<not> r_transfer_active rx' \<and>
     js_eof_received (r_state rx) \<and> compute_missing_chunks (r_state rx) = [] \<and>
     crc32_file ex_zcrc (readable (recv_file_path rx) (r_world rx)) = js_checksum_expected (r_state rx)"
proof -
  obtain rx where rx: "check_completion ex_zcrc ex_ready = Inr rx" "\<not> r_transfer_active rx"
      "Sent (ack_pdu \<lparr>a_transaction_id = js_transaction_id (r_state ex_ready), a_chunk_index = UINT32_MAX\<rparr>)
        \<in> set (drop (length (w_log (r_world ex_ready))) (w_log (r_world rx)))"
    using ex_ready_done by blast
  from final_ack_needs_every_check [OF ex_ready_pl rx(1,3)] rx(1,2) show ?thesis
    by (auto simp: compute_missing_Nil_iff)
qed



text \<open>C15: A process killed between two PDUs and started again, with whatever its memory holds, goes
  on with exactly the state it had: after any traffic, the journal is the memory.\<close>

theorem reboot_restores_the_transfer:
  assumes "dirs_ok dir recv_dir" and "arrays_ok memory" and "arrays_ok memory'"
    and "calm w" and "w_files w (j_state_path (journal_new dir)) = None"
    and "deliver zcrc raws (receiver_new dir recv_dir memory w) = Inr rx" and "r_transfer_active rx"
    and "terminated (js_filename (r_state rx))"
    and "compute_missing_chunks (r_state rx) \<noteq> [] \<or> \<not> js_eof_received (r_state rx)"
  shows "\<exists>rx'. on_boot zcrc (receiver_new dir recv_dir memory' (r_world rx)) = Inr rx' \<and>
    r_state rx' = r_state rx \<and> r_transfer_active rx' \<and> r_world rx' = r_world rx \<and>
    r_current_chunk_index rx' = UINT32_MAX \<and> pl_slots (r_packet_list rx') = []"
proof -
  let ?rx = "receiver_new dir recv_dir memory w"
  have "rx_inv dir recv_dir ?rx"
    by (rule receiver_new_inv [OF assms(1,2) fresh_journal_ok [OF assms(5)]])
  moreover have "calm (r_world ?rx)" "in_sync dir ?rx"
    using assms(4) by (simp_all add: receiver_new_def)
  ultimately have sync: "in_sync dir rx" "calm (r_world rx)"
    using deliver_sync [OF _ _ _ assms(6)] by simp_all
  then have "stored (journal_new dir) (r_world rx) = Some (r_state rx)"
    using assms(7) by (simp add: in_sync_def)
  from boot_restores [OF sync(2) this assms(3,8,9)] show ?thesis by blast
qed

theorem reboot_restores_the_transfer_witness:
  "\<exists>rx rx'. deliver ex_zcrc ex_first_chunk ex_receiver = Inr rx \<and>
     on_boot ex_zcrc (receiver_new ex_dir ex_recv_dir unset_state (r_world rx)) = Inr rx' \<and>
     r_state rx' = r_state rx \<and> chunk_finished (r_state rx') 0"
proof -
  obtain rx where rx: "deliver ex_zcrc ex_first_chunk ex_receiver = Inr rx"
      "tracks ex_dir ex_recv_dir ex_meta ex_file (Receiving 1 {} False) rx"
    using ex_one_chunk by blast
  then have h: "r_transfer_active rx" "\<not> js_eof_received (r_state rx)" "chunk_finished (r_state rx) 0"
    "terminated (js_filename (r_state rx))"
    by (auto simp: shows_progress_def ex_sizes honest_rx_def honest_core_def transfer_of_def)
  from reboot_restores_the_transfer [OF ex_dirs_ok ex_fresh(5,5,4,2) rx(1) [unfolded ex_receiver_def] h(1,4)] h rx(1)
  show ?thesis by auto
qed

text \<open>C16: An acceptable \<open>Metadata\<close> for another transaction starts a clean transfer: no chunk is
  done, no packet is kept, the output lies in the receive directory under the announced name,
  and the journal on disk is this state.\<close>

theorem metadata_starts_a_clean_transfer:
  assumes "rx_inv dir recv_dir rx" and "calm (r_world rx)"
    and "metadata_fits meta" and "accepted meta" and "terminated (m_filename meta)"
    and "(if r_transfer_active rx then js_transaction_id (r_state rx) else r_last_acked_id rx) \<noteq>
      m_transaction_id meta"
  shows "\<exists>rx'. on_pdu_received zcrc (metadata_pdu meta) rx = Inr rx' \<and> r_transfer_active rx' \<and>
    js_transaction_id (r_state rx') = m_transaction_id meta \<and>
    js_chunk_done (r_state rx') = replicate (unat (m_total_chunks meta)) False \<and>
    \<not> js_eof_received (r_state rx') \<and> pl_slots (r_packet_list rx') = [] \<and>
    r_current_chunk_index rx' = UINT32_MAX \<and>
    recv_file_path rx' = recv_dir @ ascii ''/'' @ cstr (m_filename meta) \<and>
    stored (journal_new dir) (r_world rx') = Some (r_state rx')"
proof -
  have base: "rx_base dir recv_dir rx" using assms(1) by (simp add: rx_inv_def)
  have pl: "pl_inv (r_packet_list rx)" and d: "dirs_ok dir recv_dir" "r_recv_dir rx = recv_dir"
    using base by (simp_all add: rx_base_def)
  obtain pl' where pl': "pl_clear (r_packet_list rx) = Some pl'" "pl_slots pl' = []"
    using pls.clear_ok [OF pl] by blast
  have len: "length (m_filename meta) = 256" using assms(3) by (simp add: metadata_fits_def)
  have "handle_metadata meta rx = Inr (start_transfer meta rx)"
    using assms(4-6) by (auto simp: handle_metadata_cases [OF pl])
  then have run: "on_pdu_received zcrc (metadata_pdu meta) rx = Inr (start_transfer meta rx)"
    by (simp add: on_pdu_received_metadata [OF assms(3)])
  let ?rx = "start_transfer meta rx"
  have s: "r_state ?rx = metadata_state recv_dir meta (r_state rx)" "r_transfer_active ?rx"
    "r_packet_list ?rx = pl'" "r_current_chunk_index ?rx = UINT32_MAX"
    using pl' d by (simp_all add: start_transfer_def Let_def)
  have "in_sync dir ?rx"
    by (rule start_transfer_sync [OF assms(1) len assms(2,4,5)])
  with s metadata_dest [OF d(1) assms(5) len, of "r_state rx"] pl'(2) show ?thesis
    by (intro exI [of _ ?rx] conjI run) (simp_all add: in_sync_def recv_file_path_def, simp_all add: metadata_state_def)
qed

theorem metadata_starts_a_clean_transfer_witness:
  "\<exists>rx. on_pdu_received ex_zcrc (metadata_pdu ex_meta) ex_receiver = Inr rx \<and>
     recv_file_path rx = ascii ''r/hi'' \<and> js_chunk_done (r_state rx) = [False, False]"
proof -
  have inv: "rx_inv ex_dir ex_recv_dir ex_receiver" and calm: "calm (r_world ex_receiver)"
    using ex_boot(2) by (simp_all add: honest_rx_def) (simp_all add: ex_receiver_def receiver_new_def ex_fresh)
  have m: "metadata_fits ex_meta" "accepted ex_meta" "terminated (m_filename ex_meta)"
    using ex_describes by (simp_all add: describes_def)
  have "(if r_transfer_active ex_receiver then js_transaction_id (r_state ex_receiver)
      else r_last_acked_id ex_receiver) \<noteq> m_transaction_id ex_meta"
    by (simp add: ex_receiver_def receiver_new_def ex_meta_def)
  note start = metadata_starts_a_clean_transfer [OF inv calm m this, of ex_zcrc]
  have two: "unat (m_total_chunks ex_meta) = Suc (Suc 0)" by (simp add: ex_sizes)
  from start show ?thesis unfolding ex_path two by auto
qed


section \<open>Answers\<close>

text \<open>C29: \<open>ResumeInfo\<close> names the first chunk that is missing, or 0xFFFFFFFF when none is, and 0 when
  the receiver does not know the transaction; nothing else happens.\<close>

theorem resume_info_names_first_missing:
  "handle_resume_query q rx = Inr (transport_send (resume_info_pdu
     \<lparr>i_transaction_id = q_transaction_id q, i_first_missing_chunk =
        (if r_transfer_active rx \<and> js_transaction_id (r_state rx) = q_transaction_id q then
           (case filter (\<lambda>i. \<not> (i < length (js_chunk_done (r_state rx)) \<and> js_chunk_done (r_state rx) ! i))
                [0..<unat (js_total_chunks (r_state rx))] of
              [] \<Rightarrow> UINT32_MAX | i # is \<Rightarrow> of_nat i)
         else 0)\<rparr>) rx)"
proof (cases "compute_missing_chunks (r_state rx)")
  case Nil
  with compute_missing_spec(1) [of "r_state rx"] show ?thesis
    by (auto simp: handle_resume_query_def Let_def chunk_missing_def [abs_def] not_less)
next
  case (Cons r rs)
  then obtain "is" where
    f: "filter (chunk_missing (r_state rx)) [0..<unat (js_total_chunks (r_state rx))] = unat (fst r) # is"
    using compute_missing_head by blast
  show ?thesis
    using Cons f [unfolded chunk_missing_def [abs_def]]
    by (simp add: handle_resume_query_def Let_def not_less)
qed

text \<open>A packet of a chunk that is already on disk changes nothing: no file, no journal, no
  packet in memory; the first packet of such a chunk is answered with the chunk's ACK again.\<close>

lemma duplicate_of_finished_chunk_is_harmless:
  assumes "data_for dpdu rx" and "chunk_finished (r_state rx) (d_chunk_index dpdu)"
  shows "\<exists>rx'. handle_data zcrc dpdu rx = Inr rx' \<and> r_state rx' = r_state rx \<and>
    r_packet_list rx' = r_packet_list rx \<and> r_transfer_active rx' \<and>
    w_files (r_world rx') = w_files (r_world rx) \<and>
    w_log (r_world rx') = w_log (r_world rx) @ (if d_packet_index dpdu = 0
      then [Sent (ack_pdu \<lparr>a_transaction_id = d_transaction_id dpdu, a_chunk_index = d_chunk_index dpdu\<rparr>)]
      else [])"
  using assms by (cases rule: handle_data_elim [of dpdu rx zcrc]) (auto simp: data_for_def)

lemma duplicate_of_finished_chunk_is_harmless_witness:
  "\<exists>rx dpdu rx'. d_packet_index dpdu = 0 \<and> handle_data ex_zcrc dpdu rx = Inr rx' \<and>
     r_state rx' = r_state rx \<and>
     last (w_log (r_world rx')) = Sent (ack_pdu \<lparr>a_transaction_id = 7, a_chunk_index = 0\<rparr>)"
proof -
  obtain rx where rx: "tracks ex_dir ex_recv_dir ex_meta ex_file (Receiving 1 {} False) rx"
    using ex_one_chunk by blast
  then have tr: "r_transfer_active rx" "transfer_of ex_recv_dir ex_meta (r_state rx)"
    "chunk_finished (r_state rx) 0"
    by (auto simp: honest_rx_def honest_core_def shows_progress_def ex_sizes)
  let ?d = "packet_pdu ex_meta ex_file 0 0 (packet_of ex_meta ex_file 0 0) 0"
  have d: "data_for ?d rx"
    by (rule data_for_item [OF ex_describes tr(1,2)]) (simp_all add: ex_packets ex_sizes)
  have fin: "chunk_finished (r_state rx) (d_chunk_index ?d)" using tr(3) by (simp add: packet_pdu_def)
  have i: "d_packet_index ?d = 0" "d_chunk_index ?d = 0" "d_transaction_id ?d = 7"
    by (simp_all add: packet_pdu_def ex_meta_def)
  from duplicate_of_finished_chunk_is_harmless [OF d fin, of ex_zcrc] obtain rx' where
    "handle_data ex_zcrc ?d rx = Inr rx'" "r_state rx' = r_state rx"
    "w_log (r_world rx') = w_log (r_world rx) @ [Sent (ack_pdu \<lparr>a_transaction_id = 7, a_chunk_index = 0\<rparr>)]"
    unfolding i by auto
  then show ?thesis
    by (intro exI [of _ rx] exI [of _ ?d] exI [of _ rx'] conjI i) simp_all
qed

text \<open>C30: Sender and receiver compute the same geometry: the number of packets the receiver expects
  of a chunk, in 32-bit and 64-bit arithmetic, is the number the sender announces, and the chunk
  is written where the sender read it; nothing wraps.\<close>

theorem geometry_agrees:
  assumes "sender_ok s file name" and "ci < m_total_chunks (meta_of s file name c)"
    and "transfer_of recv_dir (meta_of s file name c) js"
  shows "case chunk_geometry s file (uint ci) of (chunk_off, chunk_sz, total_pkts) \<Rightarrow>
      expected_packets js ci = Some (word_of_int total_pkts) \<and> 0 < total_pkts \<and> total_pkts < 2 ^ 32 \<and>
      chunk_off = int (unat (chunk_file_offset js ci)) \<and> chunk_sz = int (unat (chunk_bytes js ci))"
proof -
  let ?m = "meta_of s file name c"
  have d: "describes ?m file" by (rule describes_meta_of [OF assms(1)])
  obtain n where n: "packets_in ?m file ci = n" "0 < n" "n < 2 ^ 32"
    using packets_in_pos [OF d assms(2)] packets_in_bound [OF d, of ci] by blast
  obtain k where k: "t_chunk_size s = int k"
    using assms(1) by (metis sender_ok_def less_imp_le zero_le_imp_eq_int)
  have off: "uint ci * t_chunk_size s = int (unat (chunk_file_offset js ci))"
    unfolding unat_chunk_file_offset [OF assms(3)] meta_of_fields(2) [OF assms(1)]
    using k by simp
  show ?thesis
    unfolding chunk_geometry_pieces [OF assms(1,2)] n(1) off unat_chunk_bytes [OF assms(3) d assms(2)]
      expected_packets_genuine(1) [OF assms(3) d assms(2)]
    using n(2,3) by simp
qed

theorem geometry_agrees_witness:
  "expected_packets (metadata_state ex_recv_dir ex_meta unset_state) 0 = Some 2"
proof -
  have "transfer_of ex_recv_dir ex_meta (metadata_state ex_recv_dir ex_meta unset_state)"
    by (rule metadata_transfer_of [OF ex_dirs_ok ex_describes])
  moreover have "0 < m_total_chunks ex_meta" by (simp add: ex_sizes)
  moreover have "chunk_geometry ex_sender ex_file (uint (0 :: u32)) = (0, 2, 2)"
    by (simp add: chunk_geometry_def ex_sender_def ex_file_def)
  ultimately show ?thesis
    using geometry_agrees [OF ex_sender_ok, where c = "crc32_file ex_zcrc (Some ex_file)" and ci = 0]
    unfolding ex_meta_of by simp
qed


section \<open>Behaviour the documentation does not promise\<close>

text \<open>A receiver that has completed nothing takes transaction 0 for its last completed one, as
  \<open>last_acked_id_\<close> starts at 0: the \<open>Metadata\<close> of a transaction 0 is answered with the final
  ACK, and nothing is received.\<close>

lemma transaction_zero_is_acked_unseen:
  assumes "metadata_fits m" and "m_transaction_id m = 0"
  shows "\<exists>rx. on_pdu_received zcrc (metadata_pdu m) (receiver_new dir recv_dir memory w) = Inr rx \<and>
    w_log (r_world rx) = w_log w @ [Sent (ack_pdu
      \<lparr>a_transaction_id = js_transaction_id memory, a_chunk_index = UINT32_MAX\<rparr>)] \<and>
    w_files (r_world rx) = w_files w \<and> \<not> r_transfer_active rx"
  using assms by (simp add: on_pdu_received_metadata handle_metadata_def receiver_new_def)

text \<open>A name that fills its field: it still ends in the PDU, but not in the journal state.\<close>

lemma full_name_unterminated:
  assumes fits: "metadata_fits m" and mem: "arrays_ok memory"
    and full: "length (cstr (m_filename m)) = 255" "js_filename memory ! 255 \<noteq> 0"
  shows "terminated (m_filename m)" and "\<not> terminated (js_filename (metadata_state recv_dir m memory))"
proof -
  have len: "length (m_filename m) = 256" using fits by (simp add: metadata_fits_def)
  show "terminated (m_filename m)"
  proof (rule ccontr)
    assume "\<not> terminated (m_filename m)"
    then have "cstr (m_filename m) = m_filename m"
      by (auto simp: terminated_def cstr_def takeWhile_eq_all_conv)
    with full(1) len show False by simp
  qed
  have "length (js_filename memory) = 256" using mem by (simp add: arrays_ok_def)
  then have "drop 255 (js_filename memory) = [js_filename memory ! 255]"
    by (simp add: Cons_nth_drop_Suc [symmetric])
  then have "js_filename (metadata_state recv_dir m memory) = cstr (m_filename m) @ [js_filename memory ! 255]"
    using full(1) by (simp add: metadata_state_def strncpy_def)
  then show "\<not> terminated (js_filename (metadata_state recv_dir m memory))"
    using full(2) by (auto simp: terminated_def cstr_def dest: set_takeWhileD)
qed

text \<open>C36: A file name of 255 characters, which the sender may send, stops the next boot: \<open>strncpy\<close>
  leaves the last byte of \<open>state_.filename\<close> as the uninitialised member had it, the journal
  keeps it, and \<open>on_boot\<close> prints a string without terminator.\<close>

theorem full_name_stops_the_next_boot:
  assumes "dirs_ok dir recv_dir" and "arrays_ok memory" and "arrays_ok memory'"
    and "calm w" and "w_files w (j_state_path (journal_new dir)) = None"
    and "metadata_fits m" and "accepted m" and "m_transaction_id m \<noteq> 0"
    and "length (cstr (m_filename m)) = 255" and "js_filename memory ! 255 \<noteq> 0"
  shows "\<exists>rx. on_pdu_received zcrc (metadata_pdu m) (receiver_new dir recv_dir memory w) = Inr rx \<and>
    r_transfer_active rx \<and>
    on_boot zcrc (receiver_new dir recv_dir memory' (r_world rx)) =
      Inl (Undefined Unterminated_string, r_world rx)"
proof -
  let ?rx = "receiver_new dir recv_dir memory w" and ?s = "metadata_state recv_dir m memory"
  note name = full_name_unterminated [OF assms(6,2,9,10)]
  have inv: "rx_inv dir recv_dir ?rx"
    by (rule receiver_new_inv [OF assms(1,2) fresh_journal_ok [OF assms(5)]])
  have calm: "calm (r_world ?rx)" using assms(4) by (simp add: receiver_new_def)
  have "r_last_acked_id ?rx \<noteq> m_transaction_id m" "\<not> r_transfer_active ?rx"
    using assms(8) by (simp_all add: receiver_new_def)
  moreover have "pl_inv (r_packet_list ?rx)" using inv by (simp add: rx_inv_def rx_base_def)
  ultimately have run: "handle_metadata m ?rx = Inr (start_transfer m ?rx)"
    using assms(7) name(1) by (simp add: handle_metadata_cases)
  let ?rx1 = "start_transfer m ?rx"
  have act: "r_transfer_active ?rx1" "r_state ?rx1 = ?s"
    by (simp_all add: start_transfer_def Let_def receiver_new_def)
  have pdu: "on_pdu_received zcrc (metadata_pdu m) ?rx = Inr ?rx1"
    using run by (simp add: on_pdu_received_metadata [OF assms(6)])
  have "in_sync dir ?rx" by (simp add: receiver_new_def)
  from on_pdu_received_sync [OF inv calm this pdu] act
  have sync: "stored (journal_new dir) (r_world ?rx1) = Some ?s" "calm (r_world ?rx1)"
    by (simp_all add: in_sync_def)
  have "\<not> terminated (js_filename ?s)" by (rule name(2))
  moreover have "journal_exists (journal_new dir) (r_world ?rx1)" by (rule jnl.stored_exists [OF sync(1)])
  moreover have "journal_load (journal_new dir) (r_world ?rx1) memory' = (True, ?s)"
    by (rule jnl.load_stored [OF sync(2,1) assms(3)])
  ultimately have "on_boot zcrc (receiver_new dir recv_dir memory' (r_world ?rx1)) =
      Inl (Undefined Unterminated_string, r_world ?rx1)"
    by (simp add: on_boot_def Let_def throw_def receiver_new_def)
  with pdu act show ?thesis by blast
qed

theorem full_name_stops_the_next_boot_witness:
  "\<exists>rx. on_pdu_received ex_zcrc (metadata_pdu (ex_meta\<lparr>m_filename := replicate 255 104 @ [0]\<rparr>))
      (receiver_new ex_dir ex_recv_dir (unset_state\<lparr>js_filename := replicate 256 1\<rparr>) ex_world) = Inr rx \<and>
    on_boot ex_zcrc (receiver_new ex_dir ex_recv_dir unset_state (r_world rx)) =
      Inl (Undefined Unterminated_string, r_world rx)"
proof -
  let ?m = "ex_meta\<lparr>m_filename := replicate 255 104 @ [0]\<rparr>"
  let ?mem = "unset_state\<lparr>js_filename := replicate 256 1\<rparr>"
  have mem: "arrays_ok ?mem" "js_filename ?mem ! 255 \<noteq> 0"
    by (simp_all add: arrays_ok_def unset_state_def)
  have c: "cstr (replicate n 104 @ [0]) = replicate n (104 :: u8)" for n
    by (induction n) (simp_all add: cstr_def)
  then have name: "cstr (m_filename ?m) = replicate 255 104" by simp
  have "\<not> contains (replicate n (104 :: u8)) [46, 46]" for n by (induction n) auto
  then have "accepted ?m"
    using ex_describes by (simp add: describes_def accepted_def c safe_filename_def contains_slash)
  moreover have "metadata_fits ?m" "m_transaction_id ?m \<noteq> 0" "length (cstr (m_filename ?m)) = 255"
    unfolding name by (simp_all add: metadata_fits_def) (simp add: ex_meta_def)
  ultimately show ?thesis
    using full_name_stops_the_next_boot [OF ex_dirs_ok mem(1) ex_fresh(5,4,2) _ _ _ _ mem(2), of ?m ex_zcrc]
    by blast
qed

text \<open>C37: A receiver that dies in the middle of chunk \<open>k > 0\<close> and is started again while the sender is
  running: it has forgotten the packets of the chunk, and the sender never sends them again. It
  repeats \<open>Metadata\<close> and \<open>Eof\<close>, which are not answered, for ever.\<close>

theorem reboot_within_a_chunk_stops_the_transfer:
  assumes "dirs_ok dir recv_dir" and "sender_ok s file name" and "zlib_streaming zcrc"
    and c: "c = py_crc32_file zcrc file" and m: "m = meta_of s file name (word_of_int c)"
    and "calm w" and "w_log w = []" and "w_files w (j_state_path (journal_new dir)) = None"
    and "w_files w (recv_dir @ ascii ''/'' @ ascii name) = None" and "arrays_ok memory"
    and "arrays_ok memory'"
    and its: "items_ok m file (Receiving 0 {} False) items"
      "foldl (progress_step m file) (Receiving 0 {} False) items = Receiving k S e"
    and k: "0 < k" "k < unat (m_total_chunks m)"
  shows "\<exists>rx rx'.
    deliver zcrc (metadata_pdu m # map (item_pdu m file) items) (receiver_new dir recv_dir memory w) = Inr rx \<and>
    on_boot zcrc (receiver_new dir recv_dir memory' (r_world rx)) = Inr rx' \<and> r_transfer_active rx' \<and>
    (\<forall>n. \<exists>rx''. turns zcrc s file name c (replicate n UNIV) (In_chunk (int k), [], rx') =
      Some (In_chunk (int k), [], rx'') \<and> said rx'' = said rx')"
proof -
  note sum = sender_checksum [OF assms(2,3), folded c]
  have desc: "describes m file" unfolding m by (rule describes_meta_of [OF assms(2)])
  have sum': "crc32_file zcrc (Some file) = m_checksum m" using sum(3) by (simp add: m meta_of_def)
  have none: "w_files w (recv_dir @ ascii ''/'' @ cstr (m_filename m)) = None"
    using assms(9) by (simp add: m meta_name [OF assms(2)])
  obtain rx rx' where
    rx: "deliver zcrc (metadata_pdu m # map (item_pdu m file) items) (receiver_new dir recv_dir memory w) = Inr rx"
      "on_boot zcrc (receiver_new dir recv_dir memory' (r_world rx)) = Inr rx'"
    and rx': "tracks dir recv_dir m file (Receiving k {} e) rx'"
      "r_current_chunk_index rx' = UINT32_MAX" "r_max_chunk_seen rx' = 0"
    using session_cut_off [OF assms(1) desc sum' assms(6-8) none assms(10,11) its k(2)] by blast
  have "at_rest dir recv_dir (meta_of s file name (word_of_int c)) file k rx'"
    using rx' k unfolding at_rest_def m by auto
  from timeouts_at_rest [OF assms(1,2) sum this] rx rx'(1) show ?thesis by (auto simp: shows_progress_def)
qed

theorem reboot_within_a_chunk_stops_the_transfer_witness:
  "\<exists>rx rx'. deliver ex_zcrc ex_first_chunk ex_receiver = Inr rx \<and>
    on_boot ex_zcrc (receiver_new ex_dir ex_recv_dir unset_state (r_world rx)) = Inr rx' \<and>
    (\<forall>n. \<exists>rx''. turns ex_zcrc ex_sender ex_file ''hi'' ex_sum (replicate n UNIV) (In_chunk 1, [], rx') =
      Some (In_chunk 1, [], rx'') \<and> said rx'' = said rx')"
proof -
  have k: "0 < (1 :: nat)" "1 < unat (m_total_chunks ex_meta)" by (simp_all add: ex_sizes)
  from reboot_within_a_chunk_stops_the_transfer [OF ex_dirs_ok ex_sender_ok ex_streaming ex_sum_def ex_meta_sum
      ex_fresh(4,1,2) ex_no_file ex_fresh(5) ex_fresh(5) ex_items k, folded ex_receiver_def ex_first_chunk_def]
  show ?thesis by auto
qed

text \<open>C38: If all packets of the first pass of a chunk are lost and only its \<open>Eof\<close> arrives, sender and
  receiver wait for ever (but for chunk 0): the receiver asks for nothing beyond
  \<open>max_chunk_seen_\<close>, and on a time-out the sender repeats only \<open>Metadata\<close> and \<open>Eof\<close>. No later
  turn without any loss changes anything.\<close>

theorem one_lost_pass_stops_the_transfer:
  assumes "dirs_ok dir recv_dir" and "sender_ok s file name" and "zlib_streaming zcrc"
    and c: "c = py_crc32_file zcrc file" and m: "m = meta_of s file name (word_of_int c)"
    and "calm w" and "w_log w = []" and "w_files w (j_state_path (journal_new dir)) = None"
    and "w_files w (recv_dir @ ascii ''/'' @ ascii name) = None" and "arrays_ok memory"
    and k: "0 < k" "k < unat (m_total_chunks m)"
    and "\<forall>j < k. arrives j \<inter> {..<packets_in m file (of_nat j)} \<noteq> {}"
  shows "\<exists>t rx. talk_start zcrc s file name c (receiver_new dir recv_dir memory w) = Some t \<and>
    turns zcrc s file name c (concat (map (chunk_turns m file arrives) [0..<k]) @
      [{packets_in m file (of_nat k)}]) t = Some (In_chunk (int k), [], rx) \<and>
    (\<forall>n. \<exists>rx'. turns zcrc s file name c (replicate n UNIV) (In_chunk (int k), [], rx) =
      Some (In_chunk (int k), [], rx') \<and> said rx' = said rx)"
proof -
  note sum = sender_checksum [OF assms(2,3), folded c]
  obtain t where t: "talk_start zcrc s file name c (receiver_new dir recv_dir memory w) = Some t"
      "about dir recv_dir s file name c 0 t"
    using talk_begins_new [OF assms(1,2) sum(1,2) assms(6-10)] by blast
  from chunks_before [OF assms(1,2) sum t(2), of k arrives] assms(13) k obtain t1 where
    t1: "turns zcrc s file name c (concat (map (chunk_turns m file arrives) [0..<k])) t = Some t1"
      "about dir recv_dir s file name c k t1" by (auto simp: m)
  from pass_lost [OF assms(1,2) sum k [unfolded m] t1(2)] obtain rx where
    rx: "turn zcrc s file name c {packets_in m file (of_nat k)} t1 = Some (In_chunk (int k), [], rx)"
      "at_rest dir recv_dir (meta_of s file name (word_of_int c)) file k rx"
    unfolding m by blast
  from timeouts_at_rest [OF assms(1,2) sum rx(2)] t(1) t1(1) rx(1) show ?thesis
    by (intro exI [of _ t] exI [of _ rx]) (simp add: turns_append)
qed

theorem one_lost_pass_stops_the_transfer_witness:
  "\<exists>t rx. talk_start ex_zcrc ex_sender ex_file ''hi'' ex_sum ex_receiver = Some t \<and>
    turns ex_zcrc ex_sender ex_file ''hi'' ex_sum [{0, 2}, UNIV, {1}] t = Some (In_chunk 1, [], rx) \<and>
    (\<forall>n. \<exists>rx'. turns ex_zcrc ex_sender ex_file ''hi'' ex_sum (replicate n UNIV) (In_chunk 1, [], rx) =
      Some (In_chunk 1, [], rx') \<and> said rx' = said rx)"
proof -
  have k: "0 < (1 :: nat)" "1 < unat (m_total_chunks ex_meta)" by (simp_all add: ex_sizes)
  have some: "\<forall>j < 1. {0} \<inter> {..<packets_in ex_meta ex_file (of_nat j)} \<noteq> {}"
    by (simp add: ex_packets)
  from one_lost_pass_stops_the_transfer [OF ex_dirs_ok ex_sender_ok ex_streaming ex_sum_def ex_meta_sum
      ex_fresh(4,1,2) ex_no_file ex_fresh(5) k some]
  show ?thesis by (simp add: ex_receiver_def ex_pass ex_packets)
qed

text \<open>C39: If the ACK of a chunk that is not the last is lost, sender and receiver wait for ever, with
  the chunk on disk: nothing the sender retransmits makes the receiver acknowledge it again.\<close>

theorem lost_chunk_ack_is_never_repeated:
  assumes "dirs_ok dir recv_dir" and "sender_ok s file name" and "zlib_streaming zcrc"
    and c: "c = py_crc32_file zcrc file" and m: "m = meta_of s file name (word_of_int c)"
    and "calm w" and "w_log w = []" and "w_files w (j_state_path (journal_new dir)) = None"
    and "w_files w (recv_dir @ ascii ''/'' @ ascii name) = None" and "arrays_ok memory"
    and k: "Suc k < unat (m_total_chunks m)"
    and "\<forall>j < Suc k. arrives j \<inter> {..<packets_in m file (of_nat j)} \<noteq> {}"
  shows "\<exists>t inbox rx. talk_start zcrc s file name c (receiver_new dir recv_dir memory w) = Some t \<and>
    turns zcrc s file name c (concat (map (chunk_turns m file arrives) [0..<Suc k])) t =
      Some (In_chunk (int k), inbox, rx) \<and>
    chunk_finished (r_state rx) (of_nat k) \<and>
    (\<forall>n. \<exists>rx'. turns zcrc s file name c (replicate n UNIV) (In_chunk (int k), [], rx) =
      Some (In_chunk (int k), [], rx') \<and> said rx' = said rx)"
proof -
  note sum = sender_checksum [OF assms(2,3), folded c]
  obtain t where t: "talk_start zcrc s file name c (receiver_new dir recv_dir memory w) = Some t"
      "about dir recv_dir s file name c 0 t"
    using talk_begins_new [OF assms(1,2) sum(1,2) assms(6-10)] by blast
  from chunks_before [OF assms(1,2) sum t(2), of "Suc k" arrives] assms(12) k obtain inbox rx where
    t1: "turns zcrc s file name c (concat (map (chunk_turns m file arrives) [0..<Suc k])) t =
        Some (In_chunk (int k), inbox, rx)"
      "about dir recv_dir s file name c (Suc k) (In_chunk (int k), inbox, rx)"
    by (auto simp: m simp del: about.simps upt_Suc)
  have "at_rest dir recv_dir (meta_of s file name (word_of_int c)) file (Suc k) rx"
    by (rule at_rest_about [OF t1(2) _ k [unfolded m]]) simp
  from timeouts_at_rest [OF assms(1,2) sum this] t(1) t1(1) chunk_on_disk_about [OF t1(2) k [unfolded m]]
  show ?thesis by blast
qed

theorem lost_chunk_ack_is_never_repeated_witness:
  "\<exists>t inbox rx. talk_start ex_zcrc ex_sender ex_file ''hi'' ex_sum ex_receiver = Some t \<and>
    turns ex_zcrc ex_sender ex_file ''hi'' ex_sum [{0, 2}, UNIV] t = Some (In_chunk 0, inbox, rx) \<and>
    (\<forall>n. \<exists>rx'. turns ex_zcrc ex_sender ex_file ''hi'' ex_sum (replicate n UNIV) (In_chunk 0, [], rx) =
      Some (In_chunk 0, [], rx') \<and> said rx' = said rx)"
proof -
  have k: "Suc 0 < unat (m_total_chunks ex_meta)" by (simp_all add: ex_sizes)
  have some: "\<forall>j < Suc 0. {0} \<inter> {..<packets_in ex_meta ex_file (of_nat j)} \<noteq> {}"
    by (simp add: ex_packets)
  from lost_chunk_ack_is_never_repeated [OF ex_dirs_ok ex_sender_ok ex_streaming ex_sum_def ex_meta_sum
      ex_fresh(4,1,2) ex_no_file ex_fresh(5) k some]
  show ?thesis by (auto simp: ex_receiver_def ex_pass)
qed

text \<open>C40: A second file is lost without notice. \<open>CfdpSender\<close> has the same transaction id in every run:
  after a conversation with any losses, at the end of which the sender has returned, the next run of
  the sender, with another file, over a perfect line to the same receiver process, returns as if
  the file had arrived, within five turns, and the receiver has not touched its disk.\<close>

theorem second_file_is_reported_but_dropped:
  assumes "dirs_ok dir recv_dir" and "zlib_streaming zcrc"
    and "sender_ok s file name" and c: "c = py_crc32_file zcrc file"
    and "sender_ok s' file' name'" and c': "c' = py_crc32_file zcrc file'" and "t_tid s' = t_tid s"
    and "arrays_ok memory" and "w_files w (j_state_path (journal_new dir)) = None" and "w_log w = []"
    and "talk_start zcrc s file name c (receiver_new dir recv_dir memory w) = Some t"
    and "turns zcrc s file name c arrives t = Some (Done, inbox, rx)"
  shows "\<exists>t' rx'. talk_start zcrc s' file' name' c' rx = Some t' \<and>
    turns zcrc s' file' name' c' (replicate 5 UNIV) t' = Some (Done, [], rx') \<and>
    w_files (r_world rx') = w_files (r_world rx)"
proof -
  note sum = sender_checksum [OF assms(3,2), folded c] and sum' = sender_checksum [OF assms(5,2), folded c']
  have "on_terms dir recv_dir s file t"
    by (rule on_terms_new [OF assms(3) sum(1,2) assms(1,8) fresh_journal_ok [OF assms(9)] assms(10,11)])
  from on_terms_completed [OF on_terms_turns [OF assms(3) sum(1,2) this assms(12)]]
  have "completed s' rx" using assms(7) by (simp add: completed_def)
  from second_file_turns [OF assms(5) sum'(1,2) this] show ?thesis by blast
qed

theorem second_file_is_reported_but_dropped_witness:
  "\<exists>rx t' rx'. w_files (r_world rx) (ascii ''r/hi'') = Some [104, 105, 33] \<and>
    talk_start ex_zcrc ex_sender [1, 2] ''new'' (py_crc32_file ex_zcrc [1, 2]) rx = Some t' \<and>
    turns ex_zcrc ex_sender [1, 2] ''new'' (py_crc32_file ex_zcrc [1, 2]) (replicate 5 UNIV) t' = Some (Done, [], rx') \<and>
    w_files (r_world rx') = w_files (r_world rx)"
proof -
  obtain t rx where t: "talk_start ex_zcrc ex_sender ex_file ''hi'' ex_sum ex_receiver = Some t"
      "turns ex_zcrc ex_sender ex_file ''hi'' ex_sum (transfer_turns ex_meta ex_file (\<lambda>_. {0}) 0) t = Some (Done, [], rx)"
      "tracks ex_dir ex_recv_dir ex_meta ex_file Complete rx"
    using ex_conversation by blast
  from second_file_is_reported_but_dropped [OF ex_dirs_ok ex_streaming ex_sender_ok ex_sum_def ex_sender_ok_other
      refl refl ex_fresh(5,2,1) t(1,2) [unfolded ex_receiver_def]] obtain t' rx' where
    t': "talk_start ex_zcrc ex_sender [1, 2] ''new'' (py_crc32_file ex_zcrc [1, 2]) rx = Some t'"
      "turns ex_zcrc ex_sender [1, 2] ''new'' (py_crc32_file ex_zcrc [1, 2]) (replicate 5 UNIV) t' = Some (Done, [], rx')"
      "w_files (r_world rx') = w_files (r_world rx)" by blast
  have "w_files (r_world rx) (ascii ''r/hi'') = Some ex_file"
    using t(3) unfolding dest_of_def ex_cstr ex_dest tracks.simps by blast
  with t' show ?thesis unfolding ex_file_def by blast
qed

end
